(* ===== verification/Prelude.thy ===== *)
theory Prelude
  imports Main "HOL-Library.Word"
begin

text \<open>
  Shared vocabulary of the development: the machine integers of the C sources, the outcome of a
  kernel routine (it returns, or the machine stops), little-endian byte codecs, byte-addressed
  memory with its loads and stores, and the generic facts about words, lists and circular
  indices that the component theories use.
\<close>

unbundle bit_operations_syntax

named_theorems kernel_simps \<open>equations that evaluate kernel routines on explicit states\<close>
named_theorems mem_simps \<open>reads after writes of byte-addressed memory\<close>

section \<open>Machine integers\<close>

type_synonym u8 = "8 word"
type_synonym u16 = "16 word"
type_synonym u32 = "32 word"
type_synonym u64 = "64 word"
type_synonym addr = u64

section \<open>Outcomes of kernel routines\<close>

text \<open>
  \<open>panic\<close> (kernel/src/panic.c) never returns, and neither does a page fault taken in the kernel
  (\<open>handle_pagefault\<close> panics). A routine that can reach either has the result type
  \<open>kstop + 'a\<close>: \<open>Inl\<close> is the reason the machine stopped, \<open>Inr\<close> the returned value.
\<close>

datatype kstop =
    Panic string
  | PageFault addr

definition bindR :: "kstop + 'a \<Rightarrow> ('a \<Rightarrow> kstop + 'b) \<Rightarrow> kstop + 'b" where
  "bindR r f = (case r of Inl e \<Rightarrow> Inl e | Inr x \<Rightarrow> f x)"

lemma bindR_simps [simp, kernel_simps]:
  "bindR (Inl e) f = Inl e"
  "bindR (Inr x) f = f x"
  by (simp_all add: bindR_def)

lemma bindR_InrE [elim!]:
  assumes "bindR r f = Inr y"
  obtains x where "r = Inr x" and "f x = Inr y"
  using assms by (cases r) auto

lemma bindR_cong [fundef_cong]:
  "r = r' \<Longrightarrow> (\<And>x. r' = Inr x \<Longrightarrow> f x = g x) \<Longrightarrow> bindR r f = bindR r' g"
  by (cases r') auto

lemma bindR_assoc: "bindR (bindR r f) g = bindR r (\<lambda>x. bindR (f x) g)"
  by (cases r) auto

section \<open>Little-endian byte codecs\<close>

text \<open>
  The target is x86\_64, so an integer of \<open>n\<close> bytes is stored lowest byte first. \<open>le_bytes n w\<close>
  is the stored form of \<open>w\<close>, \<open>le_word bs\<close> the integer read back from \<open>bs\<close>.
\<close>

primrec le_bytes :: "nat \<Rightarrow> 'a::len word \<Rightarrow> u8 list" where
  "le_bytes 0 w = []"
| "le_bytes (Suc n) w = ucast w # le_bytes n (drop_bit 8 w)"

primrec le_word :: "u8 list \<Rightarrow> 'a::len word" where
  "le_word [] = 0"
| "le_word (b # bs) = ucast b OR push_bit 8 (le_word bs)"

lemma length_le_bytes [simp]: "length (le_bytes n w) = n"
  by (induction n arbitrary: w) auto

lemma le_word_le_bytes_take: "le_word (le_bytes n w) = take_bit (8 * n) (w :: 'a::len word)"
proof (induction n arbitrary: w)
  case 0
  then show ?case by simp
next
  case (Suc n)
  have "(ucast (ucast w :: u8) :: 'a word) OR push_bit 8 (take_bit (8 * n) (drop_bit 8 w))
      = take_bit (8 * Suc n) w"
    by (rule bit_eqI) (auto simp: bit_simps)
  then show ?case using Suc by simp
qed

lemma le_word_le_bytes [simp]:
  "LENGTH('a) \<le> 8 * n \<Longrightarrow> le_word (le_bytes n w) = (w :: 'a::len word)"
  by (rule bit_eqI) (auto simp: le_word_le_bytes_take bit_simps dest: bit_imp_le_length)

lemma le_bytes_le_word:
  "8 * length bs \<le> LENGTH('a) \<Longrightarrow> le_bytes (length bs) (le_word bs :: 'a::len word) = bs"
proof (induction bs)
  case Nil
  then show ?case by simp
next
  case (Cons b bs)
  have lo: "(ucast (ucast b OR push_bit 8 (le_word bs :: 'a word)) :: u8) = b"
    using Cons.prems by (intro bit_eqI) (auto simp: bit_simps dest: bit_imp_le_length)
  have bound: "\<not> bit (le_word bs :: 'a word) m" if "8 * length bs \<le> m" for m bs
  proof -
    have "\<forall>m. 8 * length bs \<le> m \<longrightarrow> \<not> bit (le_word bs :: 'a word) m"
      by (induction bs) (auto simp: bit_simps dest: bit_imp_le_length)
    then show ?thesis using that by blast
  qed
  have hi: "drop_bit 8 (ucast b OR push_bit 8 (le_word bs)) = (le_word bs :: 'a word)"
    using Cons.prems bound
    by (intro bit_eqI) (force simp: bit_simps dest: bit_imp_le_length)
  show ?case using Cons lo hi by simp
qed

section \<open>Byte-addressed memory\<close>

text \<open>
  The kernel's view of memory: every virtual address holds one byte. Pointers are 64-bit words,
  pointer arithmetic wraps.
\<close>

type_synonym memory = "addr \<Rightarrow> u8"

definition load_bytes :: "memory \<Rightarrow> addr \<Rightarrow> nat \<Rightarrow> u8 list" where
  "load_bytes m a n = map (\<lambda>i. m (a + of_nat i)) [0..<n]"

primrec store_bytes :: "memory \<Rightarrow> addr \<Rightarrow> u8 list \<Rightarrow> memory" where
  "store_bytes m a [] = m"
| "store_bytes m a (b # bs) = store_bytes (m(a := b)) (a + 1) bs"

definition load64 :: "memory \<Rightarrow> addr \<Rightarrow> u64" where
  "load64 m a = le_word (load_bytes m a 8)"

definition store64 :: "memory \<Rightarrow> addr \<Rightarrow> u64 \<Rightarrow> memory" where
  "store64 m a v = store_bytes m a (le_bytes 8 v)"

text \<open>\<open>in_range a n x\<close>: the address \<open>x\<close> is one of the \<open>n\<close> bytes at \<open>a\<close>, wrapping as pointers do.\<close>

definition in_range :: "addr \<Rightarrow> nat \<Rightarrow> addr \<Rightarrow> bool" where
  "in_range a n x \<longleftrightarrow> unat (x - a) < n"

lemma length_load_bytes [simp]: "length (load_bytes m a n) = n"
  by (simp add: load_bytes_def)

lemma load_bytes_Suc: "load_bytes m a (Suc n) = m a # load_bytes m (a + 1) n"
proof -
  have "[0..<Suc n] = 0 # map Suc [0..<n]" by (simp add: upt_conv_Cons map_Suc_upt)
  then show ?thesis by (simp add: load_bytes_def ac_simps)
qed

lemma unat_minus_Suc:
  fixes x a :: addr
  assumes "x \<noteq> a"
  shows "unat (x - a) = Suc (unat (x - (a + 1)))"
proof -
  have "x - a \<noteq> 0" using assms by simp
  then have "unat (x - a - 1) = unat (x - a) - 1" by (rule unat_minus_one)
  moreover have "0 < unat (x - a)" using \<open>x - a \<noteq> 0\<close> by (simp add: unat_gt_0)
  ultimately show ?thesis by (simp add: algebra_simps)
qed

lemma store_bytes_apply:
  assumes "length bs \<le> 2 ^ 64"
  shows "store_bytes m a bs x
       = (if unat (x - a) < length bs then bs ! unat (x - a) else m x)"
  using assms
proof (induction bs arbitrary: m a)
  case Nil
  then show ?case by simp
next
  case (Cons b bs)
  show ?case
  proof (cases "x = a")
    case True
    have "unat (a - (a + 1)) = 2 ^ 64 - 1" by (simp add: unsigned_minus_1_eq_mask mask_eq_exp_minus_1)
    then have "\<not> unat (x - (a + 1)) < length bs" using Cons.prems True by simp
    then show ?thesis using True Cons by simp
  next
    case False
    then show ?thesis using Cons unat_minus_Suc [OF False] by simp
  qed
qed

lemma store_bytes_outside [mem_simps]:
  "length bs \<le> 2 ^ 64 \<Longrightarrow> \<not> in_range a (length bs) x \<Longrightarrow> store_bytes m a bs x = m x"
  by (simp add: store_bytes_apply in_range_def)

lemma load_store_bytes_same:
  assumes "length bs \<le> 2 ^ 64"
  shows "load_bytes (store_bytes m a bs) a (length bs) = bs"
proof (rule nth_equalityI)
  fix i assume i: "i < length (load_bytes (store_bytes m a bs) a (length bs))"
  then have "unat (of_nat i :: addr) = i"
    using assms by (simp add: unat_of_nat)
  then show "load_bytes (store_bytes m a bs) a (length bs) ! i = bs ! i"
    using i assms by (simp add: load_bytes_def store_bytes_apply)
qed simp

lemma load64_store64_same [simp, mem_simps]: "load64 (store64 m a v) a = v"
proof -
  have "load_bytes (store_bytes m a (le_bytes 8 v)) a 8 = le_bytes 8 v"
    using load_store_bytes_same [of "le_bytes 8 v" m a] by simp
  then show ?thesis by (simp add: load64_def store64_def)
qed

lemma load_bytes_cong:
  "(\<And>i. i < n \<Longrightarrow> m (a + of_nat i) = m' (a + of_nat i)) \<Longrightarrow> load_bytes m a n = load_bytes m' a n"
  by (simp add: load_bytes_def)

lemma store64_apply:
  "store64 m a v x = (if unat (x - a) < 8 then le_bytes 8 v ! unat (x - a) else m x)"
  by (simp add: store64_def store_bytes_apply)

lemma store64_outside [mem_simps]: "\<not> in_range a 8 x \<Longrightarrow> store64 m a v x = m x"
  by (simp add: store64_apply in_range_def)

lemma load64_cong:
  "(\<And>i. i < 8 \<Longrightarrow> m (a + of_nat i) = m' (a + of_nat i)) \<Longrightarrow> load64 m a = load64 m' a"
  unfolding load64_def by (subst load_bytes_cong [of 8 m a m']) auto

lemma in_range_unat:
  fixes a x :: addr
  assumes "unat a + n \<le> 2 ^ 64"
  shows "in_range a n x \<longleftrightarrow> unat a \<le> unat x \<and> unat x < unat a + n"
proof (cases "a \<le> x")
  case True
  then have "unat (x - a) = unat x - unat a" by (rule unat_sub)
  then show ?thesis using True by (auto simp: in_range_def word_le_nat_alt)
next
  case False
  then have "unat (x - a) = unat x + 2 ^ 64 - unat a"
    by (simp add: unat_sub_if' word_le_nat_alt)
  moreover have "unat x < unat a" using False by (simp add: word_le_nat_alt)
  ultimately show ?thesis using assms by (auto simp: in_range_def)
qed

text \<open>Regions that share no byte; two non-wrapping intervals are disjoint when one ends first.\<close>

definition disjoint_regions :: "addr \<Rightarrow> nat \<Rightarrow> addr \<Rightarrow> nat \<Rightarrow> bool" where
  "disjoint_regions a n b k \<longleftrightarrow> (\<forall>x. \<not> (in_range a n x \<and> in_range b k x))"

lemma disjoint_regionsI:
  assumes "unat a + n \<le> 2 ^ 64" and "unat b + k \<le> 2 ^ 64"
    and "unat a + n \<le> unat b \<or> unat b + k \<le> unat a"
  shows "disjoint_regions a n b k"
  using assms by (auto simp: disjoint_regions_def in_range_unat)

lemma in_range_offset: "i < n \<Longrightarrow> n \<le> 2 ^ 64 \<Longrightarrow> in_range a n (a + of_nat i)"
  by (simp add: in_range_def unat_of_nat)

lemma load64_store_bytes_disjoint [mem_simps]:
  assumes "disjoint_regions a (length bs) b 8" and "length bs \<le> 2 ^ 64"
  shows "load64 (store_bytes m a bs) b = load64 m b"
  using assms
  by (intro load64_cong store_bytes_outside) (auto simp: disjoint_regions_def in_range_offset)

lemma load64_store64_disjoint [mem_simps]:
  "disjoint_regions a 8 b 8 \<Longrightarrow> load64 (store64 m a v) b = load64 m b"
  by (simp add: store64_def load64_store_bytes_disjoint)

lemma load64_if_outside:
  assumes "disjoint_regions a n b 8"
  shows "load64 (\<lambda>x. if in_range a n x then f x else m x) b = load64 m b"
  using assms by (intro load64_cong) (auto simp: disjoint_regions_def in_range_offset)

lemma le_word_replicate_zero: "le_word (replicate n 0) = (0 :: 'a::len word)"
  by (induction n) auto

lemma load64_zero:
  assumes "\<And>i. i < 8 \<Longrightarrow> m (a + of_nat i) = 0"
  shows "load64 m a = 0"
proof -
  have "load_bytes m a 8 = replicate 8 0"
    using assms by (auto simp: load_bytes_def intro!: nth_equalityI)
  then show ?thesis by (simp only: load64_def le_word_replicate_zero)
qed

section \<open>Words and naturals\<close>

lemma unat_u64_bound: "unat (n :: u64) < 2 ^ 64"
  using unsigned_less [of n, where 'a = nat] by simp

lemma unat_inject: "unat a = unat b \<longleftrightarrow> a = (b :: 'a::len word)"
  by (auto intro: unsigned_word_eqI)

lemma unat_of_nat_u64: "i < 2 ^ 64 \<Longrightarrow> unat (of_nat i :: u64) = i"
  by (simp add: unat_of_nat)

lemma of_nat_eq_u64: "i < 2 ^ 64 \<Longrightarrow> j < 2 ^ 64 \<Longrightarrow> (of_nat i :: u64) = of_nat j \<longleftrightarrow> i = j"
  by (metis unat_of_nat_u64)

lemma unat_add_small:
  fixes a b :: u64
  assumes "unat a + unat b < 2 ^ 64"
  shows "unat (a + b) = unat a + unat b"
  using assms by (simp add: unat_word_ariths)

lemma unat_Suc_less:
  fixes i n :: u64
  assumes "i < n"
  shows "unat (i + 1) = Suc (unat i)"
proof -
  have "unat i + unat (1 :: u64) < 2 ^ 64"
    using assms unat_u64_bound [of n] by (simp add: word_less_nat_alt)
  then show ?thesis by (simp only: unat_add_small) simp
qed

lemma unat_mult_small:
  fixes a b :: u64
  assumes "unat a * unat b < 2 ^ 64"
  shows "unat (a * b) = unat a * unat b"
  using assms by (simp add: unat_word_ariths)

lemma unat_add_of_nat:
  fixes a :: u64
  assumes "unat a + i < 2 ^ 64"
  shows "unat (a + of_nat i) = unat a + i"
  using assms unat_add_small [of a "of_nat i"] by (simp add: unat_of_nat_u64)

lemma unat_sub_small:
  fixes a b :: u64
  assumes "unat b \<le> unat a"
  shows "unat (a - b) = unat a - unat b"
  using assms by (simp add: unat_sub word_le_nat_alt)

lemmas unat_small = unat_add_small unat_mult_small unat_sub_small unat_div unat_mod

lemma word_less_iff_unat: "(a :: u64) < b \<longleftrightarrow> unat a < unat b"
  by (rule word_less_nat_alt)

lemma word_le_iff_unat: "(a :: u64) \<le> b \<longleftrightarrow> unat a \<le> unat b"
  by (rule word_le_nat_alt)

end
