(* ===== verification/Lock.thy ===== *)
theory Lock
  imports Prelude
begin

text \<open>
  The spinlock of \<^verbatim>\<open>kernel/src/lock/lock.c\<close> and \<^verbatim>\<open>kernel/include/lock/lock.h\<close>.

  The first half models each function of the file as a function on the lock structure.  A spinning
  \<^verbatim>\<open>lock_acquire\<close> sees the lock change under it, so it takes the interference of the other processors
  as a parameter: \<^verbatim>\<open>env i\<close> is what they did to the structure before attempt \<^verbatim>\<open>i\<close>.  The second half
  models the same two functions at the granularity of single memory accesses, as a step relation
  over any number of processors, and shows mutual exclusion and that the debug checks never fire
  on a client that follows the protocol.

  The build flag COTTAGE\_DEBUG is a field of the processor context, so every statement covers both
  builds.  Messages written through \<^verbatim>\<open>klog_unlocked\<close> are output and are not part of the state.
\<close>

section \<open>The structure and the processor context\<close>

record lock_t =
  is_locked :: bool
  owner_cpu :: u64
  acquire_caller :: u64
  acquire_count :: u64
  lock_name :: "string option"

definition LOCK_INITIALIZER :: "string option \<Rightarrow> lock_t" where
  "LOCK_INITIALIZER nm =
     \<lparr>is_locked = False, owner_cpu = - 1, acquire_caller = 0, acquire_count = 0, lock_name = nm\<rparr>"

text \<open>
  What a processor's code reads from its surroundings: the build flag, the global \<^verbatim>\<open>have_smp\<close>, its
  flags register, the processor number at \<^verbatim>\<open>gs:0\<close>, and the return address that a call from the named
  function leaves on the stack.
\<close>

record cpu_ctx =
  cottage_debug :: bool
  have_smp :: bool
  rflags :: u64
  gs_cpu_number :: u64
  return_address :: "string \<Rightarrow> u64"

definition get_current_cpu_safe :: "cpu_ctx \<Rightarrow> u64" where
  "get_current_cpu_safe c =
     (if \<not> have_smp c then - 1
      else if rflags c AND 0x200 \<noteq> 0 then - 1
      else gs_cpu_number c)"

section \<open>The operations\<close>

definition lock_test_and_acquire :: "cpu_ctx \<Rightarrow> string \<Rightarrow> lock_t \<Rightarrow> bool \<times> lock_t" where
  "lock_test_and_acquire c caller l =
     (if is_locked l then (False, l)
      else
        (let l1 = l\<lparr>is_locked := True, acquire_caller := return_address c caller\<rparr>
         in (True, if cottage_debug c then l1\<lparr>owner_cpu := get_current_cpu_safe c\<rparr> else l1)))"

definition LOCK_DEADLOCK_THRESHOLD :: nat where
  "LOCK_DEADLOCK_THRESHOLD = 10000000"

definition lock_record_owner :: "cpu_ctx \<Rightarrow> u64 \<Rightarrow> u64 \<Rightarrow> lock_t \<Rightarrow> lock_t" where
  "lock_record_owner c caller my_cpu l =
     (let l1 = l\<lparr>acquire_caller := caller\<rparr>
      in if cottage_debug c
         then l1\<lparr>owner_cpu := my_cpu, acquire_count := acquire_count l1 + 1\<rparr> else l1)"

function lock_spin ::
  "cpu_ctx \<Rightarrow> u64 \<Rightarrow> u64 \<Rightarrow> (nat \<Rightarrow> lock_t \<Rightarrow> lock_t) \<Rightarrow> nat \<Rightarrow> lock_t \<Rightarrow> kstop + lock_t" where
  "lock_spin c caller my_cpu env i l =
     (if i < LOCK_DEADLOCK_THRESHOLD
      then
        (let (acquired, l1) = lock_test_and_acquire c ''lock_acquire'' (env i l)
         in if acquired then Inr (lock_record_owner c caller my_cpu l1)
            else lock_spin c caller my_cpu env (i + 1) l1)
      else Inl (Panic ''Deadlock detected - lock acquisition timeout''))"
  by pat_completeness auto
termination
  by (relation "measure (\<lambda>(c, caller, my_cpu, env, i, l). LOCK_DEADLOCK_THRESHOLD - i)") auto

declare lock_spin.simps [simp del]

definition lock_acquire_env ::
  "cpu_ctx \<Rightarrow> string \<Rightarrow> (nat \<Rightarrow> lock_t \<Rightarrow> lock_t) \<Rightarrow> lock_t \<Rightarrow> kstop + lock_t" where
  "lock_acquire_env c caller env l =
     (let my_cpu = get_current_cpu_safe c
      in if cottage_debug c \<and> owner_cpu l = my_cpu \<and> my_cpu \<noteq> - 1
         then Inl (Panic ''Recursive lock acquisition (deadlock)'')
         else lock_spin c (return_address c caller) my_cpu env 0 l)"

text \<open>Without interference: what the other components call.\<close>

definition lock_acquire :: "cpu_ctx \<Rightarrow> string \<Rightarrow> lock_t \<Rightarrow> kstop + lock_t" where
  "lock_acquire c caller l = lock_acquire_env c caller (\<lambda>_ l. l) l"

definition lock_release :: "cpu_ctx \<Rightarrow> lock_t \<Rightarrow> kstop + lock_t" where
  "lock_release c l =
     (let my_cpu = get_current_cpu_safe c
      in if cottage_debug c \<and> \<not> is_locked l
         then Inl (Panic ''Attempted to release lock that isn't held'')
         else if cottage_debug c \<and> my_cpu \<noteq> - 1 \<and> owner_cpu l \<noteq> my_cpu
         then Inl (Panic ''Attempted to release lock held by different CPU'')
         else Inr ((if cottage_debug c then l\<lparr>owner_cpu := - 1\<rparr> else l)\<lparr>is_locked := False\<rparr>))"

definition lock_is_held :: "lock_t \<Rightarrow> bool" where
  "lock_is_held l = is_locked l"

definition lock_is_held_by_me :: "cpu_ctx \<Rightarrow> lock_t \<Rightarrow> bool" where
  "lock_is_held_by_me c l =
     (if cottage_debug c
      then if \<not> is_locked l then False
           else (let my_cpu = get_current_cpu_safe c
                 in if my_cpu = - 1 then False else owner_cpu l = my_cpu)
      else is_locked l)"

definition lock_assert_held :: "cpu_ctx \<Rightarrow> lock_t \<Rightarrow> kstop + unit" where
  "lock_assert_held c l =
     (if cottage_debug c
      then if \<not> lock_is_held_by_me c l
           then Inl (Panic ''Lock assertion failed - lock not held'') else Inr ()
      else if \<not> is_locked l
           then Inl (Panic ''Lock assertion failed - lock not held'') else Inr ())"

section \<open>Saving and restoring the interrupt flag\<close>

text \<open>The inline helpers of cpu.h and the interrupt-safe lock macros built on them.\<close>

definition cpu_interrupt_state :: "cpu_ctx \<Rightarrow> bool" where
  "cpu_interrupt_state c \<longleftrightarrow> rflags c AND push_bit 9 1 \<noteq> 0"

definition irq_save_and_disable :: "cpu_ctx \<Rightarrow> u64 \<times> cpu_ctx" where
  "irq_save_and_disable c = (rflags c, c\<lparr>rflags := rflags c AND NOT 0x200\<rparr>)"

definition irq_restore :: "u64 \<Rightarrow> cpu_ctx \<Rightarrow> cpu_ctx" where
  "irq_restore flags c = c\<lparr>rflags := flags\<rparr>"

definition lock_acquire_irqsave ::
  "string \<Rightarrow> cpu_ctx \<Rightarrow> lock_t \<Rightarrow> kstop + (u64 \<times> cpu_ctx \<times> lock_t)" where
  "lock_acquire_irqsave caller c l =
     (let (flags, c1) = irq_save_and_disable c
      in bindR (lock_acquire c1 caller l) (\<lambda>l1. Inr (flags, c1, l1)))"

definition lock_release_irqrestore ::
  "u64 \<Rightarrow> cpu_ctx \<Rightarrow> lock_t \<Rightarrow> kstop + (cpu_ctx \<times> lock_t)" where
  "lock_release_irqrestore flags c l =
     bindR (lock_release c l) (\<lambda>l1. Inr (irq_restore flags c, l1))"

section \<open>One memory access at a time\<close>

text \<open>
  Where a processor is inside \<^verbatim>\<open>lock_acquire\<close> or \<^verbatim>\<open>lock_release\<close>.  Every constructor stands before one
  access to the shared structure; \<open>Holding\<close> is the client's critical section and \<open>Outside\<close> the rest
  of its code.  The assignments of \<^verbatim>\<open>lock_test_and_acquire\<close> after a won exchange are the constructors
  that end in \<open>0\<close>.
\<close>

datatype lock_pc =
    Outside
  | CheckRecursive
  | Spin nat
  | SetCaller0
  | SetOwner0
  | SetCaller
  | SetOwner
  | SetCount
  | Holding
  | CheckHeld
  | CheckOwner
  | ClearOwner
  | StoreFree
  | Stopped string

fun lock_access :: "cpu_ctx \<Rightarrow> lock_pc \<Rightarrow> lock_t \<Rightarrow> lock_pc \<times> lock_t" where
  "lock_access c Outside l = (if cottage_debug c then CheckRecursive else Spin 0, l)"
| "lock_access c CheckRecursive l =
     (if owner_cpu l = get_current_cpu_safe c \<and> get_current_cpu_safe c \<noteq> - 1
      then Stopped ''Recursive lock acquisition (deadlock)'' else Spin 0, l)"
| "lock_access c (Spin i) l =
     (if i < LOCK_DEADLOCK_THRESHOLD
      then if is_locked l then (Spin (i + 1), l) else (SetCaller0, l\<lparr>is_locked := True\<rparr>)
      else (Stopped ''Deadlock detected - lock acquisition timeout'', l))"
| "lock_access c SetCaller0 l =
     (if cottage_debug c then SetOwner0 else SetCaller,
      l\<lparr>acquire_caller := return_address c ''lock_acquire''\<rparr>)"
| "lock_access c SetOwner0 l = (SetCaller, l\<lparr>owner_cpu := get_current_cpu_safe c\<rparr>)"
| "lock_access c SetCaller l =
     (if cottage_debug c then SetOwner else Holding,
      l\<lparr>acquire_caller := return_address c ''client''\<rparr>)"
| "lock_access c SetOwner l = (SetCount, l\<lparr>owner_cpu := get_current_cpu_safe c\<rparr>)"
| "lock_access c SetCount l = (Holding, l\<lparr>acquire_count := acquire_count l + 1\<rparr>)"
| "lock_access c Holding l = (if cottage_debug c then CheckHeld else StoreFree, l)"
| "lock_access c CheckHeld l =
     (if is_locked l then CheckOwner
      else Stopped ''Attempted to release lock that isn't held'', l)"
| "lock_access c CheckOwner l =
     (if get_current_cpu_safe c \<noteq> - 1 \<and> owner_cpu l \<noteq> get_current_cpu_safe c
      then Stopped ''Attempted to release lock held by different CPU'' else ClearOwner, l)"
| "lock_access c ClearOwner l = (StoreFree, l\<lparr>owner_cpu := - 1\<rparr>)"
| "lock_access c StoreFree l = (Outside, l\<lparr>is_locked := False\<rparr>)"
| "lock_access c (Stopped msg) l = (Stopped msg, l)"

text \<open>Any number \<open>n\<close> of processors, one of which performs its next access.\<close>

type_synonym lock_system = "lock_t \<times> (nat \<Rightarrow> lock_pc)"

inductive lock_step :: "nat \<Rightarrow> (nat \<Rightarrow> cpu_ctx) \<Rightarrow> lock_system \<Rightarrow> lock_system \<Rightarrow> bool" for n cs where
  access: "p < n \<Longrightarrow> lock_access (cs p) (pcs p) l = (pc', l') \<Longrightarrow>
    lock_step n cs (l, pcs) (l', pcs(p := pc'))"

inductive lock_reachable ::
  "nat \<Rightarrow> (nat \<Rightarrow> cpu_ctx) \<Rightarrow> string option \<Rightarrow> lock_system \<Rightarrow> bool" for n cs nm where
  start: "lock_reachable n cs nm (LOCK_INITIALIZER nm, \<lambda>_. Outside)"
| step: "lock_reachable n cs nm s \<Longrightarrow> lock_step n cs s s' \<Longrightarrow> lock_reachable n cs nm s'"

inductive_cases lock_stepE: "lock_step n cs (l, pcs) s'"

text \<open>A program point between the won exchange and the store that frees the lock.\<close>

fun owns_lock :: "lock_pc \<Rightarrow> bool" where
  "owns_lock Outside = False"
| "owns_lock CheckRecursive = False"
| "owns_lock (Spin i) = False"
| "owns_lock (Stopped msg) = False"
| "owns_lock pc = True"

text \<open>Program points at which the owner field already, or still, names the processor.\<close>

fun owner_recorded :: "lock_pc \<Rightarrow> bool" where
  "owner_recorded SetCaller = True"
| "owner_recorded SetOwner = True"
| "owner_recorded SetCount = True"
| "owner_recorded Holding = True"
| "owner_recorded CheckHeld = True"
| "owner_recorded CheckOwner = True"
| "owner_recorded ClearOwner = True"
| "owner_recorded pc = False"

section \<open>The locks of the other components\<close>

text \<open>
  Between calls a lock is idle; after \<^verbatim>\<open>lock_acquire\<close> it is held by the calling processor.  The
  laws of \<open>mutex\<close> are all that the components rely on.
\<close>

definition lock_idle :: "lock_t \<Rightarrow> bool" where
  "lock_idle l \<longleftrightarrow> \<not> is_locked l \<and> owner_cpu l = - 1"

definition lock_held_on :: "cpu_ctx \<Rightarrow> lock_t \<Rightarrow> bool" where
  "lock_held_on c l \<longleftrightarrow>
     is_locked l \<and> owner_cpu l = (if cottage_debug c then get_current_cpu_safe c else - 1)"

locale mutex =
  fixes idle held :: "'l \<Rightarrow> bool"
    and acquire release :: "'l \<Rightarrow> kstop + 'l"
  assumes acquire_idle: "idle l \<Longrightarrow> \<exists>l'. acquire l = Inr l' \<and> held l'"
    and release_held: "held l \<Longrightarrow> \<exists>l'. release l = Inr l' \<and> idle l'"
begin

text \<open>A section bracketed by the two calls runs its body exactly once and leaves the lock idle.\<close>

lemma section_runs:
  assumes "idle l"
  obtains l1 l2 where "acquire l = Inr l1" and "release l1 = Inr l2" and "idle l2" and "held l1"
  using acquire_idle [OF assms] release_held by metis

lemma section_stop:
  assumes "idle l" and "body = Inl e"
  shows "bindR (acquire l) (\<lambda>l1. bindR body (\<lambda>x. bindR (release l1) (\<lambda>l2. Inr (x, l2)))) = Inl e"
  using acquire_idle [OF assms(1)] assms(2) by auto

end

section \<open>Properties of the operations\<close>

lemma get_current_cpu_safe_irqs_on: "rflags c AND 0x200 \<noteq> 0 \<Longrightarrow> get_current_cpu_safe c = - 1"
  by (simp add: get_current_cpu_safe_def)

lemma lock_idle_initializer [simp]: "lock_idle (LOCK_INITIALIZER nm)"
  by (simp add: lock_idle_def LOCK_INITIALIZER_def)

lemma lock_threshold_pos [simp]: "0 < LOCK_DEADLOCK_THRESHOLD"
  by (simp add: LOCK_DEADLOCK_THRESHOLD_def)

lemma lock_spin_free:
  assumes "i < LOCK_DEADLOCK_THRESHOLD" and "\<not> is_locked (env i l)"
  shows "lock_spin c caller my_cpu env i l =
    Inr (lock_record_owner c caller my_cpu (snd (lock_test_and_acquire c ''lock_acquire'' (env i l))))"
  using assms by (subst lock_spin.simps) (simp add: lock_test_and_acquire_def Let_def)

lemma lock_spin_busy:
  assumes "i < LOCK_DEADLOCK_THRESHOLD" and "is_locked (env i l)"
  shows "lock_spin c caller my_cpu env i l = lock_spin c caller my_cpu env (i + 1) (env i l)"
  using assms by (subst lock_spin.simps) (simp add: lock_test_and_acquire_def)

lemma lock_spin_timeout:
  "\<not> i < LOCK_DEADLOCK_THRESHOLD \<Longrightarrow>
   lock_spin c caller my_cpu env i l = Inl (Panic ''Deadlock detected - lock acquisition timeout'')"
  by (subst lock_spin.simps) simp

text \<open>The structure as a spinning processor finds it at attempt \<^verbatim>\<open>i + k\<close>, if it won none before.\<close>

primrec lock_seen :: "(nat \<Rightarrow> lock_t \<Rightarrow> lock_t) \<Rightarrow> nat \<Rightarrow> lock_t \<Rightarrow> nat \<Rightarrow> lock_t" where
  "lock_seen env i l 0 = env i l"
| "lock_seen env i l (Suc k) = env (i + Suc k) (lock_seen env i l k)"

lemma lock_seen_shift: "lock_seen env i l (Suc k) = lock_seen env (i + 1) (env i l) k"
  by (induction k) auto

lemma lock_spin_first_free:
  assumes "i + k < LOCK_DEADLOCK_THRESHOLD" and "\<not> is_locked (lock_seen env i l k)"
    and "\<And>j. j < k \<Longrightarrow> is_locked (lock_seen env i l j)"
  shows "lock_spin c caller my_cpu env i l = Inr (lock_record_owner c caller my_cpu
           (snd (lock_test_and_acquire c ''lock_acquire'' (lock_seen env i l k))))"
  using assms
proof (induction k arbitrary: i l)
  case 0
  then show ?case by (simp add: lock_spin_free)
next
  case (Suc k)
  have "is_locked (env i l)" using Suc.prems(3) [of 0] by simp
  then have "lock_spin c caller my_cpu env i l = lock_spin c caller my_cpu env (i + 1) (env i l)"
    using Suc.prems(1) by (simp add: lock_spin_busy)
  moreover have "is_locked (lock_seen env (i + 1) (env i l) j)" if "j < k" for j
    using Suc.prems(3) [of "Suc j"] that by (simp only: lock_seen_shift Suc_less_eq)
  ultimately show ?case
    using Suc.IH [of "i + 1" "env i l"] Suc.prems(1,2) by (simp only: lock_seen_shift) simp
qed

lemma lock_spin_never_free:
  assumes "\<And>j. i + j < LOCK_DEADLOCK_THRESHOLD \<Longrightarrow> is_locked (lock_seen env i l j)"
  shows "lock_spin c caller my_cpu env i l =
    Inl (Panic ''Deadlock detected - lock acquisition timeout'')"
  using assms
proof (induction "LOCK_DEADLOCK_THRESHOLD - i" arbitrary: i l)
  case 0
  then show ?case by (simp add: lock_spin_timeout)
next
  case (Suc d)
  then have i: "i < LOCK_DEADLOCK_THRESHOLD" by simp
  have "is_locked (env i l)" using Suc.prems [of 0] i by simp
  moreover have "is_locked (lock_seen env (i + 1) (env i l) j)"
    if "i + 1 + j < LOCK_DEADLOCK_THRESHOLD" for j
    using Suc.prems [of "Suc j"] that by (simp add: lock_seen_shift del: lock_seen.simps)
  ultimately show ?case using Suc.hyps(1) [of "i + 1" "env i l"] Suc.hyps(2) i
    by (simp add: lock_spin_busy)
qed


lemma lock_acquire_idle:
  assumes "lock_idle l"
  shows "\<exists>l'. lock_acquire c caller l = Inr l' \<and> lock_held_on c l'"
proof -
  have "lock_spin c r m (\<lambda>_ l. l) 0 l =
    Inr (lock_record_owner c r m (snd (lock_test_and_acquire c ''lock_acquire'' l)))" for r m
    using assms by (simp add: lock_spin_free lock_idle_def)
  then show ?thesis
    using assms by (auto simp: lock_acquire_def lock_acquire_env_def Let_def lock_idle_def
        lock_held_on_def lock_record_owner_def lock_test_and_acquire_def)
qed

lemma lock_release_held:
  "lock_held_on c l \<Longrightarrow> \<exists>l'. lock_release c l = Inr l' \<and> lock_idle l'"
  by (auto simp: lock_held_on_def lock_release_def Let_def lock_idle_def)

lemma lock_acquire_locked:
  assumes "is_locked l"
  shows "\<exists>msg. lock_acquire c caller l = Inl (Panic msg)"
proof -
  have "lock_seen (\<lambda>_ l. l) 0 l j = l" for j by (induction j) auto
  then show ?thesis
    using assms lock_spin_never_free [of 0 "\<lambda>_ l. l" l]
    by (auto simp: lock_acquire_def lock_acquire_env_def Let_def)
qed

interpretation spinlock: mutex lock_idle "lock_held_on c" "lock_acquire c caller" "lock_release c"
  for c caller
  by unfold_locales (auto intro: lock_acquire_idle lock_release_held)

lemma lock_is_held_by_me_held:
  assumes "lock_held_on c l" and "cottage_debug c" and "get_current_cpu_safe c \<noteq> - 1"
  shows "lock_is_held_by_me c l" and "lock_assert_held c l = Inr ()"
  using assms by (simp_all add: lock_held_on_def lock_is_held_by_me_def lock_assert_held_def)

lemma irq_save_cpu_known:
  assumes "have_smp c"
  shows "get_current_cpu_safe (snd (irq_save_and_disable c)) = gs_cpu_number c"
proof -
  have "(rflags c AND NOT 0x200) AND 0x200 = 0"
    by (simp add: and.assoc)
  then show ?thesis using assms by (simp add: irq_save_and_disable_def get_current_cpu_safe_def)
qed

lemma irqsave_section_runs:
  assumes "lock_idle l"
  shows "\<exists>flags c1 l1 l2. lock_acquire_irqsave caller c l = Inr (flags, c1, l1) \<and>
     \<not> cpu_interrupt_state c1 \<and> lock_held_on c1 l1 \<and>
     lock_release_irqrestore flags c1 l1 = Inr (c, l2) \<and> lock_idle l2"
proof -
  define c1 where "c1 = c\<lparr>rflags := rflags c AND NOT 0x200\<rparr>"
  obtain l1 l2 where "lock_acquire c1 caller l = Inr l1" "lock_release c1 l1 = Inr l2"
    "lock_idle l2" "lock_held_on c1 l1"
    using assms by (rule spinlock.section_runs)
  moreover have "\<not> cpu_interrupt_state c1"
    by (simp add: c1_def cpu_interrupt_state_def and.assoc)
  moreover have "irq_restore (rflags c) c1 = c"
    by (simp add: irq_restore_def c1_def)
  ultimately show ?thesis
    by (auto simp: lock_acquire_irqsave_def lock_release_irqrestore_def irq_save_and_disable_def
        c1_def)
qed

text \<open>
  C40: An interrupt-safe section on an idle lock runs with interrupts off, its lock held by the calling
  processor, and afterwards leaves the lock idle and the processor exactly as it found it.
\<close>

theorem lock_irqsave_section:
  assumes "lock_idle l"
  shows "\<exists>flags c1 l1 l2. lock_acquire_irqsave caller c l = Inr (flags, c1, l1) \<and>
     \<not> cpu_interrupt_state c1 \<and> lock_held_on c1 l1 \<and>
     lock_release_irqrestore flags c1 l1 = Inr (c, l2) \<and> lock_idle l2"
  by (rule irqsave_section_runs [OF assms])

section \<open>Mutual exclusion\<close>

definition lock_exclusive :: "lock_system \<Rightarrow> bool" where
  "lock_exclusive s \<longleftrightarrow>
     (\<forall>p q. owns_lock (snd s p) \<longrightarrow> owns_lock (snd s q) \<longrightarrow> p = q) \<and>
     (\<forall>p. owns_lock (snd s p) \<longrightarrow> is_locked (fst s))"

lemma lock_access_owns:
  assumes "lock_access c pc l = (pc', l')" and "owns_lock pc'"
  shows "(owns_lock pc \<and> is_locked l' = is_locked l) \<or> (\<not> owns_lock pc \<and> \<not> is_locked l \<and> is_locked l')"
  using assms by (cases pc) (auto split: if_splits)

lemma lock_access_busy:
  assumes "lock_access c pc l = (pc', l')" and "\<not> owns_lock pc" and "is_locked l"
  shows "l' = l" and "\<not> owns_lock pc'"
  using assms by (cases pc; force split: if_splits)+

lemma lock_exclusive_step:
  assumes "lock_step n cs s s'" and "lock_exclusive s"
  shows "lock_exclusive s'"
  using assms
proof cases
  case (access p pcs l pc' l')
  note acc = access(4)
  have uniq: "q = r" if "owns_lock (pcs q)" "owns_lock (pcs r)" for q r
    using assms(2) that access(1) by (auto simp: lock_exclusive_def)
  have busy: "is_locked l" if "owns_lock (pcs q)" for q
    using assms(2) that access(1) by (auto simp: lock_exclusive_def)
  have other: "l' = l \<and> \<not> owns_lock pc'" if "owns_lock (pcs q)" "q \<noteq> p" for q
    using uniq [OF that(1), of p] that busy [OF that(1)] lock_access_busy [OF acc] by blast
  have "is_locked l'" if "owns_lock pc'"
    using lock_access_owns [OF acc that] busy by blast
  then show ?thesis using other uniq busy access(2)
    by (auto simp: lock_exclusive_def split: if_splits)
qed

lemma lock_exclusive_reachable: "lock_reachable n cs nm s \<Longrightarrow> lock_exclusive s"
  by (induction rule: lock_reachable.induct) (auto simp: lock_exclusive_def [of "(_, _)"] intro: lock_exclusive_step)

text \<open>
  C15: However the accesses of any number of processors interleave, at most one processor is between
  winning the exchange in \<^verbatim>\<open>lock_acquire\<close> and the store in \<^verbatim>\<open>lock_release\<close> that frees the lock, and the
  lock word is set for as long as one is.
\<close>

theorem lock_mutual_exclusion:
  assumes "lock_reachable n cs nm (l, pcs)" and "owns_lock (pcs p)"
  shows "is_locked l \<and> (\<forall>q. owns_lock (pcs q) \<longrightarrow> q = p)"
  using lock_exclusive_reachable [OF assms(1)] assms(2) by (auto simp: lock_exclusive_def)

section \<open>The debug checks\<close>

text \<open>
  The owner field is read and written without the protection of an atomic access.  It nevertheless
  always tells the truth to the processor that asks: it names the processor that holds the lock once
  that processor has written it, and no processor otherwise.
\<close>

definition owner_truthful :: "nat \<Rightarrow> (nat \<Rightarrow> cpu_ctx) \<Rightarrow> lock_system \<Rightarrow> bool" where
  "owner_truthful n cs s \<longleftrightarrow>
     (\<forall>p<n. owner_recorded (snd s p) \<longrightarrow> owner_cpu (fst s) = gs_cpu_number (cs p)) \<and>
     ((\<forall>p<n. \<not> owner_recorded (snd s p)) \<longrightarrow> owner_cpu (fst s) = - 1)"

definition debug_cpus :: "nat \<Rightarrow> (nat \<Rightarrow> cpu_ctx) \<Rightarrow> bool" where
  "debug_cpus n cs \<longleftrightarrow>
     (\<forall>p<n. cottage_debug (cs p) \<and> get_current_cpu_safe (cs p) = gs_cpu_number (cs p) \<and>
          gs_cpu_number (cs p) \<noteq> - 1) \<and> inj_on (\<lambda>p. gs_cpu_number (cs p)) {..<n}"

definition timeout_only :: "lock_pc \<Rightarrow> bool" where
  "timeout_only pc \<longleftrightarrow>
     (\<forall>msg. pc = Stopped msg \<longrightarrow> msg = ''Deadlock detected - lock acquisition timeout'')"

lemma owner_recorded_owns: "owner_recorded pc \<Longrightarrow> owns_lock pc"
  by (cases pc) auto

lemma lock_access_outsider:
  assumes "lock_access c pc l = (pc', l')" and "\<not> owns_lock pc" and "timeout_only pc"
    and "\<not> (owner_cpu l = get_current_cpu_safe c \<and> get_current_cpu_safe c \<noteq> - 1)"
  shows "owner_cpu l' = owner_cpu l" and "\<not> owner_recorded pc'" and "timeout_only pc'"
  using assms by (cases pc; force simp: timeout_only_def split: if_splits)+

lemma lock_access_owner:
  assumes "lock_access c pc l = (pc', l')" and "owns_lock pc" and "is_locked l"
    and "cottage_debug c" and "owner_cpu l = (if owner_recorded pc then get_current_cpu_safe c else - 1)"
  shows "owner_cpu l' = (if owner_recorded pc' then get_current_cpu_safe c else - 1)"
    and "timeout_only pc'"
  using assms by (cases pc; auto simp: timeout_only_def split: if_splits)+

lemma owner_truthful_step:
  assumes "lock_step n cs s s'" and "lock_exclusive s" and "debug_cpus n cs"
    and "owner_truthful n cs s" and "\<forall>p. timeout_only (snd s p)"
  shows "owner_truthful n cs s' \<and> (\<forall>p. timeout_only (snd s' p))"
  using assms(1)
proof cases
  case (access p pcs l pc' l')
  note acc = access(4) and ctx = assms(3) [unfolded debug_cpus_def]
  note true = assms(4) [unfolded owner_truthful_def access(1) fst_conv snd_conv]
  note excl = assms(2) [unfolded lock_exclusive_def access(1) fst_conv snd_conv]
  have num: "get_current_cpu_safe (cs p) = gs_cpu_number (cs p)" using ctx access(3) by blast
  show ?thesis
  proof (cases "owns_lock (pcs p)")
    case True
    then have alone: "\<not> owner_recorded (pcs q)" if "q \<noteq> p" for q
      using excl that owner_recorded_owns by blast
    then have "owner_cpu l = (if owner_recorded (pcs p) then get_current_cpu_safe (cs p) else - 1)"
      using true num access(3) by (metis (full_types))
    then have "owner_cpu l' = (if owner_recorded pc' then get_current_cpu_safe (cs p) else - 1)"
      "timeout_only pc'"
      using lock_access_owner [OF acc True] excl True ctx access(3) by auto
    then show ?thesis using alone num assms(5) access(1,2,3)
      by (auto simp: owner_truthful_def)
  next
    case False
    then have "\<not> owner_recorded (pcs p)" using owner_recorded_owns by blast
    then have "owner_cpu l \<noteq> gs_cpu_number (cs p)"
      using true ctx access(3) by (metis (no_types, lifting) inj_onD lessThan_iff)
    then have "owner_cpu l' = owner_cpu l" "\<not> owner_recorded pc'" "timeout_only pc'"
      using lock_access_outsider [OF acc False] assms(5) access(1) num by auto
    then show ?thesis using \<open>\<not> owner_recorded (pcs p)\<close> assms(4,5) access(1,2)
      by (auto simp: owner_truthful_def split: if_splits)
  qed
qed

lemma owner_truthful_reachable:
  assumes "lock_reachable n cs nm s" and "debug_cpus n cs"
  shows "owner_truthful n cs s \<and> (\<forall>p. timeout_only (snd s p))"
  using assms(1)
proof induction
  case start
  then show ?case by (auto simp: owner_truthful_def timeout_only_def LOCK_INITIALIZER_def)
next
  case (step s s')
  then show ?case using owner_truthful_step lock_exclusive_reachable assms(2) by blast
qed

text \<open>
  C16: In a debug build, with the processors numbered apart and interrupts off, no interleaving makes
  a client that releases only what it acquired fail a check: the recursion, not-held and
  different-processor panics are unreachable, and the only way to stop is the spin timeout.  While a
  processor is in its critical section the owner field names it.
\<close>

theorem lock_debug_checks_sound:
  assumes "lock_reachable n cs nm (l, pcs)" and "debug_cpus n cs" and "p < n"
  shows "(pcs p = Holding \<longrightarrow> owner_cpu l = gs_cpu_number (cs p)) \<and>
         (\<forall>msg. pcs p = Stopped msg \<longrightarrow> msg = ''Deadlock detected - lock acquisition timeout'')"
proof -
  have "owner_truthful n cs (l, pcs)" and "timeout_only (pcs p)"
    using owner_truthful_reachable [OF assms(1,2)] by auto
  moreover have "owner_recorded Holding" by simp
  ultimately show ?thesis
    using assms(3) unfolding owner_truthful_def timeout_only_def by (metis fst_conv snd_conv)
qed

section \<open>The two granularities agree\<close>

text \<open>One processor's accesses, performed without interruption, are the function of the first half.\<close>

primrec lock_accesses :: "cpu_ctx \<Rightarrow> nat \<Rightarrow> lock_pc \<times> lock_t \<Rightarrow> lock_pc \<times> lock_t" where
  "lock_accesses c 0 s = s"
| "lock_accesses c (Suc n) s = lock_accesses c n (lock_access c (fst s) (snd s))"

lemma lock_accesses_add: "lock_accesses c (m + n) s = lock_accesses c n (lock_accesses c m s)"
  by (induction m arbitrary: s) auto

lemma lock_accesses_numeral [simp]:
  "lock_accesses c (numeral k) s = lock_accesses c (pred_numeral k) (lock_access c (fst s) (snd s))"
  by (simp add: numeral_eq_Suc)

lemma lock_accesses_acquire:
  assumes "lock_acquire c ''client'' l = Inr l'" and "\<not> is_locked l"
  shows "lock_accesses c (if cottage_debug c then 8 else 4) (Outside, l) = (Holding, l')"
proof -
  have "lock_spin c r m (\<lambda>_ l. l) 0 l =
    Inr (lock_record_owner c r m (snd (lock_test_and_acquire c ''lock_acquire'' l)))" for r m
    using assms(2) by (simp add: lock_spin_free)
  then show ?thesis using assms
    by (auto simp: lock_acquire_def lock_acquire_env_def Let_def lock_record_owner_def
        lock_test_and_acquire_def split: if_splits)
qed

lemma lock_accesses_release:
  assumes "lock_release c l = Inr l'"
  shows "lock_accesses c (if cottage_debug c then 5 else 2) (Holding, l) = (Outside, l')"
  using assms by (auto simp: lock_release_def Let_def split: if_splits)

text \<open>
  The access-by-access protocol refines the functions the other components call: run without
  interference from an idle lock, its accesses reach the critical section in the state that
  \<^verbatim>\<open>lock_acquire\<close> returns and leave it in the state that \<^verbatim>\<open>lock_release\<close> returns.
\<close>

theorem lock_accesses_refine:
  assumes "lock_idle l"
  shows "\<exists>m n l1 l2. lock_acquire c ''client'' l = Inr l1 \<and> lock_release c l1 = Inr l2 \<and>
     lock_accesses c m (Outside, l) = (Holding, l1) \<and>
     lock_accesses c n (Holding, l1) = (Outside, l2)"
proof -
  obtain l1 l2 where "lock_acquire c ''client'' l = Inr l1" "lock_release c l1 = Inr l2"
    using assms by (rule spinlock.section_runs)
  moreover have "\<not> is_locked l" using assms by (simp add: lock_idle_def)
  ultimately show ?thesis using lock_accesses_acquire lock_accesses_release by blast
qed

section \<open>Witnesses\<close>

text \<open>Processors of a debug build after start-up, numbered from 0, with interrupts off.\<close>

definition debug_cpu :: "nat \<Rightarrow> cpu_ctx" where
  "debug_cpu p = \<lparr>cottage_debug = True, have_smp = True, rflags = 2, gs_cpu_number = of_nat p,
     return_address = (\<lambda>_. 0xFFFFFFFF80001000)\<rparr>"

lemma debug_cpu_simps [simp]:
  "cottage_debug (debug_cpu p)" "gs_cpu_number (debug_cpu p) = of_nat p"
  "get_current_cpu_safe (debug_cpu p) = of_nat p"
  by (simp_all add: debug_cpu_def get_current_cpu_safe_def)

lemma debug_cpus_two: "debug_cpus 2 debug_cpu"
  by (simp add: debug_cpus_def inj_on_def less_2_cases_iff ball_Un Ball_def)


theorem lock_irqsave_section_witness:
  "\<exists>flags c1 l1 l2.
     lock_acquire_irqsave ''main'' (debug_cpu 0) (LOCK_INITIALIZER None) = Inr (flags, c1, l1) \<and>
     \<not> cpu_interrupt_state c1 \<and> lock_held_on c1 l1 \<and>
     lock_release_irqrestore flags c1 l1 = Inr (debug_cpu 0, l2) \<and> lock_idle l2"
  by (rule lock_irqsave_section) simp

lemma lock_reachable_holding:
  "lock_reachable 2 debug_cpu None
     (\<lparr>is_locked = True, owner_cpu = 0, acquire_caller = 0xFFFFFFFF80001000, acquire_count = 1,
       lock_name = None\<rparr>, (\<lambda>_. Outside)(0 := Holding))"
proof -
  have run: "lock_reachable 2 debug_cpu None (l', pcs(0 := pc'))"
    if "lock_reachable 2 debug_cpu None (l, pcs)" "lock_access (debug_cpu 0) (pcs 0) l = (pc', l')"
    for l pcs pc' l'
    using that lock_reachable.step lock_step.access [of 0 2 debug_cpu pcs l pc' l'] by fastforce
  have "lock_reachable 2 debug_cpu None (snd (lock_accesses (debug_cpu 0) k (Outside, LOCK_INITIALIZER None)),
      (\<lambda>_. Outside)(0 := fst (lock_accesses (debug_cpu 0) k (Outside, LOCK_INITIALIZER None))))" for k
  proof (induction k)
    case 0
    then show ?case using lock_reachable.start [of 2 debug_cpu None] by (simp add: fun_upd_idem)
  next
    case (Suc k)
    then show ?case
      using run [OF Suc, of _ _] lock_accesses_add [of "debug_cpu 0" k 1]
      by (metis (no_types, lifting) One_nat_def Suc_eq_plus1 fun_upd_same fun_upd_upd lock_accesses.simps
          prod.collapse)
  qed
  from this [of 8] show ?thesis by (simp add: LOCK_INITIALIZER_def debug_cpu_def get_current_cpu_safe_def)
qed

theorem lock_mutual_exclusion_witness:
  "lock_reachable 2 debug_cpu None
     (\<lparr>is_locked = True, owner_cpu = 0, acquire_caller = 0xFFFFFFFF80001000, acquire_count = 1,
       lock_name = None\<rparr>, (\<lambda>_. Outside)(0 := Holding)) \<and>
   \<not> owns_lock (((\<lambda>_. Outside)(0 := Holding)) (1 :: nat))"
proof (rule conjI [OF lock_reachable_holding])
  have "owns_lock (((\<lambda>_. Outside)(0 := Holding)) (0 :: nat))" by simp
  from lock_mutual_exclusion [OF lock_reachable_holding this]
  show "\<not> owns_lock (((\<lambda>_. Outside)(0 := Holding)) (1 :: nat))" by (metis zero_neq_one)
qed

theorem lock_debug_checks_sound_witness:
  "lock_reachable 2 debug_cpu None
     (\<lparr>is_locked = True, owner_cpu = 0, acquire_caller = 0xFFFFFFFF80001000, acquire_count = 1,
       lock_name = None\<rparr>, (\<lambda>_. Outside)(0 := Holding)) \<and> gs_cpu_number (debug_cpu 0) = 0"
proof (rule conjI [OF lock_reachable_holding])
  have "(0 :: nat) < 2" by simp
  from lock_debug_checks_sound [OF lock_reachable_holding debug_cpus_two this]
  show "gs_cpu_number (debug_cpu 0) = 0" by simp
qed

theorem lock_accesses_refine_witness:
  "\<exists>m n l1 l2. lock_acquire (debug_cpu 0) ''client'' (LOCK_INITIALIZER None) = Inr l1 \<and>
     lock_release (debug_cpu 0) l1 = Inr l2 \<and>
     lock_accesses (debug_cpu 0) m (Outside, LOCK_INITIALIZER None) = (Holding, l1) \<and>
     lock_accesses (debug_cpu 0) n (Holding, l1) = (Outside, l2)"
  by (rule lock_accesses_refine) simp

end
