(* ===== verification/CString.thy ===== *)
theory CString
  imports Prelude
begin

text \<open>
  The memory and string routines of \<^verbatim>\<open>kernel/src/stdlib/string.c\<close>, as loops over byte memory, with
  their closed forms: which bytes a routine writes and with what, the order a comparison decides,
  the terminator a scan finds.  Returned pointers are part of the results.  A scan for a terminator
  need not end, so \<open>strlen\<close> and what is built on it return an option.
\<close>

section \<open>Definitions\<close>

primrec memset_loop :: "memory \<Rightarrow> addr \<Rightarrow> u8 \<Rightarrow> nat \<Rightarrow> nat \<Rightarrow> memory" where
  "memset_loop m p c i 0 = m"
| "memset_loop m p c i (Suc k) = memset_loop (m(p + of_nat i := c)) p c (i + 1) k"

definition memset :: "memory \<Rightarrow> addr \<Rightarrow> u32 \<Rightarrow> u64 \<Rightarrow> addr \<times> memory" where
  "memset m s c n = (s, memset_loop m s (ucast c) 0 (unat n))"

primrec mempcpy_loop :: "memory \<Rightarrow> addr \<Rightarrow> addr \<Rightarrow> nat \<Rightarrow> addr \<times> memory" where
  "mempcpy_loop m pdest psrc 0 = (pdest, m)"
| "mempcpy_loop m pdest psrc (Suc k) = mempcpy_loop (m(pdest := m psrc)) (pdest + 1) (psrc + 1) k"

definition mempcpy :: "memory \<Rightarrow> addr \<Rightarrow> addr \<Rightarrow> u64 \<Rightarrow> addr \<times> memory" where
  "mempcpy m dest src n = mempcpy_loop m dest src (unat n)"

definition memcpy :: "memory \<Rightarrow> addr \<Rightarrow> addr \<Rightarrow> u64 \<Rightarrow> addr \<times> memory" where
  "memcpy m dest src n = (dest, snd (mempcpy m dest src n))"

primrec memmove_up :: "memory \<Rightarrow> addr \<Rightarrow> addr \<Rightarrow> nat \<Rightarrow> nat \<Rightarrow> memory" where
  "memmove_up m pdest psrc i 0 = m"
| "memmove_up m pdest psrc i (Suc k) =
     memmove_up (m(pdest + of_nat i := m (psrc + of_nat i))) pdest psrc (i + 1) k"

primrec memmove_down :: "memory \<Rightarrow> addr \<Rightarrow> addr \<Rightarrow> nat \<Rightarrow> memory" where
  "memmove_down m pdest psrc 0 = m"
| "memmove_down m pdest psrc (Suc i) =
     memmove_down (m(pdest + of_nat i := m (psrc + of_nat i))) pdest psrc i"

definition memmove :: "memory \<Rightarrow> addr \<Rightarrow> addr \<Rightarrow> u64 \<Rightarrow> addr \<times> memory" where
  "memmove m dest src n =
     (dest,
      if src > dest then memmove_up m dest src 0 (unat n)
      else if src < dest then memmove_down m dest src (unat n)
      else m)"

primrec memcmp_loop :: "memory \<Rightarrow> addr \<Rightarrow> addr \<Rightarrow> nat \<Rightarrow> nat \<Rightarrow> int" where
  "memcmp_loop m p1 p2 i 0 = 0"
| "memcmp_loop m p1 p2 i (Suc k) =
     (if m (p1 + of_nat i) \<noteq> m (p2 + of_nat i)
      then if m (p1 + of_nat i) < m (p2 + of_nat i) then - 1 else 1
      else memcmp_loop m p1 p2 (i + 1) k)"

definition memcmp :: "memory \<Rightarrow> addr \<Rightarrow> addr \<Rightarrow> u64 \<Rightarrow> int" where
  "memcmp m s1 s2 n = memcmp_loop m s1 s2 0 (unat n)"

definition strncmp :: "memory \<Rightarrow> addr \<Rightarrow> addr \<Rightarrow> u64 \<Rightarrow> int" where
  "strncmp m s1 s2 n = memcmp m s1 s2 n"

partial_function (option) strlen_scan :: "memory \<Rightarrow> addr \<Rightarrow> addr option" where
  "strlen_scan m s = (if m s \<noteq> 0 then strlen_scan m (s + 1) else Some s)"

definition strlen :: "memory \<Rightarrow> addr \<Rightarrow> u64 option" where
  "strlen m str = map_option (\<lambda>s. s - str) (strlen_scan m str)"

definition strcmp :: "memory \<Rightarrow> addr \<Rightarrow> addr \<Rightarrow> int option" where
  "strcmp m s1 s2 =
     Option.bind (strlen m s1) (\<lambda>s1_len. Option.bind (strlen m s2) (\<lambda>s2_len.
       let min_len = (if s1_len < s2_len then s1_len else s2_len);
           cmp_result = memcmp m s1 s2 min_len
       in if cmp_result = 0
          then if s1_len < s2_len then Some (- 1) else if s1_len > s2_len then Some 1 else Some 0
          else Some cmp_result))"

definition stpcpy :: "memory \<Rightarrow> addr \<Rightarrow> addr \<Rightarrow> (addr \<times> memory) option" where
  "stpcpy m dest src =
     map_option (\<lambda>len. let (p, m1) = mempcpy m dest src len in (p, m1(p := 0))) (strlen m src)"

definition strcpy :: "memory \<Rightarrow> addr \<Rightarrow> addr \<Rightarrow> (addr \<times> memory) option" where
  "strcpy m dest src = map_option (\<lambda>(_, m1). (dest, m1)) (stpcpy m dest src)"

text \<open>The bytes \<open>bs\<close> followed by a terminator at address \<open>a\<close>.\<close>

definition c_string :: "memory \<Rightarrow> addr \<Rightarrow> u8 list \<Rightarrow> bool" where
  "c_string m a bs \<longleftrightarrow> length bs < 2 ^ 64 \<and> 0 \<notin> set bs \<and>
     load_bytes m a (length bs) = bs \<and> m (a + of_nat (length bs)) = 0"

section \<open>Filling and copying\<close>

lemma memset_loop_store: "memset_loop m p c i k = store_bytes m (p + of_nat i) (replicate k c)"
  by (induction k arbitrary: m i) (auto simp: ac_simps)

lemma memset_apply:
  "snd (memset m s c n) x = (if in_range s (unat n) x then ucast c else m x)"
  using unat_u64_bound [of n]
  by (auto simp: memset_def memset_loop_store store_bytes_apply in_range_def)

lemma mempcpy_loop_store:
  assumes "disjoint_regions d n s n" and "n \<le> 2 ^ 64"
  shows "mempcpy_loop m d s n = (d + of_nat n, store_bytes m d (load_bytes m s n))"
  using assms
proof (induction n arbitrary: m d s)
  case 0
  then show ?case by (simp add: load_bytes_def)
next
  case (Suc n)
  have grow: "in_range a (Suc n) x" if "in_range (a + 1) n x" for a x
  proof -
    have "unat (x - a) \<le> Suc (unat (x - (a + 1)))"
      using unat_minus_Suc [of x a] by (cases "x = a") auto
    then show ?thesis using that by (simp add: in_range_def)
  qed
  have "disjoint_regions (d + 1) n (s + 1) n"
    using Suc.prems(1) grow by (auto simp: disjoint_regions_def)
  moreover have "load_bytes (m(d := m s)) (s + 1) n = load_bytes m (s + 1) n"
  proof (rule load_bytes_cong)
    fix i assume i: "i < n"
    have "in_range s (Suc n) (s + of_nat (Suc i))"
      using i Suc.prems(2) by (intro in_range_offset) auto
    moreover have "in_range d (Suc n) d" by (simp add: in_range_def)
    ultimately have "s + of_nat (Suc i) \<noteq> d"
      using Suc.prems(1) by (metis disjoint_regions_def)
    then show "(m(d := m s)) (s + 1 + of_nat i) = m (s + 1 + of_nat i)"
      by (simp add: ac_simps)
  qed
  ultimately show ?case using Suc.IH Suc.prems(2) by (simp add: load_bytes_Suc ac_simps)
qed

lemma memcpy_store:
  assumes "disjoint_regions d (unat n) s (unat n)"
  shows "memcpy m d s n = (d, store_bytes m d (load_bytes m s (unat n)))"
  using assms unat_u64_bound [of n]
  by (simp add: memcpy_def mempcpy_def mempcpy_loop_store)

lemma memmove_up_apply:
  assumes "unat d < unat s" and "unat s + i + k \<le> 2 ^ 64"
  shows "memmove_up m d s i k x =
    (if unat d + i \<le> unat x \<and> unat x < unat d + i + k then m (s + (x - d)) else m x)"
  using assms
proof (induction k arbitrary: m i)
  case 0
  then show ?case by auto
next
  case (Suc k)
  let ?m = "m(d + of_nat i := m (s + of_nat i))"
  have d: "unat (d + of_nat i) = unat d + i" using Suc.prems by (intro unat_add_of_nat) auto
  have IH: "memmove_up ?m d s (i + 1) k x =
    (if unat d + (i + 1) \<le> unat x \<and> unat x < unat d + (i + 1) + k then ?m (s + (x - d)) else ?m x)"
    using Suc.prems by (intro Suc.IH) auto
  consider (here) "x = d + of_nat i" | (later) "unat d + i < unat x" | (before) "unat x < unat d + i"
    using d by (metis linorder_neqE_nat unat_inject)
  then show ?case
  proof cases
    case here
    then show ?thesis using IH d by simp
  next
    case later
    then have xd: "unat (x - d) = unat x - unat d" by (intro unat_sub_small) simp
    have "?m (s + (x - d)) = m (s + (x - d))" if "unat x < unat d + i + Suc k"
    proof -
      have "unat (s + (x - d)) \<noteq> unat (d + of_nat i)"
        using later that Suc.prems d xd unat_add_small [of s "x - d"] by linarith
      then show ?thesis by (metis fun_upd_other)
    qed
    moreover have "x \<noteq> d + of_nat i" using later d by auto
    ultimately show ?thesis using IH later by auto
  next
    case before
    then show ?thesis using IH d by auto
  qed
qed

lemma memmove_down_apply:
  assumes "unat s < unat d" and "unat d + n \<le> 2 ^ 64"
  shows "memmove_down m d s n x =
    (if unat d \<le> unat x \<and> unat x < unat d + n then m (s + (x - d)) else m x)"
  using assms
proof (induction n arbitrary: m)
  case 0
  then show ?case by auto
next
  case (Suc n)
  let ?m = "m(d + of_nat n := m (s + of_nat n))"
  have d: "unat (d + of_nat n) = unat d + n" using Suc.prems by (intro unat_add_of_nat) auto
  have IH: "memmove_down ?m d s n x =
    (if unat d \<le> unat x \<and> unat x < unat d + n then ?m (s + (x - d)) else ?m x)"
    using Suc.prems by (intro Suc.IH) auto
  consider (here) "x = d + of_nat n" | (later) "unat d + n < unat x" | (before) "unat x < unat d + n"
    using d by (metis linorder_neqE_nat unat_inject)
  then show ?case
  proof cases
    case here
    then show ?thesis using IH d by simp
  next
    case later
    then show ?thesis using IH d by auto
  next
    case before
    have "?m (s + (x - d)) = m (s + (x - d))" if "unat d \<le> unat x"
    proof -
      have "unat (x - d) = unat x - unat d" using that by (rule unat_sub_small)
      then have "unat (s + (x - d)) \<noteq> unat (d + of_nat n)"
        using before that Suc.prems d unat_add_small [of s "x - d"] by linarith
      then show ?thesis by (metis fun_upd_other)
    qed
    then show ?thesis using IH before d by auto
  qed
qed

text \<open>
  \<^verbatim>\<open>memmove\<close> copies \<^verbatim>\<open>n\<close> bytes exactly, whether or not the two regions overlap, changes no
  other byte and returns the destination, for regions that do not wrap the address space.
\<close>

theorem memmove_correct:
  assumes "unat dest + unat n \<le> 2 ^ 64" and "unat src + unat n \<le> 2 ^ 64"
  shows "memmove m dest src n =
    (dest, \<lambda>x. if in_range dest (unat n) x then m (src + (x - dest)) else m x)"
proof -
  consider "unat dest < unat src" | "unat src < unat dest" | "src = dest"
    by (metis linorder_neqE_nat unat_inject)
  then show ?thesis using assms
    by cases (auto simp: memmove_def fun_eq_iff in_range_unat word_less_nat_alt
        memmove_up_apply memmove_down_apply)
qed

section \<open>Comparing\<close>

text \<open>The three-way comparison of byte strings, by the order of the unsigned bytes.\<close>

definition cmp3 :: "u8 list \<Rightarrow> u8 list \<Rightarrow> int" where
  "cmp3 xs ys = (if xs = ys then 0 else if ord_class.lexordp xs ys then - 1 else 1)"

lemma cmp3_simps [simp]:
  "cmp3 [] [] = 0" "cmp3 [] (y # ys) = - 1" "cmp3 (x # xs) [] = 1"
  "cmp3 (x # xs) (y # ys) = (if x < y then - 1 else if y < x then 1 else cmp3 xs ys)"
  by (auto simp: cmp3_def)

lemma memcmp_loop_cmp3:
  "memcmp_loop m p1 p2 i k =
     cmp3 (load_bytes m (p1 + of_nat i) k) (load_bytes m (p2 + of_nat i) k)"
proof (induction k arbitrary: i)
  case 0
  then show ?case by (simp add: load_bytes_def)
next
  case (Suc k)
  then show ?case by (simp add: load_bytes_Suc ac_simps)
qed

lemma memcmp_cmp3: "memcmp m s1 s2 n = cmp3 (load_bytes m s1 (unat n)) (load_bytes m s2 (unat n))"
  by (simp add: memcmp_def memcmp_loop_cmp3)

lemma cmp3_prefix:
  "cmp3 xs ys =
     (let k = min (length xs) (length ys); r = cmp3 (take k xs) (take k ys)
      in if r = 0
         then if length xs < length ys then - 1 else if length ys < length xs then 1 else 0 else r)"
  by (induction xs ys rule: list_induct2') (auto simp: Let_def)

lemma c_string_Cons:
  "c_string m a (b # bs) \<Longrightarrow> m a = b \<and> b \<noteq> 0 \<and> c_string m (a + 1) bs"
  by (auto simp: c_string_def load_bytes_Suc ac_simps)

lemma strlen_scan_c_string: "c_string m a bs \<Longrightarrow> strlen_scan m a = Some (a + of_nat (length bs))"
proof (induction bs arbitrary: a)
  case Nil
  then show ?case by (subst strlen_scan.simps) (simp add: c_string_def)
next
  case (Cons b bs)
  then show ?case
    using c_string_Cons [OF Cons.prems] by (subst strlen_scan.simps) (simp add: ac_simps)
qed

lemma strlen_c_string: "c_string m a bs \<Longrightarrow> strlen m a = Some (of_nat (length bs))"
  by (simp add: strlen_def strlen_scan_c_string)

lemma load_bytes_take: "k \<le> n \<Longrightarrow> load_bytes m a k = take k (load_bytes m a n)"
  by (simp add: load_bytes_def take_map)

text \<open>
  \<^verbatim>\<open>strcmp\<close> on two terminated strings returns, and decides the lexicographic order of their
  unsigned bytes: 0 exactly on equal strings, -1 when the first is smaller (a proper prefix
  included), 1 otherwise.
\<close>

theorem strcmp_order:
  assumes "c_string m a xs" and "c_string m b ys"
  shows "strcmp m a b = Some (if xs = ys then 0 else if ord_class.lexordp xs ys then - 1 else 1)"
proof -
  let ?k = "min (length xs) (length ys)"
  have len: "length xs < 2 ^ 64" "length ys < 2 ^ 64"
    "load_bytes m a (length xs) = xs" "load_bytes m b (length ys) = ys"
    using assms by (auto simp: c_string_def)
  have less: "(of_nat (length xs) :: u64) < of_nat (length ys) \<longleftrightarrow> length xs < length ys"
    "(of_nat (length ys) :: u64) < of_nat (length xs) \<longleftrightarrow> length ys < length xs"
    using len(1,2) by (simp_all add: word_less_nat_alt unat_of_nat_u64)
  have "(if length xs < length ys then of_nat (length xs) else of_nat (length ys)) = (of_nat ?k :: u64)"
    by (auto simp: min_def)
  moreover have "memcmp m a b (of_nat ?k) = cmp3 (take ?k xs) (take ?k ys)"
    using len load_bytes_take [of ?k "length xs" m a] load_bytes_take [of ?k "length ys" m b]
    by (simp add: memcmp_cmp3 unat_of_nat_u64)
  ultimately have "strcmp m a b = Some (cmp3 xs ys)"
    using strlen_c_string [OF assms(1)] strlen_c_string [OF assms(2)] cmp3_prefix [of xs ys]
    by (simp add: strcmp_def less Let_def)
  then show ?thesis by (simp add: cmp3_def)
qed

text \<open>
  \<^verbatim>\<open>strncmp\<close> is \<^verbatim>\<open>memcmp\<close>: it does not stop at a terminator, so strings that are equal up to and
  including their terminators can still compare as different.
\<close>

theorem strncmp_ignores_terminator:
  "\<exists>m a b. c_string m a [97] \<and> c_string m b [97] \<and> strcmp m a b = Some 0 \<and> strncmp m a b 3 = - 1"
proof -
  define m :: memory where "m = (\<lambda>_. 0)(0 := 97, 2 := 1, 8 := 97, 10 := 2)"
  have "c_string m 0 [97]" "c_string m 8 [97]"
    by (simp_all add: c_string_def load_bytes_def m_def)
  moreover from this have "strcmp m 0 8 = Some 0"
    by (simp add: strcmp_def strlen_c_string memcmp_def m_def)
  moreover have "strncmp m 0 8 3 = - 1"
    by (simp add: strncmp_def memcmp_cmp3 m_def load_bytes_def upt_rec)
  ultimately show ?thesis by blast
qed

section \<open>Copying strings\<close>

lemma stpcpy_store:
  assumes "c_string m src xs" and "disjoint_regions dest (length xs + 1) src (length xs + 1)"
    and "length xs + 1 < 2 ^ 64"
  shows "stpcpy m dest src = Some (dest + of_nat (length xs), store_bytes m dest (xs @ [0]))"
proof -
  have "store_bytes m a (bs @ [b]) = (store_bytes m a bs)(a + of_nat (length bs) := b)" for m a bs b
    by (induction bs arbitrary: m a) (auto simp: ac_simps)
  moreover have "disjoint_regions dest (length xs) src (length xs)"
    using assms(2) by (meson disjoint_regions_def in_range_def trans_less_add1)
  moreover have "load_bytes m src (length xs) = xs" using assms(1) by (simp add: c_string_def)
  ultimately show ?thesis
    using assms(1,3) by (simp add: stpcpy_def strlen_c_string mempcpy_def mempcpy_loop_store
        unat_of_nat_u64)
qed

text \<open>
  \<^verbatim>\<open>strcpy\<close> of a terminated string to a region that does not overlap it returns the destination,
  leaves the same string there, terminator included, and changes no other byte.
\<close>

theorem strcpy_correct:
  assumes "c_string m src xs" and "disjoint_regions dest (length xs + 1) src (length xs + 1)"
    and "length xs + 1 < 2 ^ 64"
  shows "\<exists>m'. strcpy m dest src = Some (dest, m') \<and> c_string m' dest xs \<and>
    (\<forall>x. \<not> in_range dest (length xs + 1) x \<longrightarrow> m' x = m x)"
proof -
  let ?m = "store_bytes m dest (xs @ [0])"
  have "load_bytes ?m dest (length xs + 1) = xs @ [0]"
    using load_store_bytes_same [of "xs @ [0]"] assms(3) by simp
  then have "load_bytes ?m dest (length xs) = xs" "?m (dest + of_nat (length xs)) = 0"
    using assms(3) by (simp_all add: load_bytes_def map_eq_append_conv)
  moreover have "0 \<notin> set xs" using assms(1) by (simp add: c_string_def)
  ultimately show ?thesis
    using assms(3) stpcpy_store [OF assms]
    by (auto simp: strcpy_def c_string_def store_bytes_outside)
qed

section \<open>Witnesses\<close>

theorem memmove_correct_witness:
  "snd (memmove (\<lambda>x. ucast x) 1 0 4) 3 = 2 \<and> snd (memmove (\<lambda>x. ucast x) 1 0 4) 5 = 5"
  using memmove_correct [of 1 4 0 "\<lambda>x. ucast x"] by (simp add: in_range_def)

theorem strcmp_order_witness:
  "strcmp ((\<lambda>_. 0)(0 := 97, 1 := 98, 8 := 97, 9 := 99)) 0 8 = Some (- 1)"
proof -
  let ?m = "((\<lambda>_. 0)(0 := 97, 1 := 98, 8 := 97, 9 := 99)) :: memory"
  have "c_string ?m 0 [97, 98]" "c_string ?m 8 [97, 99]"
    by (simp_all add: c_string_def load_bytes_def)
  from strcmp_order [OF this] show ?thesis by simp
qed

end
