(* ===== verification/Pmm.thy ===== *)
theory Pmm
  imports Lock CString
begin

text \<open>
  The physical page allocator: \<^verbatim>\<open>kernel/src/mem/align.c\<close> and \<^verbatim>\<open>kernel/src/mem/pmm.c\<close>.

  The bitmap lives in byte memory, behind the higher-half window that maps all physical memory, and
  is read and written as 64-bit words like in the code.  \<open>page_used\<close> is the abstraction of it: one
  truth value per page frame.  The allocator is shown to be a next-fit search over that abstraction,
  to hand out only free frames, to zero them, and to leave every other byte of memory alone.
\<close>

section \<open>Alignment\<close>

definition align_up :: "u64 \<Rightarrow> u64 \<Rightarrow> u64" where
  "align_up count alignment = ((count + (alignment - 1)) div alignment) * alignment"

definition align_down :: "u64 \<Rightarrow> u64 \<Rightarrow> u64" where
  "align_down count alignment = (count div alignment) * alignment"

definition div_roundup :: "u64 \<Rightarrow> u64 \<Rightarrow> u64" where
  "div_roundup a b = (a + (b - 1)) div b"

section \<open>State\<close>

abbreviation PAGE_SIZE :: u64 where "PAGE_SIZE \<equiv> 0x1000"
abbreviation HIGHER_HALF :: u64 where "HIGHER_HALF \<equiv> 0xFFFF800000000000"

record pmm_state =
  mem :: memory
  pmm_page_count :: u64
  pmm_bitmap :: addr
  free_pages :: u64
  last_used_index :: u64
  pmm_lock :: lock_t

section \<open>The bitmap\<close>

definition bitmap_word :: "('z) pmm_state_scheme \<Rightarrow> u64 \<Rightarrow> addr" where
  "bitmap_word s index = pmm_bitmap s + (index div 64) * 8"

definition bitmap_testbit :: "('z) pmm_state_scheme \<Rightarrow> u64 \<Rightarrow> bool" where
  "bitmap_testbit s index =
     (let test_index = index mod 64; test_sample = load64 (mem s) (bitmap_word s index)
      in drop_bit (unat test_index) test_sample AND 1 \<noteq> 0)"

definition bitmap_setbit :: "u64 \<Rightarrow> ('z) pmm_state_scheme \<Rightarrow> ('z) pmm_state_scheme" where
  "bitmap_setbit index s =
     (let test_index = index mod 64; a = bitmap_word s index
      in s\<lparr>mem := store64 (mem s) a (load64 (mem s) a OR push_bit (unat test_index) 1)\<rparr>)"

definition bitmap_resetbit :: "u64 \<Rightarrow> ('z) pmm_state_scheme \<Rightarrow> ('z) pmm_state_scheme" where
  "bitmap_resetbit index s =
     (let test_index = index mod 64; a = bitmap_word s index
      in s\<lparr>mem := store64 (mem s) a (load64 (mem s) a AND NOT (push_bit (unat test_index) 1))\<rparr>)"

text \<open>The loops \<^verbatim>\<open>for (i = page; i < page + count; i++)\<close> over the two updates.\<close>

function bitmap_set_range :: "u64 \<Rightarrow> u64 \<Rightarrow> ('z) pmm_state_scheme \<Rightarrow> ('z) pmm_state_scheme" where
  "bitmap_set_range i stop s =
     (if i < stop then bitmap_set_range (i + 1) stop (bitmap_setbit i s) else s)"
  by pat_completeness auto
termination
  by (relation "measure (\<lambda>(i, stop, s). unat stop - unat i)")
    (auto simp: unat_Suc_less word_less_nat_alt)

function bitmap_reset_range :: "u64 \<Rightarrow> u64 \<Rightarrow> ('z) pmm_state_scheme \<Rightarrow> ('z) pmm_state_scheme" where
  "bitmap_reset_range i stop s =
     (if i < stop then bitmap_reset_range (i + 1) stop (bitmap_resetbit i s) else s)"
  by pat_completeness auto
termination
  by (relation "measure (\<lambda>(i, stop, s). unat stop - unat i)")
    (auto simp: unat_Suc_less word_less_nat_alt)

section \<open>Allocation\<close>

function inner_alloc_loop ::
  "u64 \<Rightarrow> u64 \<Rightarrow> u64 \<Rightarrow> ('z) pmm_state_scheme \<Rightarrow> addr \<times> ('z) pmm_state_scheme" where
  "inner_alloc_loop count limit p s =
     (if last_used_index s < limit
      then
        if \<not> bitmap_testbit s (last_used_index s)
        then
          (let s1 = s\<lparr>last_used_index := last_used_index s + 1\<rparr>; p1 = p + 1
           in if p1 = count
              then (let page = last_used_index s1 - count
                    in (page * PAGE_SIZE, bitmap_set_range page (page + count) s1))
              else inner_alloc_loop count limit p1 s1)
        else inner_alloc_loop count limit 0 (s\<lparr>last_used_index := last_used_index s + 1\<rparr>)
      else (0, s))"
  by pat_completeness auto
termination
  by (relation "measure (\<lambda>(count, limit, p, s). unat limit - unat (last_used_index s))")
    (auto simp: unat_Suc_less word_less_nat_alt)

declare bitmap_set_range.simps [simp del] bitmap_reset_range.simps [simp del]
  inner_alloc_loop.simps [simp del]

definition inner_alloc ::
  "u64 \<Rightarrow> u64 \<Rightarrow> ('z) pmm_state_scheme \<Rightarrow> addr \<times> ('z) pmm_state_scheme" where
  "inner_alloc count limit s = inner_alloc_loop count limit 0 s"

definition pmm_search ::
  "u64 \<Rightarrow> ('z) pmm_state_scheme \<Rightarrow> kstop + (addr \<times> ('z) pmm_state_scheme)" where
  "pmm_search count s =
     (let last = last_used_index s; (ret, s1) = inner_alloc count (pmm_page_count s) s
      in if ret = 0
         then
           (let (ret2, s2) = inner_alloc count last (s1\<lparr>last_used_index := 0\<rparr>)
            in if ret2 = 0 then Inl (Panic ''Kernel OOM'') else Inr (ret2, s2))
         else Inr (ret, s1))"

definition pmm_alloc ::
  "cpu_ctx \<Rightarrow> u64 \<Rightarrow> ('z) pmm_state_scheme \<Rightarrow> kstop + (addr \<times> ('z) pmm_state_scheme)" where
  "pmm_alloc c count s =
     bindR (lock_acquire c ''pmm_alloc'' (pmm_lock s)) (\<lambda>l.
     bindR (pmm_search count (s\<lparr>pmm_lock := l\<rparr>)) (\<lambda>(ret, s1).
       let s2 = s1\<lparr>free_pages := free_pages s1 - count\<rparr>;
           ptr = ret + HIGHER_HALF;
           s3 = s2\<lparr>mem := snd (memset (mem s2) ptr 0 (count * PAGE_SIZE))\<rparr>
       in bindR (lock_release c (pmm_lock s3)) (\<lambda>l2. Inr (ret, s3\<lparr>pmm_lock := l2\<rparr>))))"

definition pmm_free ::
  "cpu_ctx \<Rightarrow> addr \<Rightarrow> u64 \<Rightarrow> ('z) pmm_state_scheme \<Rightarrow> kstop + ('z) pmm_state_scheme" where
  "pmm_free c ptr count s =
     bindR (lock_acquire c ''pmm_free'' (pmm_lock s)) (\<lambda>l.
       let s1 = s\<lparr>pmm_lock := l\<rparr>;
           page = ptr div PAGE_SIZE;
           s2 = bitmap_reset_range page (page + count) s1;
           s3 = s2\<lparr>free_pages := free_pages s2 + count\<rparr>
       in bindR (lock_release c (pmm_lock s3)) (\<lambda>l2. Inr (s3\<lparr>pmm_lock := l2\<rparr>)))"

section \<open>Boot\<close>

text \<open>The memory map that the boot loader hands over; \<^verbatim>\<open>pmm_init\<close> shrinks one entry.\<close>

record memmap_entry =
  mm_base :: u64
  mm_length :: u64
  mm_type :: u64

abbreviation (input) LIMINE_MEMMAP_USABLE :: u64 where "LIMINE_MEMMAP_USABLE \<equiv> 0"
abbreviation (input) LIMINE_MEMMAP_BOOTLOADER_RECLAIMABLE :: u64 where
  "LIMINE_MEMMAP_BOOTLOADER_RECLAIMABLE \<equiv> 5"

primrec highest_address :: "memmap_entry list \<Rightarrow> u64 \<Rightarrow> u64" where
  "highest_address [] hi = hi"
| "highest_address (e # es) hi =
     (if mm_type e \<noteq> LIMINE_MEMMAP_USABLE \<and> mm_type e \<noteq> LIMINE_MEMMAP_BOOTLOADER_RECLAIMABLE
      then highest_address es hi
      else (let top = mm_base e + mm_length e
            in highest_address es (if top > hi then top else hi)))"

primrec place_bitmap ::
  "u64 \<Rightarrow> memmap_entry list \<Rightarrow> ('z) pmm_state_scheme \<Rightarrow> memmap_entry list \<times> ('z) pmm_state_scheme" where
  "place_bitmap bitmap_size [] s = ([], s)"
| "place_bitmap bitmap_size (e # es) s =
     (if mm_type e \<noteq> LIMINE_MEMMAP_USABLE \<or> \<not> mm_length e \<ge> bitmap_size
      then (let (es1, s1) = place_bitmap bitmap_size es s in (e # es1, s1))
      else
        (let b = mm_base e + HIGHER_HALF
         in (e\<lparr>mm_length := mm_length e - bitmap_size, mm_base := mm_base e + bitmap_size\<rparr> # es,
             s\<lparr>pmm_bitmap := b, mem := snd (memset (mem s) b 0xFF bitmap_size)\<rparr>)))"

function free_region :: "memmap_entry \<Rightarrow> nat \<Rightarrow> ('z) pmm_state_scheme \<Rightarrow> ('z) pmm_state_scheme" where
  "free_region e j s =
     (if j < unat (mm_length e)
      then free_region e (j + 0x1000)
        (bitmap_resetbit ((mm_base e + of_nat j) div PAGE_SIZE) (s\<lparr>free_pages := free_pages s + 1\<rparr>))
      else s)"
  by pat_completeness auto
termination
  by (relation "measure (\<lambda>(e, j, s). unat (mm_length e) - j)") auto

declare free_region.simps [simp del]

primrec free_regions :: "memmap_entry list \<Rightarrow> ('z) pmm_state_scheme \<Rightarrow> ('z) pmm_state_scheme" where
  "free_regions [] s = s"
| "free_regions (e # es) s =
     free_regions es (if mm_type e \<noteq> LIMINE_MEMMAP_USABLE then s else free_region e 0 s)"

text \<open>\<^verbatim>\<open>pmm_init\<close> up to its last call, \<^verbatim>\<open>slaballoc_init\<close>, which the slab theory adds.\<close>

definition pmm_init_bitmap ::
  "memmap_entry list \<Rightarrow> ('z) pmm_state_scheme \<Rightarrow> memmap_entry list \<times> ('z) pmm_state_scheme" where
  "pmm_init_bitmap entries s =
     (let s1 = s\<lparr>pmm_lock := LOCK_INITIALIZER (Some ''pmm_lock'')\<rparr>;
          s2 = s1\<lparr>pmm_page_count := highest_address entries 0 div PAGE_SIZE\<rparr>;
          bitmap_size = align_up (pmm_page_count s2 div 8) PAGE_SIZE;
          (entries1, s3) = place_bitmap bitmap_size entries s2
      in (entries1, free_regions entries1 s3))"

section \<open>Alignment is exact\<close>

lemma unat_align_down: "unat (align_down n a) = unat n div unat a * unat a"
proof -
  have "unat (n div a) * unat a \<le> unat n" by (simp add: unat_div div_times_less_eq_dividend)
  then have "unat (n div a) * unat a < 2 ^ 64" using unat_u64_bound [of n] by linarith
  then show ?thesis by (simp add: align_down_def unat_mult_small unat_div)
qed

lemma unat_div_roundup:
  assumes "0 < a" and "unat n + unat a \<le> 2 ^ 64"
  shows "unat (div_roundup n a) = (unat n + unat a - 1) div unat a"
proof -
  have a: "0 < unat a" using assms(1) by (simp add: unat_gt_0)
  then have "unat (a - 1) = unat a - 1" by (simp add: unat_sub_small)
  then have "unat (n + (a - 1)) = unat n + unat a - 1"
    using assms(2) a by (subst unat_add_small) auto
  then show ?thesis by (simp add: div_roundup_def unat_div)
qed

lemma unat_align_up:
  assumes "0 < a" and "unat n + unat a \<le> 2 ^ 64"
  shows "unat (align_up n a) = (unat n + unat a - 1) div unat a * unat a"
proof -
  have "(unat n + unat a - 1) div unat a * unat a \<le> unat n + unat a - 1"
    by (rule div_times_less_eq_dividend)
  moreover have "0 < unat a" using assms(1) by (simp add: unat_gt_0)
  ultimately have "unat (div_roundup n a) * unat a < 2 ^ 64"
    using assms(2) unfolding unat_div_roundup [OF assms] by linarith
  then show ?thesis using unat_div_roundup [OF assms]
    by (simp add: align_up_def div_roundup_def [symmetric] unat_mult_small)
qed

lemma align_up_least:
  assumes "0 < a" and "unat n + unat a \<le> 2 ^ 64"
  shows "unat n \<le> unat (align_up n a)" and "unat (align_up n a) < unat n + unat a"
    and "unat a dvd unat (align_up n a)"
proof -
  let ?q = "(unat n + unat a - 1) div unat a" and ?r = "(unat n + unat a - 1) mod unat a"
  have a: "0 < unat a" using assms(1) by (simp add: unat_gt_0)
  have "?q * unat a + ?r = unat n + unat a - 1" by (rule div_mult_mod_eq)
  moreover have "?r < unat a" using a by simp
  ultimately show "unat n \<le> unat (align_up n a)" "unat (align_up n a) < unat n + unat a"
    using a unfolding unat_align_up [OF assms] by linarith+
  show "unat a dvd unat (align_up n a)" by (simp add: unat_align_up [OF assms])
qed

section \<open>The bitmap as one truth value per frame\<close>

definition page_used :: "('z) pmm_state_scheme \<Rightarrow> nat \<Rightarrow> bool" where
  "page_used s i = bitmap_testbit s (of_nat i)"

definition page_total :: "('z) pmm_state_scheme \<Rightarrow> nat" where
  "page_total s = unat (pmm_page_count s)"

text \<open>The words of the bitmap that hold the frames' bits.\<close>

definition bitmap_bytes :: "('z) pmm_state_scheme \<Rightarrow> nat" where
  "bitmap_bytes s = 8 * ((page_total s + 63) div 64)"

definition bitmap_ok :: "('z) pmm_state_scheme \<Rightarrow> bool" where
  "bitmap_ok s \<longleftrightarrow> page_total s \<le> 2 ^ 35 \<and> unat (pmm_bitmap s) + bitmap_bytes s \<le> 2 ^ 64"

lemma bitmap_testbit_bit:
  "bitmap_testbit s i \<longleftrightarrow> bit (load64 (mem s) (bitmap_word s i)) (unat i mod 64)"
  by (simp add: bitmap_testbit_def Let_def bit_iff_and_drop_bit_eq_1 unat_mod and_one_eq
      odd_iff_mod_2_eq_one)

lemma bitmap_word_unat:
  assumes "bitmap_ok s" and "unat i < page_total s"
  shows "unat (bitmap_word s i) = unat (pmm_bitmap s) + 8 * (unat i div 64)"
    and "unat (pmm_bitmap s) + 8 * (unat i div 64) + 8 \<le> unat (pmm_bitmap s) + bitmap_bytes s"
proof -
  have "unat i div 64 < (page_total s + 63) div 64" using assms(2) by linarith
  then show le: "unat (pmm_bitmap s) + 8 * (unat i div 64) + 8 \<le> unat (pmm_bitmap s) + bitmap_bytes s"
    by (simp add: bitmap_bytes_def)
  have "8 * (unat i div 64) \<le> unat i" by linarith
  then have "unat (i div 64) * unat (8 :: u64) < 2 ^ 64"
    using unat_u64_bound [of i] by (simp add: unat_div)
  then have "unat (i div 64 * 8) = 8 * (unat i div 64)"
    by (simp only: unat_mult_small) (simp add: unat_div)
  then show "unat (bitmap_word s i) = unat (pmm_bitmap s) + 8 * (unat i div 64)"
    using le assms(1) by (simp add: bitmap_word_def bitmap_ok_def unat_add_small)
qed

lemma bitmap_word_disjoint:
  assumes "bitmap_ok s" and "unat i < page_total s" and "unat j < page_total s"
    and "unat i div 64 \<noteq> unat j div 64"
  shows "disjoint_regions (bitmap_word s i) 8 (bitmap_word s j) 8"
proof (rule disjoint_regionsI)
  note i = bitmap_word_unat [OF assms(1,2)] and j = bitmap_word_unat [OF assms(1,3)]
  show "unat (bitmap_word s i) + 8 \<le> 2 ^ 64" "unat (bitmap_word s j) + 8 \<le> 2 ^ 64"
    using i j assms(1) unfolding bitmap_ok_def by linarith+
  show "unat (bitmap_word s i) + 8 \<le> unat (bitmap_word s j) \<or>
        unat (bitmap_word s j) + 8 \<le> unat (bitmap_word s i)"
    using i(1) j(1) assms(4) by linarith
qed

text \<open>
  \<open>bitmap_only s s'\<close>: the step from \<open>s\<close> to \<open>s'\<close> wrote nothing but words of the bitmap.
\<close>

definition bitmap_only :: "('z) pmm_state_scheme \<Rightarrow> ('z) pmm_state_scheme \<Rightarrow> bool" where
  "bitmap_only s s' \<longleftrightarrow> s' = s\<lparr>mem := mem s'\<rparr> \<and>
     (\<forall>x. \<not> in_range (pmm_bitmap s) (bitmap_bytes s) x \<longrightarrow> mem s' x = mem s x)"

lemma bitmap_only_refl [simp]: "bitmap_only s s"
  by (simp add: bitmap_only_def)

lemma bitmap_onlyD:
  assumes "bitmap_only s s'"
  shows "pmm_page_count s' = pmm_page_count s" "pmm_bitmap s' = pmm_bitmap s"
    "free_pages s' = free_pages s" "last_used_index s' = last_used_index s"
    "pmm_lock s' = pmm_lock s" "page_total s' = page_total s" "bitmap_bytes s' = bitmap_bytes s"
    "bitmap_ok s' = bitmap_ok s" "pmm_state.more s' = pmm_state.more s"
proof -
  have eq: "s' = s\<lparr>mem := mem s'\<rparr>" using assms by (simp add: bitmap_only_def)
  show "pmm_page_count s' = pmm_page_count s" "pmm_bitmap s' = pmm_bitmap s"
    "free_pages s' = free_pages s" "last_used_index s' = last_used_index s"
    "pmm_lock s' = pmm_lock s" "page_total s' = page_total s" "bitmap_bytes s' = bitmap_bytes s"
    "bitmap_ok s' = bitmap_ok s" "pmm_state.more s' = pmm_state.more s"
    by (subst eq, simp add: page_total_def bitmap_bytes_def bitmap_ok_def)+
qed

lemma bitmap_only_trans [trans]:
  assumes "bitmap_only s s1" and "bitmap_only s1 s2"
  shows "bitmap_only s s2"
proof -
  have "s2 = s1\<lparr>mem := mem s2\<rparr>" "s1 = s\<lparr>mem := mem s1\<rparr>"
    using assms by (simp_all add: bitmap_only_def)
  then have "s2 = s\<lparr>mem := mem s2\<rparr>" by (metis pmm_state.update_convs(1) pmm_state.surjective)
  then show ?thesis using assms bitmap_onlyD [OF assms(1)] by (auto simp: bitmap_only_def)
qed

lemma bitmap_store_only:
  assumes "bitmap_ok s" and "unat i < page_total s"
  shows "bitmap_only s (s\<lparr>mem := store64 (mem s) (bitmap_word s i) v\<rparr>)"
proof -
  note w = bitmap_word_unat [OF assms]
  have "store64 (mem s) (bitmap_word s i) v x = mem s x"
    if "\<not> in_range (pmm_bitmap s) (bitmap_bytes s) x" for x
  proof (rule store64_outside)
    have "unat (bitmap_word s i) + 8 \<le> 2 ^ 64" "unat (pmm_bitmap s) + bitmap_bytes s \<le> 2 ^ 64"
      using w assms(1) unfolding bitmap_ok_def by linarith+
    then show "\<not> in_range (bitmap_word s i) 8 x"
      using that w by (auto simp: in_range_unat)
  qed
  then show ?thesis by (simp add: bitmap_only_def)
qed

lemma bitmap_setbit_only:
  "bitmap_ok s \<Longrightarrow> unat i < page_total s \<Longrightarrow> bitmap_only s (bitmap_setbit i s)"
  by (simp add: bitmap_setbit_def Let_def bitmap_store_only)

lemma bitmap_resetbit_only:
  "bitmap_ok s \<Longrightarrow> unat i < page_total s \<Longrightarrow> bitmap_only s (bitmap_resetbit i s)"
  by (simp add: bitmap_resetbit_def Let_def bitmap_store_only)

lemma load64_bitmap_word:
  assumes "bitmap_ok s" and "unat i < page_total s" and "unat j < page_total s"
  shows "load64 (store64 (mem s) (bitmap_word s i) v) (bitmap_word s j) =
    (if unat i div 64 = unat j div 64 then v else load64 (mem s) (bitmap_word s j))"
proof (cases "unat i div 64 = unat j div 64")
  case True
  then have "unat (bitmap_word s i) = unat (bitmap_word s j)"
    using bitmap_word_unat(1) [OF assms(1,2)] bitmap_word_unat(1) [OF assms(1,3)] by simp
  then show ?thesis using True by (simp add: unat_inject)
next
  case False
  then show ?thesis using bitmap_word_disjoint [OF assms] by (simp add: load64_store64_disjoint)
qed

lemma bitmap_word_mem [simp]: "bitmap_word (s\<lparr>mem := m\<rparr>) i = bitmap_word s i"
  by (simp add: bitmap_word_def)

lemma unat_div_mod_64_eq: "a div 64 = b div 64 \<Longrightarrow> a mod 64 = b mod 64 \<longleftrightarrow> a = (b :: nat)"
  by (metis div_mult_mod_eq)

lemma bit_or_one_at: "n < 64 \<Longrightarrow> bit (v OR 2 ^ k :: u64) n \<longleftrightarrow> k = n \<or> bit v n"
  by (auto simp: bit_or_iff bit_exp_iff)

lemma bit_and_not_one_at: "n < 64 \<Longrightarrow> bit (v AND NOT (2 ^ k) :: u64) n \<longleftrightarrow> k \<noteq> n \<and> bit v n"
  by (auto simp: bit_and_iff bit_not_iff bit_exp_iff)

lemma bitmap_word_cong:
  assumes "bitmap_ok s" and "unat i < page_total s" and "unat j < page_total s"
    and "unat i div 64 = unat j div 64"
  shows "bitmap_word s i = bitmap_word s j"
  using bitmap_word_unat(1) [OF assms(1,2)] bitmap_word_unat(1) [OF assms(1,3)] assms(4)
  by (simp add: unat_inject [symmetric])

lemma bitmap_testbit_setbit:
  assumes "bitmap_ok s" and "unat i < page_total s" and "unat j < page_total s"
  shows "bitmap_testbit (bitmap_setbit i s) j \<longleftrightarrow> unat i = unat j \<or> bitmap_testbit s j"
proof (cases "unat i div 64 = unat j div 64")
  case True
  then show ?thesis
    using bitmap_word_cong [OF assms True] unat_div_mod_64_eq [OF True]
    by (simp add: bitmap_testbit_bit bitmap_setbit_def Let_def unat_mod bit_or_one_at)
next
  case False
  then have "unat i \<noteq> unat j" by auto
  then show ?thesis using False
    by (simp add: bitmap_testbit_bit bitmap_setbit_def Let_def load64_bitmap_word [OF assms])
qed

lemma bitmap_testbit_resetbit:
  assumes "bitmap_ok s" and "unat i < page_total s" and "unat j < page_total s"
  shows "bitmap_testbit (bitmap_resetbit i s) j \<longleftrightarrow> unat i \<noteq> unat j \<and> bitmap_testbit s j"
proof (cases "unat i div 64 = unat j div 64")
  case True
  then show ?thesis
    using bitmap_word_cong [OF assms True] unat_div_mod_64_eq [OF True]
    by (simp add: bitmap_testbit_bit bitmap_resetbit_def Let_def unat_mod bit_and_not_one_at)
next
  case False
  then have "unat i \<noteq> unat j" by auto
  then show ?thesis using False
    by (simp add: bitmap_testbit_bit bitmap_resetbit_def Let_def load64_bitmap_word [OF assms])
qed

lemma page_index: "bitmap_ok s \<Longrightarrow> j < page_total s \<Longrightarrow> unat (of_nat j :: u64) = j"
  by (simp add: bitmap_ok_def unat_of_nat_u64)

lemma page_used_setbit:
  assumes "bitmap_ok s" and "unat i < page_total s" and "j < page_total s"
  shows "page_used (bitmap_setbit i s) j \<longleftrightarrow> unat i = j \<or> page_used s j"
  using bitmap_testbit_setbit [OF assms(1,2), of "of_nat j"] page_index [OF assms(1,3)] assms(3)
  by (auto simp: page_used_def)

lemma page_used_resetbit:
  assumes "bitmap_ok s" and "unat i < page_total s" and "j < page_total s"
  shows "page_used (bitmap_resetbit i s) j \<longleftrightarrow> unat i \<noteq> j \<and> page_used s j"
  using bitmap_testbit_resetbit [OF assms(1,2), of "of_nat j"] page_index [OF assms(1,3)] assms(3)
  by (auto simp: page_used_def)

lemma bitmap_set_range_spec:
  assumes "bitmap_ok s" and "unat stop \<le> page_total s"
  shows "bitmap_only s (bitmap_set_range i stop s)"
    and "j < page_total s \<Longrightarrow>
      page_used (bitmap_set_range i stop s) j \<longleftrightarrow> unat i \<le> j \<and> j < unat stop \<or> page_used s j"
proof -
  have "bitmap_only s (bitmap_set_range i stop s) \<and>
    (\<forall>j<page_total s. page_used (bitmap_set_range i stop s) j \<longleftrightarrow>
      unat i \<le> j \<and> j < unat stop \<or> page_used s j)"
    using assms
  proof (induction i stop s rule: bitmap_set_range.induct)
    case (1 i stop s)
    show ?case
    proof (cases "i < stop")
      case True
      then have i: "unat i < page_total s" using 1(3) by (simp add: word_less_nat_alt)
      let ?s = "bitmap_setbit i s"
      have only: "bitmap_only s ?s" using 1(2) i by (rule bitmap_setbit_only)
      note IH = 1(1) [OF True, unfolded bitmap_onlyD [OF only], OF 1(2,3)]
      have "bitmap_set_range i stop s = bitmap_set_range (i + 1) stop ?s"
        using True by (subst bitmap_set_range.simps) simp
      moreover have "unat (i + 1) = Suc (unat i)" "unat i < unat stop"
        using True by (simp_all add: unat_Suc_less word_less_nat_alt)
      ultimately show ?thesis
        using IH bitmap_only_trans [OF only] page_used_setbit [OF 1(2) i] by auto
    next
      case False
      then show ?thesis by (subst (1 2) bitmap_set_range.simps) (auto simp: word_less_nat_alt)
    qed
  qed
  then show "bitmap_only s (bitmap_set_range i stop s)"
    and "j < page_total s \<Longrightarrow>
      page_used (bitmap_set_range i stop s) j \<longleftrightarrow> unat i \<le> j \<and> j < unat stop \<or> page_used s j"
    by auto
qed

lemma bitmap_reset_range_spec:
  assumes "bitmap_ok s" and "unat stop \<le> page_total s"
  shows "bitmap_only s (bitmap_reset_range i stop s)"
    and "j < page_total s \<Longrightarrow>
      page_used (bitmap_reset_range i stop s) j \<longleftrightarrow> \<not> (unat i \<le> j \<and> j < unat stop) \<and> page_used s j"
proof -
  have "bitmap_only s (bitmap_reset_range i stop s) \<and>
    (\<forall>j<page_total s. page_used (bitmap_reset_range i stop s) j \<longleftrightarrow>
      \<not> (unat i \<le> j \<and> j < unat stop) \<and> page_used s j)"
    using assms
  proof (induction i stop s rule: bitmap_reset_range.induct)
    case (1 i stop s)
    show ?case
    proof (cases "i < stop")
      case True
      then have i: "unat i < page_total s" using 1(3) by (simp add: word_less_nat_alt)
      let ?s = "bitmap_resetbit i s"
      have only: "bitmap_only s ?s" using 1(2) i by (rule bitmap_resetbit_only)
      note IH = 1(1) [OF True, unfolded bitmap_onlyD [OF only], OF 1(2,3)]
      have "bitmap_reset_range i stop s = bitmap_reset_range (i + 1) stop ?s"
        using True by (subst bitmap_reset_range.simps) simp
      moreover have "unat (i + 1) = Suc (unat i)" "unat i < unat stop"
        using True by (simp_all add: unat_Suc_less word_less_nat_alt)
      ultimately show ?thesis
        using IH bitmap_only_trans [OF only] page_used_resetbit [OF 1(2) i] by auto
    next
      case False
      then show ?thesis by (subst (1 2) bitmap_reset_range.simps) (auto simp: word_less_nat_alt)
    qed
  qed
  then show "bitmap_only s (bitmap_reset_range i stop s)"
    and "j < page_total s \<Longrightarrow>
      page_used (bitmap_reset_range i stop s) j \<longleftrightarrow> \<not> (unat i \<le> j \<and> j < unat stop) \<and> page_used s j"
    by auto
qed

section \<open>The search is next-fit\<close>

definition run_free :: "('z) pmm_state_scheme \<Rightarrow> nat \<Rightarrow> nat \<Rightarrow> bool" where
  "run_free s a n \<longleftrightarrow> (\<forall>i<n. \<not> page_used s (a + i))"

lemma page_used_cursor [simp]:
  "page_used (s\<lparr>last_used_index := v\<rparr>) i = page_used s i"
  "run_free (s\<lparr>last_used_index := v\<rparr>) a n = run_free s a n"
  "page_total (s\<lparr>last_used_index := v\<rparr>) = page_total s"
  "bitmap_ok (s\<lparr>last_used_index := v\<rparr>) = bitmap_ok s"
  by (simp_all add: page_used_def run_free_def bitmap_testbit_def bitmap_word_def page_total_def
      bitmap_ok_def bitmap_bytes_def)

lemma run_free_Suc: "run_free s a (Suc n) \<longleftrightarrow> run_free s a n \<and> \<not> page_used s (a + n)"
  by (auto simp: run_free_def less_Suc_eq)

lemma find_upt_skip:
  assumes "\<And>a. lo \<le> a \<Longrightarrow> a < lo' \<Longrightarrow> \<not> P a" and "lo \<le> lo'"
  shows "List.find P [lo..<hi] = List.find P [lo'..<hi]"
proof (cases "lo' \<le> hi")
  case True
  then have "[lo..<hi] = [lo..<lo'] @ [lo'..<hi]" using assms(2) by (metis le_Suc_ex upt_add_eq_append)
  moreover have "List.find P [lo..<lo'] = None" using assms(1) by (auto simp: find_None_iff)
  moreover have "List.find P (xs @ ys) = (case List.find P xs of None \<Rightarrow> List.find P ys | r \<Rightarrow> r)" for xs ys
    by (induction xs) auto
  ultimately show ?thesis by simp
next
  case False
  then have "List.find P [lo..<hi] = None" using assms(1) by (auto simp: find_None_iff)
  then show ?thesis using False by simp
qed

definition search_result ::
  "u64 \<Rightarrow> u64 \<Rightarrow> nat option \<Rightarrow> ('z) pmm_state_scheme \<Rightarrow> addr \<times> ('z) pmm_state_scheme" where
  "search_result count limit r s =
     (case r of
        None \<Rightarrow> (0, s\<lparr>last_used_index := limit\<rparr>)
      | Some a \<Rightarrow> (of_nat a * PAGE_SIZE, bitmap_set_range (of_nat a) (of_nat a + count)
                    (s\<lparr>last_used_index := of_nat a + count\<rparr>)))"

lemma inner_alloc_loop_find:
  assumes "bitmap_ok s" and "unat limit \<le> page_total s" and "unat p < unat count"
    and "unat p \<le> unat (last_used_index s)" and "unat (last_used_index s) \<le> unat limit"
    and "run_free s (unat (last_used_index s) - unat p) (unat p)"
  shows "inner_alloc_loop count limit p s = search_result count limit
    (List.find (\<lambda>a. run_free s a (unat count))
       [unat (last_used_index s) - unat p..<Suc (unat limit) - unat count]) s"
  using assms
proof (induction count limit p s rule: inner_alloc_loop.induct)
  case (1 count limit p s)
  let ?l = "last_used_index s" and ?find = "\<lambda>lo. List.find (\<lambda>a. run_free s a (unat count)) [lo..<Suc (unat limit) - unat count]"
  show ?case
  proof (cases "?l < limit")
    case False
    then have "unat ?l = unat limit" using 1(7) by (simp add: word_less_nat_alt)
    then have "last_used_index s = limit" "?find (unat ?l - unat p) = None"
      using 1(5,6) by (auto simp: unat_inject find_None_iff)
    moreover have "inner_alloc_loop count limit p s = (0, s)"
      using False by (subst inner_alloc_loop.simps) simp
    ultimately show ?thesis by (simp add: search_result_def)
  next
    case True
    then have l1: "unat (?l + 1) = Suc (unat ?l)" "unat ?l < unat limit"
      by (simp_all add: unat_Suc_less word_less_nat_alt)
    have bit: "bitmap_testbit s ?l = page_used s (unat ?l)" by (simp add: page_used_def)
    show ?thesis
    proof (cases "page_used s (unat ?l)")
      case used: True
      have "inner_alloc_loop count limit p s = inner_alloc_loop count limit 0 (s\<lparr>last_used_index := ?l + 1\<rparr>)"
        using True used bit by (subst inner_alloc_loop.simps) simp
      also have "\<dots> = search_result count limit (?find (Suc (unat ?l))) (s\<lparr>last_used_index := ?l + 1\<rparr>)"
        using 1(2) [OF True] used bit l1 1(3-) by (simp add: run_free_def)
      also have "?find (Suc (unat ?l)) = ?find (unat ?l - unat p)"
      proof (rule find_upt_skip [symmetric])
        fix a assume "unat ?l - unat p \<le> a" "a < Suc (unat ?l)"
        then have "unat ?l - a < unat count" "a + (unat ?l - a) = unat ?l" using 1(5) by auto
        then show "\<not> run_free s a (unat count)" using used by (metis run_free_def)
      qed simp
      finally show ?thesis by (simp add: search_result_def split: option.split)
    next
      case unused: False
      have p1: "unat (p + 1) = Suc (unat p)" using 1(5) by (intro unat_Suc_less) (simp add: word_less_nat_alt)
      have run: "run_free s (unat ?l - unat p) (Suc (unat p))"
        using 1(6,8) unused by (simp add: run_free_Suc)
      show ?thesis
      proof (cases "p + 1 = count")
        case full: True
        then have cnt: "unat count = Suc (unat p)" using p1 by simp
        then have "?find (unat ?l - unat p) = Some (unat ?l - unat p)"
          using run l1 1(6) by (simp add: upt_conv_Cons)
        moreover have "?l + 1 = of_nat (unat ?l - unat p) + count"
          using 1(6) by (simp add: of_nat_diff full [symmetric])
        ultimately show ?thesis using True unused bit full
          by (subst inner_alloc_loop.simps) (simp add: search_result_def Let_def)
      next
        case more: False
        then have "unat (p + 1) \<noteq> unat count" by (simp add: unat_inject)
        then have "Suc (unat p) < unat count" using 1(5) p1 by simp
        moreover have "inner_alloc_loop count limit p s =
            inner_alloc_loop count limit (p + 1) (s\<lparr>last_used_index := ?l + 1\<rparr>)"
          using True unused bit more by (subst inner_alloc_loop.simps) (simp add: Let_def)
        moreover note 1(1) [OF True, unfolded bit, OF unused refl refl more]
        ultimately show ?thesis
          using l1 p1 run 1(3-) by (simp add: search_result_def split: option.split)
      qed
    qed
  qed
qed

section \<open>The invariant and the contracts\<close>

text \<open>Where the higher-half window shows page frame \<open>i\<close>.\<close>

definition frame_addr :: "nat \<Rightarrow> addr" where
  "frame_addr i = HIGHER_HALF + of_nat i * PAGE_SIZE"

text \<open>
  Between calls: the bitmap lies in mapped memory and in no free frame, frame 0 is never free (its
  address would read as the failure value), the search cursor is in range and the lock is idle.
\<close>

definition pmm_inv :: "('z) pmm_state_scheme \<Rightarrow> bool" where
  "pmm_inv s \<longleftrightarrow> bitmap_ok s \<and> unat (last_used_index s) \<le> page_total s \<and>
     0 < page_total s \<and> page_used s 0 \<and>
     (\<forall>i<page_total s. \<not> page_used s i \<longrightarrow>
        disjoint_regions (frame_addr i) 0x1000 (pmm_bitmap s) (bitmap_bytes s))"

definition pmm_wf :: "('z) pmm_state_scheme \<Rightarrow> bool" where
  "pmm_wf s \<longleftrightarrow> pmm_inv s \<and> lock_idle (pmm_lock s)"

definition free_frames :: "('z) pmm_state_scheme \<Rightarrow> nat set" where
  "free_frames s = {i. i < page_total s \<and> \<not> page_used s i}"

definition pmm_accounted :: "('z) pmm_state_scheme \<Rightarrow> bool" where
  "pmm_accounted s \<longleftrightarrow> unat (free_pages s) = card (free_frames s)"

text \<open>The first free run from the cursor on, else the first one that ends at or before it.\<close>

definition next_fit :: "nat \<Rightarrow> ('z) pmm_state_scheme \<Rightarrow> nat option" where
  "next_fit n s =
     (case List.find (\<lambda>a. run_free s a n) [unat (last_used_index s)..<Suc (page_total s) - n] of
        Some a \<Rightarrow> Some a
      | None \<Rightarrow> List.find (\<lambda>a. run_free s a n) [0..<Suc (unat (last_used_index s)) - n])"

text \<open>What handing out the \<open>n\<close> frames from \<open>a\<close> on does to the state.\<close>

definition pmm_alloc_post ::
  "('z) pmm_state_scheme \<Rightarrow> nat \<Rightarrow> nat \<Rightarrow> ('z) pmm_state_scheme \<Rightarrow> bool" where
  "pmm_alloc_post s a n s' \<longleftrightarrow>
     0 < a \<and> a + n \<le> page_total s \<and> run_free s a n \<and>
     page_total s' = page_total s \<and> pmm_bitmap s' = pmm_bitmap s \<and>
     (\<forall>j<page_total s. page_used s' j \<longleftrightarrow> a \<le> j \<and> j < a + n \<or> page_used s j) \<and>
     (\<forall>x. in_range (frame_addr a) (n * 0x1000) x \<longrightarrow> mem s' x = 0) \<and>
     (\<forall>x. \<not> in_range (frame_addr a) (n * 0x1000) x \<longrightarrow>
          \<not> in_range (pmm_bitmap s) (bitmap_bytes s) x \<longrightarrow> mem s' x = mem s x) \<and>
     free_pages s' = free_pages s - of_nat n \<and> pmm_state.more s' = pmm_state.more s"

lemma next_fit_SomeD:
  assumes "next_fit n s = Some a" and "unat (last_used_index s) \<le> page_total s" and "0 < n"
  shows "run_free s a n" and "a + n \<le> page_total s"
  using assms by (auto simp: next_fit_def find_Some_iff split: option.splits)

lemma unat_frame_addr: "i < 2 ^ 35 \<Longrightarrow> unat (frame_addr i) = 0xFFFF800000000000 + 0x1000 * i"
  by (simp add: frame_addr_def unat_add_small unat_mult_small unat_of_nat_u64)

lemma frame_number: "i < 2 ^ 35 \<Longrightarrow> unat (of_nat i * PAGE_SIZE) = 0x1000 * i"
  by (simp add: unat_mult_small unat_of_nat_u64)

lemma in_run_frame:
  assumes "in_range (frame_addr a) (n * 0x1000) x" and "a + n \<le> 2 ^ 35"
  obtains i where "i < n" and "in_range (frame_addr (a + i)) 0x1000 x"
proof -
  have n: "0 < n" using assms(1) by (auto simp: in_range_def)
  have x: "unat (frame_addr a) \<le> unat x" "unat x < unat (frame_addr a) + n * 0x1000"
    using assms n by (simp_all add: in_range_unat unat_frame_addr)
  define i where "i = (unat x - unat (frame_addr a)) div 0x1000"
  have i: "i < n" using x n by (simp add: i_def less_mult_imp_div_less)
  have "0x1000 * i \<le> unat x - unat (frame_addr a)" "unat x - unat (frame_addr a) < 0x1000 * i + 0x1000"
    unfolding i_def by linarith+
  then have "in_range (frame_addr (a + i)) 0x1000 x"
    using x i assms(2) n by (auto simp: in_range_unat unat_frame_addr)
  with i show thesis by (rule that)
qed

lemma page_used_cong:
  assumes "bitmap_ok s" and "j < page_total s" and "pmm_bitmap s' = pmm_bitmap s"
    and "\<And>x. in_range (pmm_bitmap s) (bitmap_bytes s) x \<Longrightarrow> mem s' x = mem s x"
  shows "page_used s' j = page_used s j"
proof -
  have j: "unat (of_nat j :: u64) < page_total s" using page_index [OF assms(1,2)] assms(2) by simp
  note w = bitmap_word_unat [OF assms(1) j]
  have "load64 (mem s') (bitmap_word s (of_nat j)) = load64 (mem s) (bitmap_word s (of_nat j))"
  proof (intro load64_cong assms(4))
    fix i :: nat assume "i < 8"
    moreover have "unat (bitmap_word s (of_nat j)) + 8 \<le> 2 ^ 64"
      using w assms(1) unfolding bitmap_ok_def by linarith
    ultimately have "unat (bitmap_word s (of_nat j) + of_nat i) = unat (bitmap_word s (of_nat j)) + i"
      by (intro unat_add_of_nat) linarith
    then show "in_range (pmm_bitmap s) (bitmap_bytes s) (bitmap_word s (of_nat j) + of_nat i)"
      using w \<open>i < 8\<close> assms(1) by (simp add: in_range_unat bitmap_ok_def)
  qed
  then show ?thesis using assms(3) by (simp add: page_used_def bitmap_testbit_bit bitmap_word_def)
qed

lemma run_disjoint_bitmap:
  assumes "pmm_inv s" and "run_free s a n" and "a + n \<le> page_total s"
    and "in_range (frame_addr a) (n * 0x1000) x"
  shows "\<not> in_range (pmm_bitmap s) (bitmap_bytes s) x"
proof -
  have "a + n \<le> 2 ^ 35" using assms(1,3) by (simp add: pmm_inv_def bitmap_ok_def)
  then obtain i where "i < n" "in_range (frame_addr (a + i)) 0x1000 x"
    using assms(4) by (metis in_run_frame)
  moreover have "\<not> page_used s (a + i)" using assms(2) \<open>i < n\<close> by (simp add: run_free_def)
  moreover have "a + i < page_total s" using assms(3) \<open>i < n\<close> by simp
  ultimately show ?thesis using assms(1) unfolding pmm_inv_def disjoint_regions_def by blast
qed

lemma pmm_search_next_fit:
  assumes "pmm_inv s" and "0 < unat count"
  shows "pmm_search count s =
    (case next_fit (unat count) s of
       None \<Rightarrow> Inl (Panic ''Kernel OOM'')
     | Some a \<Rightarrow> Inr (of_nat a * PAGE_SIZE, bitmap_set_range (of_nat a) (of_nat a + count)
                       (s\<lparr>last_used_index := of_nat a + count\<rparr>)))"
proof -
  let ?find = "\<lambda>lo hi. List.find (\<lambda>a. run_free s a (unat count)) [lo..<Suc hi - unat count]"
  have nz: "(of_nat a :: u64) * PAGE_SIZE \<noteq> 0"
    if "?find lo hi = Some a" and "hi \<le> page_total s" for a lo hi
  proof -
    have a: "run_free s a (unat count)" "a < 2 ^ 35"
      using that assms by (auto simp: find_Some_iff pmm_inv_def bitmap_ok_def)
    then have "a \<noteq> 0" using assms by (metis add_0 pmm_inv_def run_free_def)
    then show ?thesis using frame_number [OF a(2)] by (metis mult_eq_0_iff unat_0 zero_neq_numeral)
  qed
  have first: "inner_alloc count (pmm_page_count s) s =
      search_result count (pmm_page_count s) (?find (unat (last_used_index s)) (page_total s)) s"
    using assms inner_alloc_loop_find [of s "pmm_page_count s" 0 count]
    by (simp add: inner_alloc_def pmm_inv_def page_total_def run_free_def)
  have second: "inner_alloc count (last_used_index s) (s\<lparr>last_used_index := 0\<rparr>) =
      search_result count (last_used_index s) (?find 0 (unat (last_used_index s)))
        (s\<lparr>last_used_index := 0\<rparr>)"
    using assms inner_alloc_loop_find [of "s\<lparr>last_used_index := 0\<rparr>" "last_used_index s" 0 count]
    by (simp add: inner_alloc_def pmm_inv_def run_free_def)
  have le: "unat (last_used_index s) \<le> page_total s" using assms(1) by (simp add: pmm_inv_def)
  show ?thesis
    using first second nz [of "unat (last_used_index s)" "page_total s"]
      nz [of 0 "unat (last_used_index s)", OF _ le]
    by (auto simp: pmm_search_def next_fit_def search_result_def Let_def split: option.splits)
qed

lemma page_used_fields [simp]:
  "page_used (s\<lparr>pmm_lock := l\<rparr>) i = page_used s i"
  "page_used (s\<lparr>free_pages := v\<rparr>) i = page_used s i"
  "page_total (s\<lparr>pmm_lock := l\<rparr>) = page_total s"
  "page_total (s\<lparr>free_pages := v\<rparr>) = page_total s"
  "page_total (s\<lparr>mem := m\<rparr>) = page_total s"
  "bitmap_bytes (s\<lparr>pmm_lock := l\<rparr>) = bitmap_bytes s"
  "bitmap_bytes (s\<lparr>free_pages := v\<rparr>) = bitmap_bytes s"
  "bitmap_bytes (s\<lparr>last_used_index := i'\<rparr>) = bitmap_bytes s"
  "bitmap_bytes (s\<lparr>mem := m\<rparr>) = bitmap_bytes s"
  "bitmap_ok (s\<lparr>pmm_lock := l\<rparr>) = bitmap_ok s"
  by (simp_all add: page_used_def bitmap_testbit_def bitmap_word_def page_total_def
      bitmap_ok_def bitmap_bytes_def)

lemma run_free_lock [simp]: "run_free (s\<lparr>pmm_lock := l\<rparr>) a n = run_free s a n"
  by (simp add: run_free_def)

lemma next_fit_lock [simp]: "next_fit n (s\<lparr>pmm_lock := l\<rparr>) = next_fit n s"
  by (simp add: next_fit_def cong: option.case_cong)

lemma pmm_inv_lock [simp]: "pmm_inv (s\<lparr>pmm_lock := l\<rparr>) = pmm_inv s"
  by (simp add: pmm_inv_def)

lemma pmm_alloc_post_inv:
  assumes "pmm_alloc_post s a n s'" and "pmm_inv s" and "unat (last_used_index s') \<le> page_total s"
  shows "pmm_inv s'"
proof -
  have "bitmap_bytes s' = bitmap_bytes s" "bitmap_ok s' = bitmap_ok s"
    using assms(1) by (simp_all add: pmm_alloc_post_def bitmap_bytes_def bitmap_ok_def)
  then show ?thesis using assms by (auto simp: pmm_alloc_post_def pmm_inv_def)
qed

lemma pmm_alloc_post_lock [simp]:
  "pmm_alloc_post (s\<lparr>pmm_lock := l\<rparr>) a n (s'\<lparr>pmm_lock := l'\<rparr>) = pmm_alloc_post s a n s'"
  "pmm_alloc_post s a n (s'\<lparr>pmm_lock := l'\<rparr>) = pmm_alloc_post s a n s'"
  "pmm_alloc_post (s\<lparr>pmm_lock := l\<rparr>) a n s' = pmm_alloc_post s a n s'"
  by (simp_all add: pmm_alloc_post_def)

text \<open>The part of \<^verbatim>\<open>pmm_alloc\<close> between the two lock calls.\<close>

lemma pmm_take_run:
  assumes "pmm_inv s" and "run_free s a (unat count)" and "a + unat count \<le> page_total s"
    and "0 < unat count"
    and s1: "s1 = bitmap_set_range (of_nat a) (of_nat a + count) (s\<lparr>last_used_index := of_nat a + count\<rparr>)"
    and s': "s' = s1\<lparr>free_pages := free_pages s1 - count,
        mem := snd (memset (mem s1) (of_nat a * PAGE_SIZE + HIGHER_HALF) 0 (count * PAGE_SIZE))\<rparr>"
  shows "pmm_alloc_post s a (unat count) s'" and "pmm_inv s'" and "pmm_lock s' = pmm_lock s"
proof -
  let ?n = "unat count" and ?s = "s\<lparr>last_used_index := of_nat a + count\<rparr>"
  have total: "page_total s \<le> 2 ^ 35" using assms(1) by (simp add: pmm_inv_def bitmap_ok_def)
  have idx: "unat (of_nat a :: u64) = a" "unat (of_nat a + count) = a + ?n"
    using assms(3) total by (simp_all add: unat_of_nat_u64 unat_add_small)
  have ok: "bitmap_ok ?s" using assms(1) by (simp add: pmm_inv_def)
  have le: "unat (of_nat a + count) \<le> page_total ?s" using idx assms(3) by simp
  have only: "bitmap_only ?s s1" using bitmap_set_range_spec(1) [OF ok le] by (simp add: s1)
  have used: "page_used s1 j \<longleftrightarrow> a \<le> j \<and> j < a + ?n \<or> page_used s j" if "j < page_total s" for j
    using bitmap_set_range_spec(2) [OF ok le, of j "of_nat a"] that idx by (simp add: s1)
  note fields = bitmap_onlyD [OF only]
  have cnt: "unat (count * PAGE_SIZE) = ?n * 0x1000"
    using assms(3) total by (simp add: unat_mult_small)
  have ptr: "of_nat a * PAGE_SIZE + HIGHER_HALF = frame_addr a" by (simp add: frame_addr_def)
  have mem': "mem s' x = (if in_range (frame_addr a) (?n * 0x1000) x then 0 else mem s1 x)" for x
    unfolding s' by (simp add: memset_apply cnt ptr)
  have apart: "\<not> in_range (pmm_bitmap s) (bitmap_bytes s) x"
    if "in_range (frame_addr a) (?n * 0x1000) x" for x
    using assms(1-3) that by (rule run_disjoint_bitmap)
  have "page_used s' j = page_used s1 j" if "j < page_total s" for j
  proof (rule page_used_cong)
    show "bitmap_ok s1" "j < page_total s1" "pmm_bitmap s' = pmm_bitmap s1"
      using fields ok that by (simp_all add: s')
    show "mem s' x = mem s1 x" if "in_range (pmm_bitmap s1) (bitmap_bytes s1) x" for x
      using that apart [of x] fields by (auto simp: mem')
  qed
  moreover have "0 < a" using assms(1,2,4) by (metis add_0 gr0I pmm_inv_def run_free_def)
  moreover have "mem s1 x = mem s x" if "\<not> in_range (pmm_bitmap s) (bitmap_bytes s) x" for x
    using only that by (simp add: bitmap_only_def)
  moreover have "page_total s' = page_total s" "pmm_bitmap s' = pmm_bitmap s"
    "free_pages s' = free_pages s - count" "pmm_state.more s' = pmm_state.more s"
    using fields by (simp_all add: s' page_total_def)
  ultimately show post: "pmm_alloc_post s a ?n s'"
    using assms(2,3) used by (simp add: pmm_alloc_post_def mem')
  show "pmm_inv s'" using post assms(1)
    by (rule pmm_alloc_post_inv) (use fields idx assms(3) in \<open>simp add: s'\<close>)
  show "pmm_lock s' = pmm_lock s" using fields by (simp add: s')
qed

lemma pmm_alloc_spec:
  assumes "pmm_wf s" and "0 < count"
  shows "case next_fit (unat count) s of
      None \<Rightarrow> pmm_alloc c count s = Inl (Panic ''Kernel OOM'')
    | Some a \<Rightarrow> \<exists>s'. pmm_alloc c count s = Inr (of_nat a * PAGE_SIZE, s') \<and>
        pmm_alloc_post s a (unat count) s' \<and> pmm_wf s'"
proof -
  have inv: "pmm_inv s" and "lock_idle (pmm_lock s)" using assms(1) by (simp_all add: pmm_wf_def)
  from \<open>lock_idle (pmm_lock s)\<close> obtain l1 l2 where l: "lock_acquire c ''pmm_alloc'' (pmm_lock s) = Inr l1"
    "lock_release c l1 = Inr l2" "lock_idle l2" by (rule spinlock.section_runs)
  have cnt: "0 < unat count" using assms(2) by (simp add: word_less_nat_alt)
  note search = pmm_search_next_fit [of "s\<lparr>pmm_lock := l1\<rparr>", OF _ cnt]
  show ?thesis
  proof (cases "next_fit (unat count) s")
    case None
    then show ?thesis using l search inv by (simp add: pmm_alloc_def)
  next
    case (Some a)
    have "run_free s a (unat count)" "a + unat count \<le> page_total s"
      using next_fit_SomeD [OF Some _ cnt] inv by (simp_all add: pmm_inv_def)
    moreover define s1 where "s1 = bitmap_set_range (of_nat a) (of_nat a + count)
      (s\<lparr>pmm_lock := l1, last_used_index := of_nat a + count\<rparr>)"
    moreover define s2 where "s2 = s1\<lparr>free_pages := free_pages s1 - count,
      mem := snd (memset (mem s1) (of_nat a * PAGE_SIZE + HIGHER_HALF) 0 (count * PAGE_SIZE))\<rparr>"
    ultimately have "pmm_alloc_post s a (unat count) s2" "pmm_inv s2" "pmm_lock s2 = l1"
      using pmm_take_run [of "s\<lparr>pmm_lock := l1\<rparr>" a count s1 s2] inv cnt by simp_all
    moreover have "pmm_search count (s\<lparr>pmm_lock := l1\<rparr>) = Inr (of_nat a * PAGE_SIZE, s1)"
      using search inv Some by (simp add: s1_def)
    ultimately have "pmm_alloc c count s = Inr (of_nat a * PAGE_SIZE, s2\<lparr>pmm_lock := l2\<rparr>)"
      "pmm_alloc_post s a (unat count) (s2\<lparr>pmm_lock := l2\<rparr>)" "pmm_wf (s2\<lparr>pmm_lock := l2\<rparr>)"
      using l by (simp_all add: pmm_alloc_def Let_def s2_def pmm_wf_def)
    then show ?thesis using Some by auto
  qed
qed


text \<open>What \<^verbatim>\<open>pmm_free\<close> may be asked to free: used frames in range, not frame 0 and not the bitmap's.\<close>

definition freeable :: "('z) pmm_state_scheme \<Rightarrow> nat \<Rightarrow> nat \<Rightarrow> bool" where
  "freeable s a n \<longleftrightarrow> 0 < a \<and> a + n \<le> page_total s \<and>
     (\<forall>i<n. page_used s (a + i) \<and>
        disjoint_regions (frame_addr (a + i)) 0x1000 (pmm_bitmap s) (bitmap_bytes s))"

definition pmm_free_post ::
  "('z) pmm_state_scheme \<Rightarrow> nat \<Rightarrow> nat \<Rightarrow> ('z) pmm_state_scheme \<Rightarrow> bool" where
  "pmm_free_post s a n s' \<longleftrightarrow>
     page_total s' = page_total s \<and> pmm_bitmap s' = pmm_bitmap s \<and>
     (\<forall>j<page_total s. page_used s' j \<longleftrightarrow> \<not> (a \<le> j \<and> j < a + n) \<and> page_used s j) \<and>
     (\<forall>x. \<not> in_range (pmm_bitmap s) (bitmap_bytes s) x \<longrightarrow> mem s' x = mem s x) \<and>
     free_pages s' = free_pages s + of_nat n \<and> last_used_index s' = last_used_index s \<and>
     pmm_state.more s' = pmm_state.more s"

lemma pmm_free_spec:
  assumes "pmm_wf s" and "freeable s a (unat count)" and "unat ptr div 0x1000 = a"
  shows "\<exists>s'. pmm_free c ptr count s = Inr s' \<and> pmm_free_post s a (unat count) s' \<and> pmm_wf s'"
proof -
  let ?n = "unat count" and ?page = "ptr div PAGE_SIZE"
  have inv: "pmm_inv s" and "lock_idle (pmm_lock s)" using assms(1) by (simp_all add: pmm_wf_def)
  then obtain l1 l2 where l: "lock_acquire c ''pmm_free'' (pmm_lock s) = Inr l1"
    "lock_release c l1 = Inr l2" "lock_idle l2" using spinlock.section_runs by metis
  have total: "page_total s \<le> 2 ^ 35" using inv by (simp add: pmm_inv_def bitmap_ok_def)
  have idx: "unat ?page = a" "unat (?page + count) = a + ?n"
    using assms(2,3) total by (simp_all add: unat_div unat_add_small freeable_def)
  have ok: "bitmap_ok (s\<lparr>pmm_lock := l1\<rparr>)" using inv by (simp add: pmm_inv_def)
  have le: "unat (?page + count) \<le> page_total (s\<lparr>pmm_lock := l1\<rparr>)"
    using idx assms(2) by (simp add: freeable_def)
  define s1 where "s1 = bitmap_reset_range ?page (?page + count) (s\<lparr>pmm_lock := l1\<rparr>)"
  have only: "bitmap_only (s\<lparr>pmm_lock := l1\<rparr>) s1"
    unfolding s1_def by (rule bitmap_reset_range_spec(1) [OF ok le])
  have used: "page_used s1 j \<longleftrightarrow> \<not> (a \<le> j \<and> j < a + ?n) \<and> page_used s j" if "j < page_total s" for j
    using bitmap_reset_range_spec(2) [OF ok le, of j ?page] that idx by (simp add: s1_def)
  note fields = bitmap_onlyD [OF only]
  define s2 where "s2 = s1\<lparr>free_pages := free_pages s1 + count, pmm_lock := l2\<rparr>"
  have f2: "page_total s2 = page_total s" "pmm_bitmap s2 = pmm_bitmap s" "mem s2 = mem s1"
    "free_pages s2 = free_pages s + count" "last_used_index s2 = last_used_index s"
    "pmm_state.more s2 = pmm_state.more s" "page_used s2 = page_used s1" "pmm_lock s2 = l2"
    using fields by (simp_all add: s2_def fun_eq_iff)
  have post: "pmm_free_post s a ?n s2"
    using only used by (simp add: pmm_free_post_def f2 bitmap_only_def)
  have "bitmap_ok s2 = bitmap_ok s" "bitmap_bytes s2 = bitmap_bytes s"
    using f2(1,2) by (simp_all add: bitmap_ok_def bitmap_bytes_def)
  moreover have "disjoint_regions (frame_addr i) 0x1000 (pmm_bitmap s) (bitmap_bytes s)"
    if "a \<le> i" "i < a + ?n" for i
    using assms(2) that unfolding freeable_def by (metis le_add_diff_inverse less_diff_conv2 add.commute)
  ultimately have "pmm_wf s2"
    using inv l(3) used assms(2) by (auto simp: pmm_wf_def pmm_inv_def f2 freeable_def)
  moreover have "pmm_free c ptr count s = Inr s2"
    using l fields by (simp add: pmm_free_def Let_def s1_def [symmetric] s2_def)
  ultimately show ?thesis using post by blast
qed

section \<open>Accounting\<close>

lemma free_frames_finite [simp]: "finite (free_frames s)"
  by (simp add: free_frames_def)

lemma free_frames_card: "card (free_frames s) \<le> page_total s"
proof -
  have "free_frames s \<subseteq> {..<page_total s}" by (auto simp: free_frames_def)
  then show ?thesis using card_mono [of "{..<page_total s}"] by fastforce
qed

lemma pmm_alloc_post_accounted:
  assumes "pmm_alloc_post s a n s'" and "pmm_accounted s"
  shows "pmm_accounted s'" and "free_frames s' = free_frames s - {a..<a + n}"
proof -
  have run: "{a..<a + n} \<subseteq> free_frames s"
    using assms(1) by (auto simp: pmm_alloc_post_def free_frames_def run_free_def)
      (metis le_add_diff_inverse less_diff_conv2 add.commute)
  show eq: "free_frames s' = free_frames s - {a..<a + n}"
    using assms(1) by (auto simp: pmm_alloc_post_def free_frames_def)
  have "n \<le> card (free_frames s)" using card_mono [OF _ run] by simp
  moreover have "card (free_frames s) < 2 ^ 64"
    using assms(2) unat_u64_bound [of "free_pages s"] by (simp add: pmm_accounted_def)
  ultimately have "unat (free_pages s - of_nat n) = card (free_frames s) - n"
    using assms(2) by (simp add: unat_sub_small unat_of_nat_u64 pmm_accounted_def)
  then show "pmm_accounted s'"
    using assms(1) run by (simp add: pmm_accounted_def eq card_Diff_subset pmm_alloc_post_def)
qed

lemma pmm_free_post_accounted:
  assumes "pmm_free_post s a n s'" and "freeable s a n" and "pmm_accounted s" and "page_total s \<le> 2 ^ 35"
  shows "pmm_accounted s'" and "free_frames s' = free_frames s \<union> {a..<a + n}"
proof -
  show eq: "free_frames s' = free_frames s \<union> {a..<a + n}"
    using assms(1,2) by (auto simp: pmm_free_post_def free_frames_def freeable_def)
  have "free_frames s \<inter> {a..<a + n} = {}"
    using assms(2) by (auto simp: freeable_def free_frames_def)
      (metis le_add_diff_inverse less_diff_conv2 add.commute)
  then have card: "card (free_frames s') = card (free_frames s) + n"
    by (simp add: eq card_Un_disjoint)
  moreover have "page_total s' \<le> 2 ^ 35" using assms(1,4) by (simp add: pmm_free_post_def)
  ultimately have "card (free_frames s) + n < 2 ^ 64" using free_frames_card [of s'] by simp
  then have "unat (free_pages s + of_nat n) = card (free_frames s) + n"
    using assms(3) by (simp add: unat_add_of_nat pmm_accounted_def)
  then show "pmm_accounted s'" using assms(1) card by (simp add: pmm_accounted_def pmm_free_post_def)
qed

lemma pmm_alloc_InrD:
  assumes "pmm_wf s" and "0 < count" and "pmm_alloc c count s = Inr (ret, s')"
  obtains a where "ret = of_nat a * PAGE_SIZE" and "pmm_alloc_post s a (unat count) s'" and "pmm_wf s'"
  using pmm_alloc_spec [OF assms(1,2), of c] assms(3) that
  by (cases "next_fit (unat count) s") auto

lemma pmm_alloc_post_freeable:
  assumes "pmm_alloc_post s a n s'" and "pmm_inv s"
  shows "freeable s' a n"
proof -
  have "bitmap_bytes s' = bitmap_bytes s"
    using assms(1) by (simp add: pmm_alloc_post_def bitmap_bytes_def)
  then show ?thesis using assms
    by (auto simp: pmm_alloc_post_def freeable_def pmm_inv_def run_free_def)
qed

text \<open>
  C6: The free count is exact: after a successful \<^verbatim>\<open>pmm_alloc\<close> it still equals the number of clear bits,
  and \<^verbatim>\<open>pmm_free\<close> of the returned address and count succeeds and gives back exactly the frames that
  were free before, with the invariant and the count intact.
\<close>

theorem pmm_alloc_free_roundtrip:
  assumes "pmm_wf s" and "pmm_accounted s" and "0 < count" and "pmm_alloc c count s = Inr (ret, s1)"
  shows "pmm_accounted s1 \<and> (\<exists>s2. pmm_free c ret count s1 = Inr s2 \<and> free_frames s2 = free_frames s \<and>
    free_pages s2 = free_pages s \<and> pmm_wf s2 \<and> pmm_accounted s2)"
proof -
  obtain a where ret: "ret = of_nat a * PAGE_SIZE" and post: "pmm_alloc_post s a (unat count) s1"
    and wf: "pmm_wf s1" using pmm_alloc_InrD [OF assms(1,3,4)] by blast
  note acc = pmm_alloc_post_accounted [OF post assms(2)]
  have fr: "freeable s1 a (unat count)"
    using pmm_alloc_post_freeable [OF post] assms(1) by (simp add: pmm_wf_def)
  have tot: "page_total s1 \<le> 2 ^ 35" "0 < unat count"
    using wf assms(3) by (simp_all add: pmm_wf_def pmm_inv_def bitmap_ok_def word_less_nat_alt)
  then have "a < 2 ^ 35" using fr by (simp add: freeable_def)
  then have "unat ret div 0x1000 = a" unfolding ret by (subst frame_number) simp_all
  then obtain s2 where s2: "pmm_free c ret count s1 = Inr s2" "pmm_free_post s1 a (unat count) s2"
    "pmm_wf s2" using pmm_free_spec [OF wf fr] by blast
  note acc2 = pmm_free_post_accounted [OF s2(2) fr acc(1) tot(1)]
  have "{a..<a + unat count} \<subseteq> free_frames s"
    using post by (auto simp: pmm_alloc_post_def free_frames_def run_free_def)
      (metis le_add_diff_inverse less_diff_conv2 add.commute)
  then have "free_frames s2 = free_frames s" unfolding acc2(2) acc(2) by auto
  moreover have "free_pages s2 = free_pages s"
    using post s2(2) by (simp add: pmm_alloc_post_def pmm_free_post_def)
  ultimately show ?thesis using acc(1) acc2(1) s2 by blast
qed

end
