(* ===== verification/PmmBoot.thy ===== *)
theory PmmBoot
  imports Pmm
begin

text \<open>
  The page allocator at boot: \<^verbatim>\<open>pmm_init\<close> turns the boot loader's memory map into a state that satisfies
  the allocator's invariant, with exactly the usable frames free, the bitmap's own excepted.  The
  theory also holds a small explicit state on which the allocator's theorems are instantiated.
\<close>

section \<open>Memory maps\<close>

definition usable :: "memmap_entry \<Rightarrow> bool" where
  "usable e \<longleftrightarrow> mm_type e = LIMINE_MEMMAP_USABLE"

definition frames_of :: "memmap_entry \<Rightarrow> nat set" where
  "frames_of e = {unat (mm_base e) div 0x1000..<(unat (mm_base e) + unat (mm_length e)) div 0x1000}"

definition usable_frames :: "memmap_entry list \<Rightarrow> nat set" where
  "usable_frames es = (\<Union>e\<in>{e \<in> set es. usable e}. frames_of e)"

text \<open>A page-aligned region above frame 0, within 128 TiB of physical memory.\<close>

definition entry_ok :: "memmap_entry \<Rightarrow> bool" where
  "entry_ok e \<longleftrightarrow> 0x1000 dvd unat (mm_base e) \<and> 0x1000 dvd unat (mm_length e) \<and>
     0 < unat (mm_base e) \<and> unat (mm_base e) + unat (mm_length e) \<le> 2 ^ 47"

text \<open>What the boot protocol documents of the map: usable entries are aligned and do not overlap.\<close>

definition memmap_ok :: "memmap_entry list \<Rightarrow> bool" where
  "memmap_ok es \<longleftrightarrow> (\<forall>e\<in>set es. usable e \<longrightarrow> entry_ok e) \<and>
     (\<forall>e\<in>set es. unat (mm_base e) + unat (mm_length e) \<le> 2 ^ 47) \<and>
     sorted_wrt (\<lambda>e e'. usable e \<longrightarrow> usable e' \<longrightarrow> frames_of e \<inter> frames_of e' = {}) es"

definition boot_bitmap_size :: "memmap_entry list \<Rightarrow> u64" where
  "boot_bitmap_size es = align_up (highest_address es 0 div PAGE_SIZE div 8) PAGE_SIZE"

section \<open>The first two loops\<close>

lemma highest_address_bounds:
  assumes "\<forall>e\<in>set es. unat (mm_base e) + unat (mm_length e) \<le> 2 ^ 47" and "unat hi \<le> 2 ^ 47"
  shows "unat (highest_address es hi) \<le> 2 ^ 47" and "unat hi \<le> unat (highest_address es hi)"
    and "\<forall>e\<in>set es. usable e \<longrightarrow> unat (mm_base e) + unat (mm_length e) \<le> unat (highest_address es hi)"
proof -
  have "unat (highest_address es hi) \<le> 2 ^ 47 \<and> unat hi \<le> unat (highest_address es hi) \<and>
    (\<forall>e\<in>set es. usable e \<longrightarrow> unat (mm_base e) + unat (mm_length e) \<le> unat (highest_address es hi))"
    using assms
  proof (induction es arbitrary: hi)
    case (Cons e es)
    have top: "unat (mm_base e + mm_length e) = unat (mm_base e) + unat (mm_length e)"
      using Cons.prems(1) by (intro unat_add_small) auto
    define hi' where "hi' = (if mm_type e \<noteq> LIMINE_MEMMAP_USABLE \<and>
        mm_type e \<noteq> LIMINE_MEMMAP_BOOTLOADER_RECLAIMABLE then hi
      else if mm_base e + mm_length e > hi then mm_base e + mm_length e else hi)"
    have "highest_address (e # es) hi = highest_address es hi'" by (simp add: hi'_def Let_def)
    moreover have "unat hi \<le> unat hi'" "unat hi' \<le> 2 ^ 47"
      "usable e \<Longrightarrow> unat (mm_base e) + unat (mm_length e) \<le> unat hi'"
      using Cons.prems top by (auto simp: hi'_def word_less_nat_alt usable_def)
    moreover note Cons.IH [of hi']
    ultimately show ?case using Cons.prems(1) by auto
  qed simp
  then show "unat (highest_address es hi) \<le> 2 ^ 47" and "unat hi \<le> unat (highest_address es hi)"
    and "\<forall>e\<in>set es. usable e \<longrightarrow> unat (mm_base e) + unat (mm_length e) \<le> unat (highest_address es hi)"
    by auto
qed

definition shrink_entry :: "u64 \<Rightarrow> memmap_entry \<Rightarrow> memmap_entry" where
  "shrink_entry sz e = e\<lparr>mm_length := mm_length e - sz, mm_base := mm_base e + sz\<rparr>"

lemma place_bitmap_spec:
  assumes "\<exists>e\<in>set es. usable e \<and> sz \<le> mm_length e"
  obtains pre e post where "es = pre @ e # post" and "usable e" and "sz \<le> mm_length e"
    and "place_bitmap sz es s = (pre @ shrink_entry sz e # post,
      s\<lparr>pmm_bitmap := mm_base e + HIGHER_HALF,
        mem := snd (memset (mem s) (mm_base e + HIGHER_HALF) 0xFF sz)\<rparr>)"
proof -
  have "\<exists>pre e post. es = pre @ e # post \<and> usable e \<and> sz \<le> mm_length e \<and>
    place_bitmap sz es s = (pre @ shrink_entry sz e # post,
      s\<lparr>pmm_bitmap := mm_base e + HIGHER_HALF,
        mem := snd (memset (mem s) (mm_base e + HIGHER_HALF) 0xFF sz)\<rparr>)"
    using assms
  proof (induction es)
    case (Cons e es)
    show ?case
    proof (cases "usable e \<and> sz \<le> mm_length e")
      case True
      then show ?thesis
        by (intro exI [of _ "[]"] exI [of _ e] exI [of _ es]) (simp add: usable_def Let_def shrink_entry_def)
    next
      case False
      then have "\<exists>e\<in>set es. usable e \<and> sz \<le> mm_length e" using Cons.prems by auto
      from Cons.IH [OF this] obtain pre e' post where "es = pre @ e' # post" "usable e'"
        "sz \<le> mm_length e'" "place_bitmap sz es s = (pre @ shrink_entry sz e' # post,
          s\<lparr>pmm_bitmap := mm_base e' + HIGHER_HALF,
            mem := snd (memset (mem s) (mm_base e' + HIGHER_HALF) 0xFF sz)\<rparr>)" by blast
      then show ?thesis using False
        by (intro exI [of _ "e # pre"] exI [of _ e'] exI [of _ post]) (simp add: usable_def Let_def)
    qed
  qed simp
  then show thesis using that by blast
qed

section \<open>Freeing the usable frames\<close>

text \<open>\<open>freed F k s s'\<close>: the frames in \<open>F\<close> became free, the free count grew by \<open>k\<close>.\<close>

definition freed :: "nat set \<Rightarrow> nat \<Rightarrow> ('z) pmm_state_scheme \<Rightarrow> ('z) pmm_state_scheme \<Rightarrow> bool" where
  "freed F k s s' \<longleftrightarrow> bitmap_only (s\<lparr>free_pages := free_pages s + of_nat k\<rparr>) s' \<and>
     (\<forall>i<page_total s. page_used s' i \<longleftrightarrow> i \<notin> F \<and> page_used s i)"

lemma freedD:
  assumes "freed F k s s'"
  shows "page_total s' = page_total s" "bitmap_ok s' = bitmap_ok s" "pmm_bitmap s' = pmm_bitmap s"
    "bitmap_bytes s' = bitmap_bytes s" "free_pages s' = free_pages s + of_nat k"
    "last_used_index s' = last_used_index s" "pmm_lock s' = pmm_lock s"
    "pmm_state.more s' = pmm_state.more s"
proof -
  have only: "bitmap_only (s\<lparr>free_pages := free_pages s + of_nat k\<rparr>) s'"
    using assms by (simp add: freed_def)
  show "page_total s' = page_total s" "bitmap_ok s' = bitmap_ok s" "pmm_bitmap s' = pmm_bitmap s"
    "bitmap_bytes s' = bitmap_bytes s" "free_pages s' = free_pages s + of_nat k"
    "last_used_index s' = last_used_index s" "pmm_lock s' = pmm_lock s"
    "pmm_state.more s' = pmm_state.more s"
    using bitmap_onlyD [OF only] by (simp_all add: bitmap_ok_def)
qed

lemma freed_refl [simp]: "freed {} 0 s s"
  by (simp add: freed_def)

lemma freed_trans:
  assumes "freed F k s s1" and "freed G l s1 s2"
  shows "freed (F \<union> G) (k + l) s s2"
proof -
  have o1: "bitmap_only (s\<lparr>free_pages := free_pages s + of_nat k\<rparr>) s1"
    and o2: "bitmap_only (s1\<lparr>free_pages := free_pages s1 + of_nat l\<rparr>) s2"
    using assms by (simp_all add: freed_def)
  have "bitmap_only (s\<lparr>free_pages := free_pages s + of_nat (k + l)\<rparr>) (s1\<lparr>free_pages := free_pages s1 + of_nat l\<rparr>)"
  proof -
    have "s1 = s\<lparr>free_pages := free_pages s + of_nat k, mem := mem s1\<rparr>"
      using o1 by (simp add: bitmap_only_def)
    then have "s1\<lparr>free_pages := free_pages s1 + of_nat l\<rparr> =
        s\<lparr>free_pages := free_pages s + of_nat (k + l), mem := mem s1\<rparr>"
      using freedD(5) [OF assms(1)] by (metis (no_types, lifting) add.assoc of_nat_add
          pmm_state.surjective pmm_state.update_convs(1,4))
    then show ?thesis using o1 by (simp add: bitmap_only_def)
  qed
  from bitmap_only_trans [OF this o2] show ?thesis
    using assms freedD(1) [OF assms(1)] by (auto simp: freed_def)
qed

lemma freed_one:
  assumes "bitmap_ok s" and "unat i < page_total s"
  shows "freed {unat i} 1 s (bitmap_resetbit i (s\<lparr>free_pages := free_pages s + 1\<rparr>))"
proof -
  let ?s = "s\<lparr>free_pages := free_pages s + 1\<rparr>"
  have s: "bitmap_ok ?s" "unat i < page_total ?s" using assms by (simp_all add: bitmap_ok_def)
  show ?thesis using bitmap_resetbit_only [OF s] page_used_resetbit [OF s]
    by (auto simp: freed_def)
qed

lemma free_region_freed:
  assumes "bitmap_ok s" and "entry_ok e" and "unat (mm_base e) + unat (mm_length e) \<le> 0x1000 * page_total s"
    and "0x1000 dvd j" and "j \<le> unat (mm_length e)"
  shows "freed {(unat (mm_base e) + j) div 0x1000..<(unat (mm_base e) + unat (mm_length e)) div 0x1000}
    ((unat (mm_length e) - j) div 0x1000) s (free_region e j s)"
  using assms
proof (induction e j s rule: free_region.induct)
  case (1 e j s)
  let ?b = "unat (mm_base e)" and ?n = "unat (mm_length e)"
  obtain kb kn kj where k: "?b = 0x1000 * kb" "?n = 0x1000 * kn" "j = 0x1000 * kj"
    using 1(3,5) unfolding entry_ok_def dvd_def by blast
  have mult: "?b + (j + 0x1000) = 0x1000 * Suc (kb + kj)" "?b + ?n = 0x1000 * (kb + kn)"
    "?n - (j + 0x1000) = 0x1000 * (kn - Suc kj)" "?b + j = 0x1000 * (kb + kj)"
    "?n - j = 0x1000 * (kn - kj)"
    unfolding k by simp_all
  show ?case
  proof (cases "j < ?n")
    case True
    let ?i = "(mm_base e + of_nat j) div PAGE_SIZE"
    let ?s = "bitmap_resetbit ?i (s\<lparr>free_pages := free_pages s + 1\<rparr>)"
    have "?b + ?n \<le> 2 ^ 47" using 1(3) by (simp add: entry_ok_def)
    then have "unat (mm_base e + of_nat j) = ?b + j" using True by (intro unat_add_of_nat) simp
    then have i: "unat ?i = kb + kj" using k by (simp add: unat_div)
    have lt: "kj < kn" using True k by simp
    then have "unat ?i < page_total s" using i 1(4) k by simp
    from freed_one [OF 1(2) this] have one: "freed {kb + kj} 1 s ?s" unfolding i .
    note d = freedD [OF one]
    have "freed {(?b + (j + 0x1000)) div 0x1000..<(?b + ?n) div 0x1000} ((?n - (j + 0x1000)) div 0x1000)
      ?s (free_region e (j + 0x1000) ?s)"
      using True 1(2-) lt k d by (intro 1(1)) simp_all
    moreover have "free_region e j s = free_region e (j + 0x1000) ?s"
      using True by (subst free_region.simps) simp
    ultimately have rest: "freed {Suc (kb + kj)..<kb + kn} (kn - Suc kj) ?s (free_region e j s)"
      unfolding mult by (simp only: nonzero_mult_div_cancel_left zero_neq_numeral not_False_eq_True)
    have "{kb + kj} \<union> {Suc (kb + kj)..<kb + kn} = {kb + kj..<kb + kn}" "1 + (kn - Suc kj) = kn - kj"
      using lt by auto
    with freed_trans [OF one rest] show ?thesis
      unfolding mult by (simp only: nonzero_mult_div_cancel_left zero_neq_numeral not_False_eq_True)
  next
    case False
    then have "j = ?n" using 1(6) by simp
    then show ?thesis using False by (subst free_region.simps) simp
  qed
qed

lemma entry_ok_multiples:
  assumes "entry_ok e"
  obtains kb kn where "unat (mm_base e) = 0x1000 * kb" and "unat (mm_length e) = 0x1000 * kn"
    and "0 < kb" and "kb + kn \<le> 2 ^ 35" and "frames_of e = {kb..<kb + kn}"
proof -
  obtain kb kn where k: "unat (mm_base e) = 0x1000 * kb" "unat (mm_length e) = 0x1000 * kn"
    using assms unfolding entry_ok_def dvd_def by blast
  moreover have "0 < kb" "kb + kn \<le> 2 ^ 35" using assms k by (simp_all add: entry_ok_def)
  moreover have "frames_of e = {kb..<kb + kn}"
    unfolding frames_of_def k distrib_left [symmetric] by simp
  ultimately show thesis by (rule that)
qed

lemma usable_frames_Cons:
  "usable_frames (e # es) = (if usable e then frames_of e else {}) \<union> usable_frames es"
  by (auto simp: usable_frames_def)

lemma usable_frames_append: "usable_frames (es @ es') = usable_frames es \<union> usable_frames es'"
  by (auto simp: usable_frames_def)

lemma free_regions_freed:
  assumes "bitmap_ok s"
    and "\<forall>e\<in>set es. usable e \<longrightarrow> entry_ok e \<and> unat (mm_base e) + unat (mm_length e) \<le> 0x1000 * page_total s"
    and "sorted_wrt (\<lambda>e e'. usable e \<longrightarrow> usable e' \<longrightarrow> frames_of e \<inter> frames_of e' = {}) es"
  shows "freed (usable_frames es) (card (usable_frames es)) s (free_regions es s)"
  using assms
proof (induction es arbitrary: s)
  case Nil
  then show ?case by (simp add: usable_frames_def)
next
  case (Cons e es)
  show ?case
  proof (cases "usable e")
    case True
    then have e: "entry_ok e" "unat (mm_base e) + unat (mm_length e) \<le> 0x1000 * page_total s"
      using Cons.prems(2) by auto
    obtain kb kn where k: "unat (mm_base e) = 0x1000 * kb" "unat (mm_length e) = 0x1000 * kn"
      "frames_of e = {kb..<kb + kn}" using entry_ok_multiples [OF e(1)] by metis
    have "freed (frames_of e) ((unat (mm_length e) - 0) div 0x1000) s (free_region e 0 s)"
      using free_region_freed [OF Cons.prems(1) e, of 0] by (simp add: frames_of_def)
    then have one: "freed (frames_of e) (card (frames_of e)) s (free_region e 0 s)"
      unfolding k by simp
    note d = freedD [OF one]
    have "freed (usable_frames es) (card (usable_frames es)) (free_region e 0 s)
        (free_regions es (free_region e 0 s))"
      using Cons.prems d by (intro Cons.IH) auto
    from freed_trans [OF one this]
    have "freed (frames_of e \<union> usable_frames es) (card (frames_of e) + card (usable_frames es)) s
        (free_regions (e # es) s)" using True by (simp add: usable_def)
    moreover have "frames_of e \<inter> usable_frames es = {}"
      using Cons.prems(3) True by (auto simp: usable_frames_def)
    moreover have "finite (usable_frames es)" by (simp add: usable_frames_def frames_of_def)
    ultimately show ?thesis using True k
      by (simp add: usable_frames_Cons card_Un_disjoint)
  next
    case False
    then show ?thesis using Cons by (simp add: usable_frames_Cons usable_def)
  qed
qed

section \<open>The bitmap's own frames\<close>

lemma shrink_entry_multiples:
  assumes "entry_ok e" and "0x1000 dvd unat sz" and "sz \<le> mm_length e"
  shows "entry_ok (shrink_entry sz e)"
    and "unat (mm_base (shrink_entry sz e)) + unat (mm_length (shrink_entry sz e)) =
      unat (mm_base e) + unat (mm_length e)"
    and "frames_of (shrink_entry sz e) =
      frames_of e - {unat (mm_base e) div 0x1000..<(unat (mm_base e) + unat sz) div 0x1000}"
proof -
  obtain kb kn where k: "unat (mm_base e) = 0x1000 * kb" "unat (mm_length e) = 0x1000 * kn"
    "0 < kb" "kb + kn \<le> 2 ^ 35" "frames_of e = {kb..<kb + kn}" using entry_ok_multiples [OF assms(1)] by metis
  obtain ks where ks: "unat sz = 0x1000 * ks" using assms(2) by (auto simp: dvd_def)
  have le: "ks \<le> kn" using assms(3) k(2) ks by (simp add: word_le_nat_alt)
  have "unat (mm_base e + sz) = 0x1000 * (kb + ks)"
    using k ks le by (subst unat_add_small) simp_all
  moreover have "unat (mm_length e - sz) = 0x1000 * (kn - ks)"
    using k ks le by (subst unat_sub_small) (simp_all add: diff_mult_distrib2)
  ultimately have f: "unat (mm_base (shrink_entry sz e)) = 0x1000 * (kb + ks)"
    "unat (mm_length (shrink_entry sz e)) = 0x1000 * (kn - ks)"
    by (simp_all add: shrink_entry_def)
  show ok: "entry_ok (shrink_entry sz e)" using f k le by (simp add: entry_ok_def)
  show "unat (mm_base (shrink_entry sz e)) + unat (mm_length (shrink_entry sz e)) =
      unat (mm_base e) + unat (mm_length e)" using f k le by simp
  have "frames_of (shrink_entry sz e) = {kb + ks..<kb + kn}"
    unfolding frames_of_def f distrib_left [symmetric] using le by simp
  moreover have "(unat (mm_base e) + unat sz) div 0x1000 = kb + ks" "unat (mm_base e) div 0x1000 = kb"
    unfolding k ks distrib_left [symmetric] by simp_all
  ultimately show "frames_of (shrink_entry sz e) =
      frames_of e - {unat (mm_base e) div 0x1000..<(unat (mm_base e) + unat sz) div 0x1000}"
    using k le by auto
qed

lemma filled_page_used:
  assumes "bitmap_ok s" and "i < page_total s" and "bitmap_bytes s \<le> unat sz"
    and "\<And>x. in_range (pmm_bitmap s) (unat sz) x \<Longrightarrow> mem s x = 0xFF"
  shows "page_used s i"
proof -
  have i: "unat (of_nat i :: u64) < page_total s" using page_index [OF assms(1,2)] assms(2) by simp
  note w = bitmap_word_unat [OF assms(1) i]
  let ?a = "bitmap_word s (of_nat i)"
  have "load_bytes (mem s) ?a 8 = load_bytes (\<lambda>_. 0xFF) ?a 8"
  proof (intro load_bytes_cong assms(4))
    fix k :: nat assume "k < 8"
    have b: "unat (pmm_bitmap s) + bitmap_bytes s \<le> 2 ^ 64" using assms(1) by (simp add: bitmap_ok_def)
    then have "unat (?a + of_nat k) = unat ?a + k" using w \<open>k < 8\<close> by (intro unat_add_of_nat) linarith
    then have "in_range (pmm_bitmap s) (bitmap_bytes s) (?a + of_nat k)"
      using w \<open>k < 8\<close> b by (simp add: in_range_unat)
    then show "in_range (pmm_bitmap s) (unat sz) (?a + of_nat k)"
      using assms(3) by (simp add: in_range_def)
  qed
  also have "\<dots> = [0xFF, 0xFF, 0xFF, 0xFF, 0xFF, 0xFF, 0xFF, 0xFF]"
    by (simp add: load_bytes_def upt_rec)
  finally have "load64 (mem s) ?a = - 1" by (simp add: load64_def)
  then show ?thesis by (simp add: page_used_def bitmap_testbit_bit)
qed

lemma boot_bitmap_size_unat:
  assumes "unat (highest_address es 0) \<le> 2 ^ 47" and "P = unat (highest_address es 0) div 0x1000"
  shows "unat (boot_bitmap_size es) = (P div 8 + 0xFFF) div 0x1000 * 0x1000"
proof -
  have "unat (highest_address es 0 div PAGE_SIZE div 8) = P div 8"
    using assms(2) by (simp add: unat_div)
  moreover have "P div 8 + 0x1000 \<le> 2 ^ 64" using assms by simp
  ultimately show ?thesis
    unfolding boot_bitmap_size_def by (subst unat_align_up) simp_all
qed

text \<open>
  The bitmap is sized from the number of frames divided by eight, rounded down before it is rounded
  up to pages.  It covers every frame unless the count exceeds a multiple of 32768 by one to seven.
\<close>

lemma boot_bitmap_size_enough:
  assumes "\<not> (0 < P mod 0x8000 \<and> P mod 0x8000 < 8)"
  shows "8 * ((P + 63) div 64) \<le> (P div 8 + 0xFFF) div 0x1000 * (0x1000 :: nat)"
proof -
  define q r where "q = P div 0x8000" and "r = P mod 0x8000"
  have P: "P = 0x8000 * q + r" and r: "r < 0x8000" by (simp_all add: q_def r_def)
  have "P div 8 = 0x1000 * q + r div 8" unfolding P by simp
  then have "(P div 8 + 0xFFF) div 0x1000 = q + (r div 8 + 0xFFF) div 0x1000" by simp
  moreover have "(P + 63) div 64 = 0x200 * q + (r + 63) div 64" unfolding P by simp
  moreover have "8 * ((r + 63) div 64) \<le> (r div 8 + 0xFFF) div 0x1000 * 0x1000"
  proof (cases "r = 0")
    case False
    then have "1 \<le> r div 8" using assms by (simp add: r_def)
    then have "1 \<le> (r div 8 + 0xFFF) div 0x1000" by simp
    moreover have "(r + 63) div 64 \<le> 0x200" using r by simp
    ultimately show ?thesis by simp
  qed simp
  ultimately show ?thesis by simp
qed

lemma boot_bitmap_size_short:
  assumes "0 < P mod 0x8000" and "P mod 0x8000 < 8"
  shows "(P div 8 + 0xFFF) div 0x1000 * 0x1000 + 8 = (8 * ((P + 63) div 64) :: nat)"
proof -
  define q r where "q = P div 0x8000" and "r = P mod 0x8000"
  have P: "P = 0x8000 * q + r" by (simp add: q_def r_def)
  have r: "0 < r" "r < 8" using assms by (simp_all add: r_def)
  have "P div 8 = 0x1000 * q" unfolding P using r by simp
  moreover have "(P + 63) div 64 = 0x200 * q + (r + 63) div 64" unfolding P by simp
  moreover have "(r + 63) div 64 = 1" using r by simp
  ultimately show ?thesis by simp
qed

lemma usable_frames_shrunk:
  assumes "memmap_ok (pre @ e # post)" and "usable e" and "B = frames_of e - frames_of e'"
    and "usable e'" and "frames_of e' \<subseteq> frames_of e"
  shows "usable_frames (pre @ e' # post) = usable_frames (pre @ e # post) - B"
proof -
  have "frames_of e \<inter> usable_frames pre = {}" "frames_of e \<inter> usable_frames post = {}"
    using assms(1,2) by (auto simp: memmap_ok_def sorted_wrt_append usable_frames_def)
  then show ?thesis using assms(2-)
    by (auto simp: usable_frames_append usable_frames_Cons)
qed

text \<open>The state \<^verbatim>\<open>pmm_init\<close> has built when all frames are still marked used.\<close>

lemma place_bitmap_inv:
  assumes "entry_ok e" and "sz \<le> mm_length e" and "bitmap_bytes s \<le> unat sz"
    and "page_total s \<le> 2 ^ 35"
    and "s' = s\<lparr>pmm_bitmap := mm_base e + HIGHER_HALF,
        mem := snd (memset (mem s) (mm_base e + HIGHER_HALF) 0xFF sz)\<rparr>"
  shows "bitmap_ok s'" and "\<forall>i<page_total s. page_used s' i"
    and "pmm_bitmap s' = frame_addr (unat (mm_base e) div 0x1000)"
proof -
  obtain kb kn where k: "unat (mm_base e) = 0x1000 * kb" "unat (mm_length e) = 0x1000 * kn"
    "kb + kn \<le> 2 ^ 35" "0 < kb" using entry_ok_multiples [OF assms(1)] by metis
  have f: "page_total s' = page_total s" "bitmap_bytes s' = bitmap_bytes s"
    by (simp_all add: assms(5) page_total_def bitmap_bytes_def)
  have "unat (of_nat kb * PAGE_SIZE) = unat (mm_base e)"
    using k by (simp add: unat_mult_small unat_of_nat_u64)
  then have base: "mm_base e = of_nat kb * PAGE_SIZE" by (simp add: unat_inject)
  then show b: "pmm_bitmap s' = frame_addr (unat (mm_base e) div 0x1000)"
    using k by (simp add: assms(5) frame_addr_def add.commute)
  show ok: "bitmap_ok s'"
  proof (cases "kb < 2 ^ 35")
    case True
    have "unat sz \<le> 0x1000 * kn" using assms(2) k(2) by (simp add: word_le_nat_alt)
    then show ?thesis using True b f k assms(3,4) by (simp add: bitmap_ok_def unat_frame_addr)
  next
    case False
    then have "unat (mm_length e) = 0" using k by simp
    then have "bitmap_bytes s = 0" using assms(2,3) by (simp add: word_le_nat_alt)
    then show ?thesis using assms(4) f unat_u64_bound [of "pmm_bitmap s'"]
      by (simp add: bitmap_ok_def)
  qed
  have "mem s' x = 0xFF" if "in_range (pmm_bitmap s') (unat sz) x" for x
    using that by (simp add: assms(5) memset_apply)
  then show "\<forall>i<page_total s. page_used s' i"
    using filled_page_used [OF ok, where sz = sz] f assms(3) by simp
qed

lemma bitmap_frames_disjoint:
  assumes "entry_ok e" and "0x1000 dvd unat sz" and "unat sz \<le> unat (mm_length e)" and "n \<le> unat sz"
    and "i < 2 ^ 35" and "i \<notin> {unat (mm_base e) div 0x1000..<(unat (mm_base e) + unat sz) div 0x1000}"
  shows "disjoint_regions (frame_addr i) 0x1000 (frame_addr (unat (mm_base e) div 0x1000)) n"
proof (cases "n = 0")
  case False
  obtain kb kn where k: "unat (mm_base e) = 0x1000 * kb" "unat (mm_length e) = 0x1000 * kn"
    "kb + kn \<le> 2 ^ 35" using entry_ok_multiples [OF assms(1)] by metis
  obtain ks where ks: "unat sz = 0x1000 * ks" using assms(2) by (auto simp: dvd_def)
  have le: "ks \<le> kn" "0 < ks" using assms(3,4) k ks False by auto
  have "(unat (mm_base e) + unat sz) div 0x1000 = kb + ks" "unat (mm_base e) div 0x1000 = kb"
    unfolding k ks distrib_left [symmetric] by simp_all
  then have i: "i < kb \<or> kb + ks \<le> i" using assms(6) by auto
  show ?thesis
  proof (rule disjoint_regionsI)
    have kb: "unat (mm_base e) div 0x1000 = kb" "kb < 2 ^ 35" using k le by auto
    note a = unat_frame_addr [OF assms(5)] unat_frame_addr [OF kb(2)]
    show "unat (frame_addr i) + 0x1000 \<le> 2 ^ 64" using a assms(5) by simp
    show "unat (frame_addr (unat (mm_base e) div 0x1000)) + n \<le> 2 ^ 64"
      unfolding kb a using k ks le assms(4) by simp
    show "unat (frame_addr i) + 0x1000 \<le> unat (frame_addr (unat (mm_base e) div 0x1000)) \<or>
      unat (frame_addr (unat (mm_base e) div 0x1000)) + n \<le> unat (frame_addr i)"
      unfolding kb a using i ks assms(4) by auto
  qed
qed (simp add: disjoint_regions_def in_range_def)

lemma memmap_frames:
  assumes "memmap_ok es" and "P = unat (highest_address es 0) div 0x1000" and "e \<in> set es" and "usable e"
  shows "unat (mm_base e) + unat (mm_length e) \<le> 0x1000 * P" and "frames_of e \<subseteq> {0<..<P}"
proof -
  have ok: "entry_ok e" using assms by (simp add: memmap_ok_def)
  obtain kb kn where k: "unat (mm_base e) = 0x1000 * kb" "unat (mm_length e) = 0x1000 * kn"
    "0 < kb" "frames_of e = {kb..<kb + kn}" using entry_ok_multiples [OF ok] by metis
  have "unat (mm_base e) + unat (mm_length e) \<le> unat (highest_address es 0)"
    using assms highest_address_bounds(3) [of es 0] by (simp add: memmap_ok_def)
  then have "kb + kn \<le> P" unfolding assms(2) k distrib_left [symmetric]
    by (metis div_le_mono nonzero_mult_div_cancel_left zero_neq_numeral)
  then show "unat (mm_base e) + unat (mm_length e) \<le> 0x1000 * P" "frames_of e \<subseteq> {0<..<P}"
    using k by auto
qed

lemma memmap_ok_replace:
  assumes "memmap_ok (pre @ e # post)" and "usable e" and "entry_ok e'"
    and "frames_of e' \<subseteq> frames_of e"
    and "unat (mm_base e') + unat (mm_length e') \<le> unat (mm_base e) + unat (mm_length e)"
  shows "memmap_ok (pre @ e' # post)"
proof -
  have "\<forall>x\<in>set pre. usable x \<longrightarrow> frames_of x \<inter> frames_of e = {}"
    "\<forall>x\<in>set post. usable x \<longrightarrow> frames_of e \<inter> frames_of x = {}"
    using assms(1,2) by (simp_all add: memmap_ok_def sorted_wrt_append)
  then have "\<forall>x\<in>set pre. usable x \<longrightarrow> frames_of x \<inter> frames_of e' = {}"
    "\<forall>x\<in>set post. usable x \<longrightarrow> frames_of e' \<inter> frames_of x = {}"
    using assms(4) by blast+
  then show ?thesis using assms(1,3,5) by (simp add: memmap_ok_def sorted_wrt_append)
qed

lemma boot_state_ok:
  assumes "freed F (card F) s3 s'" and "bitmap_ok s3" and "\<forall>i<page_total s3. page_used s3 i"
    and "F \<subseteq> {0<..<page_total s3}" and "free_pages s3 = 0" and "last_used_index s3 = 0"
    and "lock_idle (pmm_lock s3)" and "0 < page_total s3"
    and "\<And>i. i \<in> F \<Longrightarrow> disjoint_regions (frame_addr i) 0x1000 (pmm_bitmap s3) (bitmap_bytes s3)"
  shows "pmm_wf s'" and "pmm_accounted s'" and "free_frames s' = F"
proof -
  note d = freedD [OF assms(1)]
  have used: "page_used s' i \<longleftrightarrow> i \<notin> F" if "i < page_total s3" for i
    using assms(1,3) that by (simp add: freed_def)
  then show free: "free_frames s' = F" using assms(4) d by (auto simp: free_frames_def)
  have "card F \<le> page_total s3" using card_mono [of "{0<..<page_total s3}" F] assms(4) by simp
  then have "card F < 2 ^ 64" using assms(2) by (simp add: bitmap_ok_def)
  then show "pmm_accounted s'" using d free assms(5) by (simp add: pmm_accounted_def unat_of_nat_u64)
  have "0 \<notin> F" using assms(4) by auto
  then show "pmm_wf s'" using used assms d by (simp add: pmm_wf_def pmm_inv_def)
qed

lemma pmm_init_bitmap_spec:
  assumes "memmap_ok es" and "\<exists>e\<in>set es. usable e \<and> 0 < mm_length e \<and> boot_bitmap_size es \<le> mm_length e"
    and "P = unat (highest_address es 0) div 0x1000" and "\<not> (0 < P mod 0x8000 \<and> P mod 0x8000 < 8)"
    and "free_pages s = 0" and "last_used_index s = 0"
    and "pmm_init_bitmap es s = (es', s')"
  shows "\<exists>f. pmm_bitmap s' = frame_addr f \<and> pmm_wf s' \<and> pmm_accounted s' \<and> page_total s' = P \<and>
    free_frames s' = usable_frames es - {f..<f + unat (boot_bitmap_size es) div 0x1000} \<and>
    {f..<f + unat (boot_bitmap_size es) div 0x1000} \<subseteq> usable_frames es \<and>
    bitmap_bytes s' \<le> unat (boot_bitmap_size es)"
proof -
  let ?sz = "boot_bitmap_size es" and ?hi = "highest_address es 0"
  have hi: "unat ?hi \<le> 2 ^ 47"
    "\<forall>e\<in>set es. usable e \<longrightarrow> unat (mm_base e) + unat (mm_length e) \<le> unat ?hi"
    using assms(1) highest_address_bounds [of es 0] by (simp_all add: memmap_ok_def)
  have le35: "P \<le> 2 ^ 35" using hi(1) by (simp add: assms(3))
  note sz = boot_bitmap_size_unat [OF hi(1) assms(3)]
  have dvd: "0x1000 dvd unat ?sz" unfolding sz by simp
  define s2 where "s2 = s\<lparr>pmm_lock := LOCK_INITIALIZER (Some ''pmm_lock''), pmm_page_count := ?hi div PAGE_SIZE\<rparr>"
  have tot: "page_total s2 = P" by (simp add: s2_def page_total_def unat_div assms(3))
  have bytes: "bitmap_bytes s2 \<le> unat ?sz"
    unfolding bitmap_bytes_def tot sz by (rule boot_bitmap_size_enough [OF assms(4)])
  have "\<exists>e\<in>set es. usable e \<and> ?sz \<le> mm_length e" using assms(2) by blast
  from place_bitmap_spec [OF this, of s2] obtain pre e post where es: "es = pre @ e # post"
    and e: "usable e" "?sz \<le> mm_length e"
    and place: "place_bitmap ?sz es s2 = (pre @ shrink_entry ?sz e # post,
      s2\<lparr>pmm_bitmap := mm_base e + HIGHER_HALF,
        mem := snd (memset (mem s2) (mm_base e + HIGHER_HALF) 0xFF ?sz)\<rparr>)" by blast
  define e' where "e' = shrink_entry ?sz e"
  define s3 where "s3 = s2\<lparr>pmm_bitmap := mm_base e + HIGHER_HALF,
        mem := snd (memset (mem s2) (mm_base e + HIGHER_HALF) 0xFF ?sz)\<rparr>"
  have s': "s' = free_regions (pre @ e' # post) s3" "es' = pre @ e' # post"
    using assms(7) place by (auto simp: pmm_init_bitmap_def Let_def s2_def s3_def e'_def boot_bitmap_size_def)
  have ok: "entry_ok e" using assms(1) e es by (simp add: memmap_ok_def)
  note shr = shrink_entry_multiples [OF ok dvd e(2), folded e'_def]
  note s3 = place_bitmap_inv [OF ok e(2) bytes le35 [folded tot] s3_def]
  have tot3: "page_total s3 = P" "bitmap_bytes s3 = bitmap_bytes s2" "free_pages s3 = 0"
    "last_used_index s3 = 0" "lock_idle (pmm_lock s3)"
    using tot by (simp_all add: s3_def page_total_def bitmap_bytes_def s2_def assms(5,6))
  have map': "memmap_ok es'"
    using memmap_ok_replace [of pre e post e'] assms(1) es e(1) shr s'(2) by auto
  have "usable e'" using e(1) by (simp add: e'_def shrink_entry_def usable_def)
  have fits: "unat (mm_base x) + unat (mm_length x) \<le> 0x1000 * page_total s3"
    if "x \<in> set es'" "usable x" for x
    using that memmap_frames(1) [OF assms(1,3)] shr(2) es e(1) s'(2) tot3(1) by auto
  have freed: "freed (usable_frames es') (card (usable_frames es')) s3 s'"
    unfolding s'(1) s'(2) [symmetric]
    using map' fits by (intro free_regions_freed [OF s3(1)]) (auto simp: memmap_ok_def)
  define f where "f = unat (mm_base e) div 0x1000"
  define B where "B = {f..<(unat (mm_base e) + unat ?sz) div 0x1000}"
  have sub: "usable_frames es \<subseteq> {0<..<P}"
    using memmap_frames(2) [OF assms(1,3)] by (auto simp: usable_frames_def)
  have "(unat (mm_base e) + unat ?sz) div 0x1000 \<le> (unat (mm_base e) + unat (mm_length e)) div 0x1000"
    using e(2) by (intro div_le_mono) (simp add: word_le_nat_alt)
  then have "B \<subseteq> frames_of e" by (auto simp: B_def f_def frames_of_def)
  then have "B = frames_of e - frames_of e'" using shr(3) by (auto simp: B_def f_def)
  then have uf: "usable_frames es' = usable_frames es - B"
    unfolding es s'(2) using assms(1) e(1) \<open>usable e'\<close> shr(3) es
    by (intro usable_frames_shrunk) auto
  have B: "B = {f..<f + unat ?sz div 0x1000}"
    using dvd ok by (simp add: B_def f_def entry_ok_def div_plus_div_distrib_dvd_left)
  have apart: "disjoint_regions (frame_addr i) 0x1000 (frame_addr f) (bitmap_bytes s2)"
    if "i < P" "i \<notin> B" for i
    unfolding f_def using that e(2) bytes le35 ok dvd
    by (intro bitmap_frames_disjoint [where sz = ?sz]) (auto simp: B_def f_def word_le_nat_alt)
  have "0 < P" using assms(2) memmap_frames(1) [OF assms(1,3)] assms(1)
    by (fastforce simp: memmap_ok_def entry_ok_def)
  then have pos: "0 < page_total s3" by (simp add: tot3)
  have used: "\<forall>i<page_total s3. page_used s3 i" using s3(2) tot tot3 by simp
  have F: "usable_frames es' \<subseteq> {0<..<page_total s3}" using sub uf tot3 by auto
  have ap: "disjoint_regions (frame_addr i) 0x1000 (pmm_bitmap s3) (bitmap_bytes s3)"
    if "i \<in> usable_frames es'" for i
    using that apart [of i] sub uf s3(3) tot3(2) by (auto simp: f_def)
  note boot = boot_state_ok [OF freed s3(1) used F tot3(3-5) pos ap]
  have "pmm_bitmap s' = frame_addr f" "page_total s' = P"
    using freedD [OF freed] tot3 s3(3) by (simp_all add: f_def)
  moreover have "B \<subseteq> usable_frames es"
    using \<open>B \<subseteq> frames_of e\<close> e(1) es by (auto simp: usable_frames_def)
  moreover have "bitmap_bytes s' \<le> unat ?sz" using freedD(4) [OF freed] bytes tot3(2) by simp
  ultimately show ?thesis using boot uf B by blast
qed


section \<open>A small explicit state\<close>

text \<open>Eight frames, the bitmap word \<open>w\<close> at the start of frame 1.\<close>

definition demo_pmm :: "u64 \<Rightarrow> u64 \<Rightarrow> u64 \<Rightarrow> pmm_state" where
  "demo_pmm w cursor nfree = \<lparr>mem = store64 (\<lambda>_. 0) 0xFFFF800000001000 w, pmm_page_count = 8,
     pmm_bitmap = 0xFFFF800000001000, free_pages = nfree, last_used_index = cursor,
     pmm_lock = LOCK_INITIALIZER None\<rparr>"

lemma demo_page_total [simp]: "page_total (demo_pmm w cursor nfree) = 8"
  by (simp add: demo_pmm_def page_total_def)

lemma demo_page_used: "i < 8 \<Longrightarrow> page_used (demo_pmm w cursor nfree) i = bit w i"
  by (simp add: page_used_def bitmap_testbit_bit demo_pmm_def bitmap_word_def unat_of_nat_u64
      word_arith_nat_div)

lemma demo_pmm_wf:
  assumes "bit w 0" and "bit w 1" and "cursor \<le> 8"
  shows "pmm_wf (demo_pmm w cursor nfree)"
proof -
  have "disjoint_regions (frame_addr i) 0x1000 0xFFFF800000001000 8" if "i < 8" "\<not> bit w i" for i
  proof -
    have "i \<noteq> 1" using that(2) assms(2) by auto
    then show ?thesis using that(1) by (intro disjoint_regionsI) (auto simp: unat_frame_addr)
  qed
  then show ?thesis using assms
    by (simp add: pmm_wf_def pmm_inv_def demo_page_used bitmap_ok_def bitmap_bytes_def word_le_nat_alt)
      (simp add: demo_pmm_def)
qed

lemma run_free_two: "run_free s a 2 \<longleftrightarrow> \<not> page_used s a \<and> \<not> page_used s (Suc a)"
  by (auto simp: run_free_def less_2_cases_iff)

lemma demo_next_fit: "next_fit 2 (demo_pmm 0x0B 2 5) = Some 4"
proof -
  have "last_used_index (demo_pmm 0x0B 2 5) = 2" by (simp add: demo_pmm_def)
  then show ?thesis by (simp add: next_fit_def upt_rec run_free_two demo_page_used bit_0 bit_Suc)
qed

lemma demo_free_frames: "free_frames (demo_pmm 0x0B 2 5) = {2, 4, 5, 6, 7}"
proof -
  have "free_frames s = set (filter (\<lambda>i. \<not> page_used s i) [0..<page_total s])" for s :: pmm_state
    by (auto simp: free_frames_def)
  moreover have "filter (\<lambda>i. \<not> page_used (demo_pmm 0x0B 2 5) i) [0..<8] = [2, 4, 5, 6, 7]"
    by (simp add: upt_rec demo_page_used bit_0 bit_Suc)
  ultimately show ?thesis by (simp only: demo_page_total list.set)
qed

text \<open>
  A free run that contains the cursor is found by neither of the two searches, so the allocator can
  report exhaustion while frames 4 and 5 are free.
\<close>

theorem pmm_alloc_misses_straddling_run:
  "run_free (demo_pmm 0xCF 5 2) 4 2 \<and> pmm_wf (demo_pmm 0xCF 5 2) \<and>
   pmm_alloc c 2 (demo_pmm 0xCF 5 2) = Inl (Panic ''Kernel OOM'')"
proof -
  have cur: "last_used_index (demo_pmm 0xCF 5 2) = 5" by (simp add: demo_pmm_def)
  have "next_fit 2 (demo_pmm 0xCF 5 2) = None"
    by (simp add: next_fit_def cur upt_rec run_free_two demo_page_used bit_0 bit_Suc)
  moreover have "pmm_wf (demo_pmm 0xCF 5 2)" by (rule demo_pmm_wf) (simp_all add: bit_0 bit_Suc)
  ultimately show ?thesis using pmm_alloc_spec [of "demo_pmm 0xCF 5 2" 2 c]
    by (simp add: run_free_two demo_page_used bit_0 bit_Suc)
qed


theorem pmm_alloc_free_roundtrip_witness:
  "\<exists>ret s1 s2. pmm_alloc (debug_cpu 0) 2 (demo_pmm 0x0B 2 5) = Inr (ret, s1) \<and>
     pmm_free (debug_cpu 0) ret 2 s1 = Inr s2 \<and> free_frames s2 = {2, 4, 5, 6, 7}"
proof -
  have wf: "pmm_wf (demo_pmm 0x0B 2 5)" by (rule demo_pmm_wf) (simp_all add: bit_0 bit_Suc)
  have acc: "pmm_accounted (demo_pmm 0x0B 2 5)"
    by (simp add: pmm_accounted_def demo_free_frames) (simp add: demo_pmm_def)
  obtain s1 where s1: "pmm_alloc (debug_cpu 0) 2 (demo_pmm 0x0B 2 5) = Inr (0x4000, s1)"
    using pmm_alloc_spec [OF wf, of 2 "debug_cpu 0"] by (auto simp: demo_next_fit)
  have "(0 :: u64) < 2" by simp
  from pmm_alloc_free_roundtrip [OF wf acc this s1] s1 show ?thesis by (auto simp: demo_free_frames)
qed

text \<open>One mebibyte of usable memory above frame 0.\<close>

definition demo_memmap :: "memmap_entry list" where
  "demo_memmap = [\<lparr>mm_base = 0x1000, mm_length = 0x100000, mm_type = 0\<rparr>]"

lemma demo_memmap_facts:
  "memmap_ok demo_memmap" "highest_address demo_memmap 0 = 0x101000"
  "boot_bitmap_size demo_memmap = 0x1000" "usable_frames demo_memmap = {1..<257}"
  by (simp_all add: demo_memmap_def memmap_ok_def entry_ok_def frames_of_def usable_def
      boot_bitmap_size_def align_up_def usable_frames_def)


end
