(* ===== verification/Slab.thy ===== *)
theory Slab
  imports Pmm
begin

text \<open>
  The slab allocator of \<^verbatim>\<open>kernel/src/mem/slaballoc.c\<close>.

  The ten \<^verbatim>\<open>slab_t\<close> structures and the free lists threaded through the free blocks live in byte memory
  and are read and written through pointers, as in the code: \<open>slabs\<close> is the link-time address of the
  table, a structure is 16 bytes (\<^verbatim>\<open>first_free\<close> at 0, \<^verbatim>\<open>ent_size\<close> at 8), a slab page starts with an
  8-byte pointer to its structure.  The abstraction is, for each slab, the set of frames it owns and
  the list of its free blocks; the operations are shown to push to and pop from that list and to
  write nothing that belongs to anyone else.
\<close>

section \<open>State and memory access\<close>

record slab_state = pmm_state +
  slabs :: addr
  slab_lock :: lock_t

definition ld64 :: "('z) pmm_state_scheme \<Rightarrow> addr \<Rightarrow> u64" where
  "ld64 s a = load64 (mem s) a"

definition st64 :: "addr \<Rightarrow> u64 \<Rightarrow> ('z) pmm_state_scheme \<Rightarrow> ('z) pmm_state_scheme" where
  "st64 a v s = s\<lparr>mem := store64 (mem s) a v\<rparr>"

definition SLAB_COUNT :: nat where "SLAB_COUNT = 10"

section \<open>The operations\<close>

function link_blocks ::
  "u64 \<Rightarrow> u64 \<Rightarrow> addr \<Rightarrow> u64 \<Rightarrow> ('z) pmm_state_scheme \<Rightarrow> ('z) pmm_state_scheme" where
  "link_blocks i mx arr factor s =
     (if i < mx
      then link_blocks (i + 1) mx arr factor (st64 (arr + i * factor * 8) (arr + (i + 1) * factor * 8) s)
      else s)"
  by pat_completeness auto
termination
  by (relation "measure (\<lambda>(i, mx, arr, factor, s). unat mx - unat i)")
    (auto simp: unat_Suc_less word_less_nat_alt)

declare link_blocks.simps [simp del]

text \<open>\<^verbatim>\<open>init_slab\<close> after its call of \<^verbatim>\<open>pmm_alloc\<close> returned \<^verbatim>\<open>p\<close>.\<close>

definition carve_page :: "addr \<Rightarrow> u64 \<Rightarrow> addr \<Rightarrow> ('z) pmm_state_scheme \<Rightarrow> ('z) pmm_state_scheme" where
  "carve_page slab ent_size p s =
     (let s1 = st64 slab p s;
          s2 = st64 slab (ld64 s1 slab + HIGHER_HALF) s1;
          avl_size = PAGE_SIZE - align_up 8 ent_size;
          slabptr = ld64 s2 slab;
          s3 = st64 slabptr slab s2;
          s4 = st64 slab (ld64 s3 slab + align_up 8 ent_size) s3;
          arr = ld64 s4 slab;
          mx = avl_size div ent_size - 1;
          factor = ent_size div 8;
          s5 = link_blocks 0 mx arr factor s4
      in st64 (arr + mx * factor * 8) 0 s5)"

definition init_slab ::
  "cpu_ctx \<Rightarrow> addr \<Rightarrow> u64 \<Rightarrow> ('z) slab_state_scheme \<Rightarrow> kstop + ('z) slab_state_scheme" where
  "init_slab c slab ent_size s =
     bindR (pmm_alloc c 1 (st64 (slab + 8) ent_size s)) (\<lambda>(p, s1).
       Inr (carve_page slab ent_size p s1))"

definition slab_sizes :: "u64 list" where
  "slab_sizes = [8, 16, 24, 32, 48, 64, 128, 256, 512, 1024]"

definition slab_ptr :: "('z) slab_state_scheme \<Rightarrow> nat \<Rightarrow> addr" where
  "slab_ptr s i = slabs s + of_nat (16 * i)"

primrec init_slabs ::
  "cpu_ctx \<Rightarrow> nat \<Rightarrow> u64 list \<Rightarrow> ('z) slab_state_scheme \<Rightarrow> kstop + ('z) slab_state_scheme" where
  "init_slabs c i [] s = Inr s"
| "init_slabs c i (e # es) s = bindR (init_slab c (slab_ptr s i) e s) (init_slabs c (i + 1) es)"

definition slaballoc_init :: "cpu_ctx \<Rightarrow> ('z) slab_state_scheme \<Rightarrow> kstop + ('z) slab_state_scheme" where
  "slaballoc_init c s = init_slabs c 0 slab_sizes s"

definition find_slab :: "u64 \<Rightarrow> ('z) slab_state_scheme \<Rightarrow> addr" where
  "find_slab sz s =
     (case List.find (\<lambda>i. ld64 s (slab_ptr s i + 8) \<ge> sz) [0..<SLAB_COUNT] of
        Some i \<Rightarrow> slab_ptr s i
      | None \<Rightarrow> 0)"

definition slab_alloc ::
  "cpu_ctx \<Rightarrow> addr \<Rightarrow> ('z) slab_state_scheme \<Rightarrow> kstop + (addr \<times> ('z) slab_state_scheme)" where
  "slab_alloc c slab s =
     bindR (lock_acquire c ''slab_alloc'' (slab_lock s)) (\<lambda>l.
       let s1 = s\<lparr>slab_lock := l\<rparr>
       in bindR (if ld64 s1 slab = 0 then init_slab c slab (ld64 s1 (slab + 8)) s1 else Inr s1) (\<lambda>s2.
         let old_free = ld64 s2 slab;
             s3 = st64 slab (ld64 s2 old_free) s2;
             s4 = s3\<lparr>mem := snd (memset (mem s3) old_free 0 (ld64 s3 (slab + 8)))\<rparr>
         in bindR (lock_release c (slab_lock s4)) (\<lambda>l2. Inr (old_free, s4\<lparr>slab_lock := l2\<rparr>))))"

definition slab_free ::
  "cpu_ctx \<Rightarrow> addr \<Rightarrow> addr \<Rightarrow> ('z) slab_state_scheme \<Rightarrow> kstop + ('z) slab_state_scheme" where
  "slab_free c slab ptr s =
     bindR (lock_acquire c ''slab_free'' (slab_lock s)) (\<lambda>l.
       let s1 = s\<lparr>slab_lock := l\<rparr>
       in if ptr = 0
          then bindR (lock_release c (slab_lock s1)) (\<lambda>l2. Inr (s1\<lparr>slab_lock := l2\<rparr>))
          else
            (let s2 = st64 ptr (ld64 s1 slab) s1;
                 s3 = st64 slab ptr s2
             in bindR (lock_release c (slab_lock s3)) (\<lambda>l2. Inr (s3\<lparr>slab_lock := l2\<rparr>))))"

text \<open>\<^verbatim>\<open>pmm_init\<close> ends with the call of \<^verbatim>\<open>slaballoc_init\<close>.\<close>

definition pmm_init ::
  "cpu_ctx \<Rightarrow> memmap_entry list \<Rightarrow> ('z) slab_state_scheme \<Rightarrow> kstop + (memmap_entry list \<times> ('z) slab_state_scheme)" where
  "pmm_init c entries s =
     (let (entries1, s1) = pmm_init_bitmap entries s
      in bindR (slaballoc_init c s1) (\<lambda>s2. Inr (entries1, s2)))"

section \<open>Addresses inside a frame\<close>

definition in_frame :: "nat \<Rightarrow> nat \<Rightarrow> addr" where
  "in_frame f off = frame_addr f + of_nat off"

lemma in_frame_unat:
  "f < 2 ^ 35 \<Longrightarrow> off < 0x1000 \<Longrightarrow> unat (in_frame f off) = 0xFFFF800000000000 + 0x1000 * f + off"
  unfolding in_frame_def by (subst unat_add_of_nat) (simp_all add: unat_frame_addr)

lemma in_frame_range:
  assumes "f < 2 ^ 35" and "off + n \<le> 0x1000" and "in_range (in_frame f off) n x"
  shows "in_range (frame_addr f) 0x1000 x"
proof -
  have "0 < n" using assms(3) by (auto simp: in_range_def)
  then have u: "unat (in_frame f off) = 0xFFFF800000000000 + 0x1000 * f + off"
    using assms(1,2) by (intro in_frame_unat) auto
  have "unat (in_frame f off) + n \<le> 2 ^ 64" using assms(1,2) u by simp
  then show ?thesis using assms(1,2,3) u by (simp add: in_range_unat unat_frame_addr)
qed

lemma in_frame_disjoint:
  assumes "f < 2 ^ 35" and "g < 2 ^ 35" and "a + n \<le> 0x1000" and "b + k \<le> 0x1000"
    and "f \<noteq> g \<or> a + n \<le> b \<or> b + k \<le> a"
  shows "disjoint_regions (in_frame f a) n (in_frame g b) k"
proof (cases "n = 0 \<or> k = 0")
  case False
  then have u: "unat (in_frame f a) = 0xFFFF800000000000 + 0x1000 * f + a"
    "unat (in_frame g b) = 0xFFFF800000000000 + 0x1000 * g + b"
    using assms(1-4) by (simp_all add: in_frame_unat)
  show ?thesis
  proof (rule disjoint_regionsI)
    show "unat (in_frame f a) + n \<le> 2 ^ 64" "unat (in_frame g b) + k \<le> 2 ^ 64"
      using u assms(1-4) by simp_all
    consider "f < g" | "g < f" | "f = g" by linarith
    then show "unat (in_frame f a) + n \<le> unat (in_frame g b) \<or>
        unat (in_frame g b) + k \<le> unat (in_frame f a)"
      unfolding u using assms(3-5) by cases auto
  qed
qed (auto simp: disjoint_regions_def in_range_def)

section \<open>The size classes\<close>

definition ent :: "nat \<Rightarrow> nat" where
  "ent i = unat (slab_sizes ! i)"

definition nblocks :: "nat \<Rightarrow> nat" where
  "nblocks i = (0x1000 - ent i) div ent i"

definition block :: "nat \<Rightarrow> nat \<Rightarrow> nat \<Rightarrow> addr" where
  "block i f k = in_frame f (ent i * (k + 1))"

definition blocks :: "nat \<Rightarrow> nat set \<Rightarrow> addr set" where
  "blocks i A = {block i f k | f k. f \<in> A \<and> k < nblocks i}"

lemma slab_index_cases:
  assumes "i < SLAB_COUNT"
  shows "i = 0 \<or> i = 1 \<or> i = 2 \<or> i = 3 \<or> i = 4 \<or> i = 5 \<or> i = 6 \<or> i = 7 \<or> i = 8 \<or> i = 9"
  using assms unfolding SLAB_COUNT_def by arith

lemma ent_values:
  assumes "i < SLAB_COUNT"
  shows "8 dvd ent i" "8 \<le> ent i" "ent i \<le> 0x400" "slab_sizes ! i = of_nat (ent i)"
  using slab_index_cases [OF assms] by (auto simp: ent_def slab_sizes_def)

lemma nblocks_values:
  assumes "i < SLAB_COUNT"
  shows "3 \<le> nblocks i" "ent i * (nblocks i + 1) \<le> 0x1000" "nblocks i < 0x200"
  using slab_index_cases [OF assms] by (auto simp: nblocks_def ent_def slab_sizes_def)

lemma block_fits:
  assumes "i < SLAB_COUNT" and "k < nblocks i"
  shows "ent i * (k + 1) + ent i \<le> 0x1000" and "0 < ent i * (k + 1)"
proof -
  have "ent i * (k + 1) + ent i = ent i * (k + 2)" by simp
  also have "\<dots> \<le> ent i * (nblocks i + 1)" using assms(2) by (intro mult_le_mono2) simp
  also have "\<dots> \<le> 0x1000" by (rule nblocks_values(2) [OF assms(1)])
  finally show "ent i * (k + 1) + ent i \<le> 0x1000" .
  show "0 < ent i * (k + 1)" using ent_values(2) [OF assms(1)] by simp
qed

lemma block_apart: "j < k \<Longrightarrow> (e :: nat) * (j + 1) + e \<le> e * (k + 1)"
proof -
  assume "j < k"
  then have "e * (j + 2) \<le> e * (k + 1)" by (intro mult_le_mono2) simp
  then show ?thesis by simp
qed

lemma block_disjoint:
  assumes "i < SLAB_COUNT" and "j < SLAB_COUNT" and "k < nblocks i" and "l < nblocks j"
    and "f < 2 ^ 35" and "g < 2 ^ 35" and "f \<noteq> g \<or> i = j \<and> k \<noteq> l"
  shows "disjoint_regions (block i f k) (ent i) (block j g l) (ent j)"
  unfolding block_def
  using block_fits(1) [OF assms(1,3)] block_fits(1) [OF assms(2,4)] assms(5-)
    block_apart [of k l "ent i"] block_apart [of l k "ent i"]
  by (intro in_frame_disjoint) (auto simp: nat_neq_iff)

lemma block_inject:
  assumes "i < SLAB_COUNT" and "k < nblocks i" and "l < nblocks i" and "f < 2 ^ 35" and "g < 2 ^ 35"
  shows "block i f k = block i g l \<longleftrightarrow> f = g \<and> k = l"
proof
  have e: "0 < ent i" using ent_values(2) [OF assms(1)] by simp
  assume eq: "block i f k = block i g l"
  show "f = g \<and> k = l"
  proof (rule ccontr)
    assume "\<not> (f = g \<and> k = l)"
    then have "disjoint_regions (block i f k) (ent i) (block i g l) (ent i)"
      using assms by (intro block_disjoint) auto
    then show False using eq e by (auto simp: disjoint_regions_def in_range_def dest: spec [of _ "block i g l"])
  qed
qed simp

text \<open>
  No block starts on a page boundary, and clearing the low twelve bits of a block's address gives the
  start of its page: what \<^verbatim>\<open>free\<close> and \<^verbatim>\<open>realloc\<close> rely on to tell blocks from page allocations.
\<close>

lemma in_frame_bits:
  assumes "f < 2 ^ 35" and "off < 0x1000"
  shows "in_frame f off AND 0xFFF = of_nat off" and "in_frame f off AND NOT 0xFFF = frame_addr f"
proof -
  have m: "(0xFFF :: u64) = mask 12" by (simp add: mask_eq_exp_minus_1)
  have u: "unat (in_frame f off) = off + (0xFFFF800000000 + f) * 0x1000"
    using in_frame_unat [OF assms] by simp
  have "unat (in_frame f off AND 0xFFF) = unat (in_frame f off) mod 0x1000"
    unfolding m by (simp add: take_bit_eq_mask [symmetric] unsigned_take_bit_eq take_bit_nat_def)
  also have "\<dots> = off" unfolding u using assms(2) by (simp only: mod_mult_self1 mod_less)
  finally have lo: "unat (in_frame f off AND 0xFFF) = off" .
  then show eq: "in_frame f off AND 0xFFF = of_nat off"
    using assms(2) by (simp add: unat_inject [symmetric] unat_of_nat_u64)
  have "in_frame f off AND NOT 0xFFF = push_bit 12 (drop_bit 12 (in_frame f off))"
    unfolding m by (rule bit_eqI) (auto simp: bit_simps)
  also have "\<dots> = in_frame f off - take_bit 12 (in_frame f off)"
    using bits_ident [of 12 "in_frame f off"] by (metis add_diff_cancel_right')
  also have "take_bit 12 (in_frame f off) = in_frame f off AND 0xFFF"
    unfolding m by (simp add: take_bit_eq_mask)
  finally have "in_frame f off AND NOT 0xFFF = in_frame f off - (in_frame f off AND 0xFFF)" .
  then show "in_frame f off AND NOT 0xFFF = frame_addr f" unfolding eq by (simp add: in_frame_def)
qed

section \<open>Free lists\<close>

primrec free_list :: "memory \<Rightarrow> addr \<Rightarrow> addr list \<Rightarrow> bool" where
  "free_list m p [] \<longleftrightarrow> p = 0"
| "free_list m p (x # xs) \<longleftrightarrow> p = x \<and> x \<noteq> 0 \<and> free_list m (load64 m x) xs"

lemma free_list_cong:
  "(\<And>x. x \<in> set xs \<Longrightarrow> load64 m' x = load64 m x) \<Longrightarrow> free_list m' p xs = free_list m p xs"
  by (induction xs arbitrary: p) auto

lemma free_list_map:
  assumes "\<And>k. lo \<le> k \<Longrightarrow> k < hi \<Longrightarrow> g k \<noteq> 0" and "lo < hi"
    and "\<And>k. lo \<le> k \<Longrightarrow> k + 1 < hi \<Longrightarrow> load64 m (g k) = g (k + 1)" and "load64 m (g (hi - 1)) = 0"
  shows "free_list m (g lo) (map g [lo..<hi])"
  using assms
proof (induction "hi - lo" arbitrary: lo)
  case (Suc d)
  have tail: "free_list m (load64 m (g lo)) (map g [Suc lo..<hi])"
  proof (cases "Suc lo < hi")
    case True
    then have "free_list m (g (Suc lo)) (map g [Suc lo..<hi])"
      using Suc.hyps(2) Suc.prems by (intro Suc.hyps(1)) auto
    then show ?thesis using Suc.prems(3) [of lo] True by simp
  next
    case False
    then have "hi = Suc lo" using Suc.prems(2) by simp
    then show ?thesis using Suc.prems(4) by simp
  qed
  have "[lo..<hi] = lo # [Suc lo..<hi]" using Suc.prems(2) by (rule upt_conv_Cons)
  then show ?case using tail Suc.prems(1) [of lo] Suc.prems(2) by simp
qed simp

lemma in_frame_nonzero: "f < 2 ^ 35 \<Longrightarrow> off < 0x1000 \<Longrightarrow> in_frame f off \<noteq> 0"
  using in_frame_unat [of f off] by auto

lemma load64_store64_in_frame:
  assumes "f < 2 ^ 35" and "a + 8 \<le> 0x1000" and "b + 8 \<le> 0x1000" and "a + 8 \<le> b \<or> b + 8 \<le> a"
  shows "load64 (store64 m (in_frame f a) v) (in_frame f b) = load64 m (in_frame f b)"
  using assms by (intro load64_store64_disjoint in_frame_disjoint) auto

lemma store64_in_frame_outside:
  assumes "f < 2 ^ 35" and "a + 8 \<le> 0x1000" and "\<not> in_range (frame_addr f) 0x1000 x"
  shows "store64 m (in_frame f a) v x = m x"
  using assms in_frame_range by (intro store64_outside) blast

text \<open>The loop of \<^verbatim>\<open>init_slab\<close> links each block of the page to the next.\<close>

lemma block_word:
  assumes "8 dvd e"
  shows "in_frame f e + of_nat j * of_nat (e div 8) * 8 = in_frame f (e * (j + 1))"
proof -
  have "j * (e div 8) * 8 = e * j" using assms by simp
  then have "(of_nat j * of_nat (e div 8) * 8 :: u64) = of_nat (e * j)"
    by (metis of_nat_mult of_nat_numeral)
  then show ?thesis by (simp add: in_frame_def algebra_simps)
qed

definition linked ::
  "nat \<Rightarrow> nat \<Rightarrow> nat \<Rightarrow> nat \<Rightarrow> ('z) pmm_state_scheme \<Rightarrow> ('z) pmm_state_scheme \<Rightarrow> bool" where
  "linked i f lo hi s s' \<longleftrightarrow> s' = s\<lparr>mem := mem s'\<rparr> \<and>
     (\<forall>x. \<not> in_range (frame_addr f) 0x1000 x \<longrightarrow> mem s' x = mem s x) \<and>
     (\<forall>k. lo \<le> k \<longrightarrow> k < hi \<longrightarrow> load64 (mem s') (block i f k) = block i f (k + 1)) \<and>
     (\<forall>off. off + 8 \<le> 0x1000 \<longrightarrow>
        (\<forall>k. lo \<le> k \<longrightarrow> k < hi \<longrightarrow> off + 8 \<le> ent i * (k + 1) \<or> ent i * (k + 1) + 8 \<le> off) \<longrightarrow>
        load64 (mem s') (in_frame f off) = load64 (mem s) (in_frame f off))"

lemma linked_step:
  assumes "i < SLAB_COUNT" and "f < 2 ^ 35" and "j < hi" and "hi < nblocks i"
    and "s1 = st64 (block i f j) (block i f (j + 1)) s" and "linked i f (Suc j) hi s1 s'"
  shows "linked i f j hi s s'"
proof -
  note e = ent_values [OF assms(1)]
  have fit: "ent i * (j + 1) + 8 \<le> 0x1000"
    using block_fits(1) [OF assms(1), of j] assms(3,4) e(2) by simp
  have m1: "mem s1 = store64 (mem s) (in_frame f (ent i * (j + 1))) (block i f (j + 1))"
    "s1 = s\<lparr>mem := mem s1\<rparr>"
    by (simp_all add: assms(5) st64_def block_def)
  have "s' = s1\<lparr>mem := mem s'\<rparr>" using assms(6) by (simp add: linked_def)
  then have upd: "s' = s\<lparr>mem := mem s'\<rparr>" using m1(2)
    by (metis pmm_state.surjective pmm_state.update_convs(1))
  have out: "mem s' x = mem s x" if "\<not> in_range (frame_addr f) 0x1000 x" for x
    using assms(6) that store64_in_frame_outside [OF assms(2) fit that] by (simp add: linked_def m1(1))
  have keep: "load64 (mem s') (in_frame f off) = load64 (mem s1) (in_frame f off)"
    if "off + 8 \<le> 0x1000" "\<forall>k. Suc j \<le> k \<longrightarrow> k < hi \<longrightarrow> off + 8 \<le> ent i * (k + 1) \<or> ent i * (k + 1) + 8 \<le> off"
    for off using assms(6) that unfolding linked_def by blast
  have "ent i * (j + 1) + 8 \<le> ent i * (k + 1)" if "j < k" for k
    using block_apart [OF that, of "ent i"] e(2) by simp
  then have "load64 (mem s') (block i f j) = load64 (mem s1) (block i f j)"
    unfolding block_def using fit by (intro keep) auto
  then have here: "load64 (mem s') (block i f j) = block i f (j + 1)"
    by (simp add: m1(1) block_def)
  have links: "load64 (mem s') (block i f k) = block i f (k + 1)" if "j \<le> k" "k < hi" for k
  proof (cases "k = j")
    case False
    then have "Suc j \<le> k" using that(1) by simp
    then show ?thesis using assms(6) that(2) unfolding linked_def by blast
  qed (use here in simp)
  have "load64 (mem s') (in_frame f off) = load64 (mem s) (in_frame f off)"
    if "off + 8 \<le> 0x1000" "\<forall>k. j \<le> k \<longrightarrow> k < hi \<longrightarrow> off + 8 \<le> ent i * (k + 1) \<or> ent i * (k + 1) + 8 \<le> off"
    for off
  proof -
    have "load64 (mem s') (in_frame f off) = load64 (mem s1) (in_frame f off)"
      using that by (intro keep) auto
    also have "\<dots> = load64 (mem s) (in_frame f off)"
      unfolding m1(1) using that assms(2,3) fit by (intro load64_store64_in_frame) auto
    finally show ?thesis .
  qed
  then show ?thesis using upd out links unfolding linked_def by blast
qed

lemma block_index:
  "i < SLAB_COUNT \<Longrightarrow> block i f 0 + k * of_nat (ent i div 8) * 8 = block i f (unat k)"
  using block_word [OF ent_values(1), of i f "unat k"] by (simp add: block_def)

lemma link_blocks_linked:
  assumes "i < SLAB_COUNT" and "f < 2 ^ 35" and "unat mx < nblocks i"
  shows "linked i f (unat j) (unat mx) s (link_blocks j mx (block i f 0) (of_nat (ent i div 8)) s)"
proof (induction "unat mx - unat j" arbitrary: j s)
  case 0
  then have "\<not> j < mx" by (simp add: word_less_nat_alt)
  then show ?case using 0 by (subst link_blocks.simps) (simp add: linked_def)
next
  case (Suc d)
  then have lt: "j < mx" "unat j < unat mx" by (simp_all add: word_less_nat_alt)
  note j1 = unat_Suc_less [OF lt(1)]
  let ?s1 = "st64 (block i f (unat j)) (block i f (unat j + 1)) s"
  note b = block_index [OF assms(1)]
  have "link_blocks j mx (block i f 0) (of_nat (ent i div 8)) s =
      link_blocks (j + 1) mx (block i f 0) (of_nat (ent i div 8)) ?s1"
    using lt j1 by (subst link_blocks.simps) (simp only: b if_True Suc_eq_plus1)
  moreover have "linked i f (unat (j + 1)) (unat mx) ?s1
      (link_blocks (j + 1) mx (block i f 0) (of_nat (ent i div 8)) ?s1)"
    using Suc.hyps(2) j1 by (intro Suc.hyps(1)) simp
  ultimately show ?case
    using linked_step [OF assms(1,2) lt(2) assms(3) refl] j1 by simp
qed

lemma slab_consts:
  assumes "i < SLAB_COUNT"
  shows "align_up 8 (slab_sizes ! i) = slab_sizes ! i"
    and "unat ((PAGE_SIZE - slab_sizes ! i) div slab_sizes ! i - 1) = nblocks i - 1"
    and "slab_sizes ! i div 8 = of_nat (ent i div 8)"
  using slab_index_cases [OF assms]
  by (auto simp: slab_sizes_def align_up_def nblocks_def ent_def)

lemma st64_simps [simp]:
  "mem (st64 a v s) = store64 (mem s) a v" "ld64 (st64 a v s) a = v"
  by (simp_all add: st64_def ld64_def)

lemma carve_page_spec:
  assumes "i < SLAB_COUNT" and "f < 2 ^ 35" and "disjoint_regions slab 8 (frame_addr f) 0x1000"
    and "s' = carve_page slab (slab_sizes ! i) (of_nat f * PAGE_SIZE) s"
  shows "s' = s\<lparr>mem := mem s'\<rparr>"
    and "\<not> in_range slab 8 x \<Longrightarrow> \<not> in_range (frame_addr f) 0x1000 x \<Longrightarrow> mem s' x = mem s x"
    and "ld64 s' slab = block i f 0" and "ld64 s' (frame_addr f) = slab"
    and "free_list (mem s') (block i f 0) (map (block i f) [0..<nblocks i])"
proof -
  note e = ent_values [OF assms(1)] and n = nblocks_values [OF assms(1)] and c = slab_consts [OF assms(1)]
  have base: "in_frame f 0 = frame_addr f" by (simp add: in_frame_def)
  have apart: "disjoint_regions (in_frame f a) 8 slab 8" if "a + 8 \<le> 0x1000" for a
    using assms(3) in_frame_range [OF assms(2) that] by (auto simp: disjoint_regions_def)
  have apart': "disjoint_regions slab 8 (in_frame f a) 8" if "a + 8 \<le> 0x1000" for a
    using apart [OF that] by (auto simp: disjoint_regions_def)
  let ?mx = "(PAGE_SIZE - slab_sizes ! i) div slab_sizes ! i - 1"
  define m4 where "m4 = store64 (store64 (store64 (store64 (mem s) slab (of_nat f * PAGE_SIZE)) slab (frame_addr f))
      (frame_addr f) slab) slab (block i f 0)"
  define s4 where "s4 = s\<lparr>mem := m4\<rparr>"
  define s5 where "s5 = link_blocks 0 ?mx (block i f 0) (of_nat (ent i div 8)) s4"
  have lk: "linked i f 0 (nblocks i - 1) s4 s5"
    using link_blocks_linked [OF assms(1,2), of ?mx 0 s4] c(2) n(1) by (simp add: s5_def)
  have first: "frame_addr f + slab_sizes ! i = block i f 0"
    using e(4) by (simp add: block_def in_frame_def)
  have s': "s' = st64 (block i f (nblocks i - 1)) 0 s5"
    using apart [of 0] unfolding assms(4) carve_page_def Let_def c(1) s5_def s4_def m4_def c(2) [symmetric]
    by (simp add: frame_addr_def [symmetric] add.commute [of _ HIGHER_HALF] base st64_def ld64_def
        load64_store64_disjoint first c(3) block_index [OF assms(1)])
  have last: "ent i * (nblocks i - 1 + 1) + 8 \<le> 0x1000"
    using block_fits(1) [OF assms(1), of "nblocks i - 1"] n(1) e(2) by simp
  have m': "mem s' = store64 (mem s5) (in_frame f (ent i * (nblocks i - 1 + 1))) 0"
    by (simp add: s' block_def)
  have s5: "s5 = s\<lparr>mem := mem s5\<rparr>" using lk by (simp add: linked_def s4_def)
  then show "s' = s\<lparr>mem := mem s'\<rparr>" by (metis s' st64_def pmm_state.surjective pmm_state.update_convs(1))
  have m5: "mem s5 x = m4 x" if "\<not> in_range (frame_addr f) 0x1000 x" for x
    using lk that by (simp add: linked_def s4_def)
  show "mem s' x = mem s x" if "\<not> in_range slab 8 x" "\<not> in_range (frame_addr f) 0x1000 x" for x
    using store64_in_frame_outside [OF assms(2) last that(2)] m5 [OF that(2)] that(1)
      store64_in_frame_outside [OF assms(2), of 0 x] that(2)
    by (simp add: m' m4_def store64_outside base)
  have "load64 (mem s5) slab = load64 m4 slab"
    using assms(3) by (intro load64_cong m5) (auto simp: disjoint_regions_def in_range_offset)
  then show "ld64 s' slab = block i f 0"
    using apart [OF last] by (simp add: ld64_def m' load64_store64_disjoint m4_def)
  have "load64 (mem s5) (in_frame f 0) = load64 m4 (in_frame f 0)"
    using lk e(2) unfolding linked_def s4_def by (auto simp: trans_le_add1)
  moreover have "8 \<le> ent i * (nblocks i - 1 + 1)"
    using mult_le_mono [OF e(2), of 1 "nblocks i - 1 + 1"] by simp
  then have "load64 (mem s') (in_frame f 0) = load64 (mem s5) (in_frame f 0)"
    unfolding m' using last by (intro load64_store64_in_frame [OF assms(2)]) auto
  ultimately show "ld64 s' (frame_addr f) = slab"
    using apart' [of 0] by (simp add: ld64_def base m4_def load64_store64_disjoint)
  show "free_list (mem s') (block i f 0) (map (block i f) [0..<nblocks i])"
  proof (rule free_list_map)
    fix k assume k: "k < nblocks i"
    then show "block i f k \<noteq> 0"
      unfolding block_def using block_fits(1) [OF assms(1) k] e(2) assms(2) by (intro in_frame_nonzero) auto
  next
    fix k assume k: "k + 1 < nblocks i"
    then have "k < nblocks i - 1" "k < nblocks i" by simp_all
    then have "ent i * (k + 1) + 8 \<le> ent i * (nblocks i - 1 + 1)" "ent i * (k + 1) + 8 \<le> 0x1000"
      using block_apart [of k "nblocks i - 1" "ent i"] block_fits(1) [OF assms(1), of k] e(2)
      by linarith+
    then have "load64 (mem s') (block i f k) = load64 (mem s5) (block i f k)"
      unfolding m' block_def by (intro load64_store64_in_frame [OF assms(2) last] disjI2)
    then show "load64 (mem s') (block i f k) = block i f (k + 1)"
      using lk k unfolding linked_def by auto
  qed (use n(1) in \<open>simp_all add: m' block_def\<close>)
qed

end
