(* ===== verification/SlabSpec.thy ===== *)
theory SlabSpec
  imports Slab
begin

text \<open>
  The slab allocator's invariant and contracts.  For slab \<open>i\<close>, \<open>G i\<close> is the set of frames it has carved
  into blocks and \<open>F i\<close> the list of its free blocks in the order of the list threaded through them.
\<close>

section \<open>The invariant\<close>

definition slab_frame :: "('z) slab_state_scheme \<Rightarrow> nat \<Rightarrow> nat \<Rightarrow> bool" where
  "slab_frame s i f \<longleftrightarrow> 0 < f \<and> f < page_total s \<and> page_used s f \<and>
     disjoint_regions (frame_addr f) 0x1000 (pmm_bitmap s) (bitmap_bytes s) \<and>
     disjoint_regions (frame_addr f) 0x1000 (slabs s) 160 \<and>
     ld64 s (frame_addr f) = slab_ptr s i"

definition slab_ok :: "('z) slab_state_scheme \<Rightarrow> nat \<Rightarrow> nat set \<Rightarrow> addr list \<Rightarrow> bool" where
  "slab_ok s i A xs \<longleftrightarrow> ld64 s (slab_ptr s i + 8) = slab_sizes ! i \<and>
     free_list (mem s) (ld64 s (slab_ptr s i)) xs \<and> distinct xs \<and> set xs \<subseteq> blocks i A \<and>
     (\<forall>f\<in>A. slab_frame s i f)"

text \<open>The table lies in memory that is neither the bitmap nor a free frame.\<close>

definition table_ok :: "('z) slab_state_scheme \<Rightarrow> bool" where
  "table_ok s \<longleftrightarrow> 0 < unat (slabs s) \<and> unat (slabs s) + 160 \<le> 2 ^ 64 \<and>
     disjoint_regions (slabs s) 160 (pmm_bitmap s) (bitmap_bytes s) \<and>
     (\<forall>f<page_total s. \<not> page_used s f \<longrightarrow> disjoint_regions (frame_addr f) 0x1000 (slabs s) 160)"

text \<open>\<open>I\<close> holds the slabs that \<^verbatim>\<open>slaballoc_init\<close> has set up: all of them after boot.\<close>

definition slab_inv ::
  "('z) slab_state_scheme \<Rightarrow> nat set \<Rightarrow> (nat \<Rightarrow> nat set) \<Rightarrow> (nat \<Rightarrow> addr list) \<Rightarrow> bool" where
  "slab_inv s I G F \<longleftrightarrow> pmm_inv s \<and> table_ok s \<and> I \<subseteq> {..<SLAB_COUNT} \<and>
     (\<forall>i\<in>I. slab_ok s i (G i) (F i)) \<and> (\<forall>i. i \<notin> I \<longrightarrow> G i = {} \<and> F i = []) \<and>
     (\<forall>i\<in>I. \<forall>j\<in>I. i \<noteq> j \<longrightarrow> G i \<inter> G j = {})"

section \<open>The table\<close>

lemma slab_ptr_unat:
  assumes "table_ok s" and "i < SLAB_COUNT"
  shows "unat (slab_ptr s i) = unat (slabs s) + 16 * i" and "unat (slab_ptr s i + 8) = unat (slabs s) + 16 * i + 8"
proof -
  have i: "i \<le> 9" using assms(2) by (simp add: SLAB_COUNT_def)
  have b: "unat (slabs s) + 160 \<le> 2 ^ 64" using assms(1) by (simp add: table_ok_def)
  show p: "unat (slab_ptr s i) = unat (slabs s) + 16 * i"
    unfolding slab_ptr_def using i b by (intro unat_add_of_nat) linarith
  have "slab_ptr s i + 8 = slabs s + of_nat (16 * i + 8)" by (simp add: slab_ptr_def)
  also have "unat \<dots> = unat (slabs s) + (16 * i + 8)"
    using i b by (intro unat_add_of_nat) linarith
  finally show "unat (slab_ptr s i + 8) = unat (slabs s) + 16 * i + 8" by simp
qed

lemma slab_ptr_in_table:
  assumes "table_ok s" and "i < SLAB_COUNT" and "in_range (slab_ptr s i) 16 x"
  shows "in_range (slabs s) 160 x"
proof -
  have i: "i \<le> 9" using assms(2) by (simp add: SLAB_COUNT_def)
  have b: "unat (slabs s) + 160 \<le> 2 ^ 64" using assms(1) by (simp add: table_ok_def)
  then have "unat (slab_ptr s i) + 16 \<le> 2 ^ 64" using slab_ptr_unat(1) [OF assms(1,2)] i by linarith
  then show ?thesis using assms(3) slab_ptr_unat(1) [OF assms(1,2)] i b by (simp add: in_range_unat)
qed

lemma slab_ptr_halves:
  assumes "table_ok s" and "i < SLAB_COUNT"
  shows "in_range (slab_ptr s i) 8 x \<Longrightarrow> in_range (slab_ptr s i) 16 x"
    and "in_range (slab_ptr s i + 8) 8 x \<Longrightarrow> in_range (slab_ptr s i) 16 x"
    and "disjoint_regions (slab_ptr s i) 8 (slab_ptr s i + 8) 8"
proof -
  have i: "i \<le> 9" using assms(2) by (simp add: SLAB_COUNT_def)
  have b: "unat (slabs s) + 160 \<le> 2 ^ 64" using assms(1) by (simp add: table_ok_def)
  note u = slab_ptr_unat [OF assms]
  have le: "unat (slab_ptr s i) + 16 \<le> 2 ^ 64" using u b i by linarith
  show "in_range (slab_ptr s i) 8 x \<Longrightarrow> in_range (slab_ptr s i) 16 x" by (simp add: in_range_def)
  show "in_range (slab_ptr s i + 8) 8 x \<Longrightarrow> in_range (slab_ptr s i) 16 x"
    using le u by (simp add: in_range_unat)
  show "disjoint_regions (slab_ptr s i) 8 (slab_ptr s i + 8) 8"
    using le u by (intro disjoint_regionsI) simp_all
qed

lemma slab_ptr_disjoint:
  assumes "table_ok s" and "i < SLAB_COUNT" and "j < SLAB_COUNT" and "i \<noteq> j"
  shows "disjoint_regions (slab_ptr s i) 16 (slab_ptr s j) 16"
proof -
  have ij: "i \<le> 9" "j \<le> 9" using assms(2,3) by (simp_all add: SLAB_COUNT_def)
  have b: "unat (slabs s) + 160 \<le> 2 ^ 64" using assms(1) by (simp add: table_ok_def)
  note u = slab_ptr_unat(1) [OF assms(1,2)] slab_ptr_unat(1) [OF assms(1,3)]
  show ?thesis using u b ij assms(4) by (intro disjoint_regionsI) auto
qed

section \<open>Frames of reference\<close>

definition same_layout :: "('z) slab_state_scheme \<Rightarrow> ('z) slab_state_scheme \<Rightarrow> bool" where
  "same_layout s s' \<longleftrightarrow> slabs s' = slabs s \<and> pmm_bitmap s' = pmm_bitmap s \<and> pmm_page_count s' = pmm_page_count s"

lemma same_layoutD:
  assumes "same_layout s s'"
  shows "slabs s' = slabs s" "pmm_bitmap s' = pmm_bitmap s" "page_total s' = page_total s"
    "bitmap_bytes s' = bitmap_bytes s" "slab_ptr s' i = slab_ptr s i" "bitmap_ok s' = bitmap_ok s"
  using assms by (simp_all add: same_layout_def page_total_def bitmap_bytes_def slab_ptr_def bitmap_ok_def)

text \<open>A slab does not notice changes outside its table entry and its frames.\<close>

lemma slab_ok_frame:
  assumes "slab_ok s j A xs" and "same_layout s s'" and "\<forall>f\<in>A. page_used s' f"
    and "j < SLAB_COUNT" and "table_ok s" and "page_total s \<le> 2 ^ 35"
    and table: "\<And>x. in_range (slab_ptr s j) 16 x \<Longrightarrow> mem s' x = mem s x"
    and frames: "\<And>f x. f \<in> A \<Longrightarrow> in_range (frame_addr f) 0x1000 x \<Longrightarrow> mem s' x = mem s x"
  shows "slab_ok s' j A xs"
proof -
  note lay = same_layoutD [OF assms(2)]
  have "ld64 s' (slab_ptr s j) = ld64 s (slab_ptr s j)" "ld64 s' (slab_ptr s j + 8) = ld64 s (slab_ptr s j + 8)"
    unfolding ld64_def using slab_ptr_halves [OF assms(5,4)]
    by (auto intro!: load64_cong table simp: in_range_offset)
  moreover have lt: "f < 2 ^ 35" if "f \<in> A" for f
    using assms(1,6) that by (auto simp: slab_ok_def slab_frame_def)
  have "ld64 s' (frame_addr f) = ld64 s (frame_addr f)" if "f \<in> A" for f
    unfolding ld64_def using frames [OF that] by (intro load64_cong) (simp add: in_range_offset)
  moreover have "load64 (mem s') x = load64 (mem s) x" if xs: "x \<in> set xs" for x
  proof -
    obtain f k where x: "x = block j f k" "f \<in> A" "k < nblocks j"
      using assms(1) xs unfolding slab_ok_def blocks_def by blast
    have "ent j * (k + 1) + 8 \<le> 0x1000"
      using block_fits(1) [OF assms(4) x(3)] ent_values(2) [OF assms(4)] by simp
    then have "mem s' y = mem s y" if "in_range (block j f k) 8 y" for y
      using frames [OF x(2)] in_frame_range [OF lt [OF x(2)]] that unfolding block_def by blast
    then show ?thesis unfolding x(1) by (intro load64_cong) (simp add: in_range_offset)
  qed
  ultimately show ?thesis using assms(1,3) free_list_cong [of xs "mem s'" "mem s"]
    by (simp add: slab_ok_def slab_frame_def lay)
qed

lemma pmm_inv_cong:
  assumes "pmm_inv s" and "same_layout s s'" and "last_used_index s' = last_used_index s"
    and "\<And>j. j < page_total s \<Longrightarrow> page_used s' j = page_used s j"
  shows "pmm_inv s'"
  using assms by (simp add: pmm_inv_def same_layoutD)

lemma table_ok_cong:
  assumes "table_ok s" and "same_layout s s'"
    and "\<And>j. j < page_total s \<Longrightarrow> page_used s j \<Longrightarrow> page_used s' j"
  shows "table_ok s'"
  using assms by (auto simp: table_ok_def same_layoutD)

lemma slab_invD:
  assumes "slab_inv s I G F" and "i \<in> I"
  shows "i < SLAB_COUNT" "slab_ok s i (G i) (F i)" "table_ok s" "pmm_inv s" "page_total s \<le> 2 ^ 35"
    "bitmap_ok s" "f \<in> G i \<Longrightarrow> slab_frame s i f" "f \<in> G i \<Longrightarrow> f < 2 ^ 35"
proof -
  show ok: "slab_ok s i (G i) (F i)" using assms by (simp add: slab_inv_def)
  show tot: "page_total s \<le> 2 ^ 35" using assms(1) by (simp add: slab_inv_def pmm_inv_def bitmap_ok_def)
  show "i < SLAB_COUNT" "table_ok s" "pmm_inv s" "bitmap_ok s"
    using assms by (auto simp: slab_inv_def pmm_inv_def)
  show "f \<in> G i \<Longrightarrow> slab_frame s i f" using ok by (simp add: slab_ok_def)
  then show "f \<in> G i \<Longrightarrow> f < 2 ^ 35" using tot by (simp add: slab_frame_def)
qed

text \<open>
  A write to the list head and inside one block: what \<^verbatim>\<open>slab_alloc\<close> does when it pops a block and
  \<^verbatim>\<open>slab_free\<close> when it pushes one.
\<close>

definition block_write :: "('z) slab_state_scheme \<Rightarrow> nat \<Rightarrow> addr \<Rightarrow> ('z) slab_state_scheme \<Rightarrow> bool" where
  "block_write s i b s' \<longleftrightarrow> same_layout s s' \<and> last_used_index s' = last_used_index s \<and>
     (\<forall>x. \<not> in_range (slab_ptr s i) 8 x \<longrightarrow> \<not> in_range b (ent i) x \<longrightarrow> mem s' x = mem s x)"

lemma block_write_page_used:
  assumes "slab_inv s I G F" and "i \<in> I" and "f \<in> G i" and "k < nblocks i"
    and "block_write s i (block i f k) s'" and "j < page_total s"
  shows "page_used s' j = page_used s j"
proof -
  note inv = slab_invD [OF assms(1,2)]
  have fr: "slab_frame s i f" and f: "f < 2 ^ 35" using inv(7,8) assms(3) by auto
  show ?thesis
  proof (rule page_used_cong [OF inv(6) assms(6)])
    show "pmm_bitmap s' = pmm_bitmap s" using assms(5) by (simp add: block_write_def same_layout_def)
    fix x assume x: "in_range (pmm_bitmap s) (bitmap_bytes s) x"
    then have "\<not> in_range (slabs s) 160 x" using inv(3) by (auto simp: table_ok_def disjoint_regions_def)
    then have "\<not> in_range (slab_ptr s i) 8 x"
      using slab_ptr_in_table [OF inv(3,1)] slab_ptr_halves(1) [OF inv(3,1)] by blast
    moreover have "\<not> in_range (frame_addr f) 0x1000 x"
      using fr x by (auto simp: slab_frame_def disjoint_regions_def)
    then have "\<not> in_range (block i f k) (ent i) x"
      using in_frame_range [OF f block_fits(1) [OF inv(1) assms(4)]] unfolding block_def by blast
    ultimately show "mem s' x = mem s x" using assms(5) by (simp add: block_write_def)
  qed
qed

lemma block_write_other_slab:
  assumes "slab_inv s I G F" and "i \<in> I" and "f \<in> G i" and "k < nblocks i"
    and "block_write s i (block i f k) s'" and "j \<in> I" and "j \<noteq> i"
  shows "slab_ok s' j (G j) (F j)"
proof -
  note inv = slab_invD [OF assms(1,2)] and inv' = slab_invD [OF assms(1,6)]
  have fr: "slab_frame s i f" and f: "f < 2 ^ 35" using inv(7,8) assms(3) by auto
  have lay: "same_layout s s'" and wr: "\<And>x. \<not> in_range (slab_ptr s i) 8 x \<Longrightarrow>
      \<not> in_range (block i f k) (ent i) x \<Longrightarrow> mem s' x = mem s x"
    using assms(5) by (simp_all add: block_write_def)
  have blk: "in_range (frame_addr f) 0x1000 x" if "in_range (block i f k) (ent i) x" for x
    using in_frame_range [OF f block_fits(1) [OF inv(1) assms(4)]] that unfolding block_def by blast
  have tab: "in_range (slabs s) 160 x" if "in_range (slab_ptr s i) 8 x" for x
    using slab_ptr_in_table [OF inv(3,1)] slab_ptr_halves(1) [OF inv(3,1)] that by blast
  show ?thesis
  proof (rule slab_ok_frame [OF inv'(2) lay _ inv'(1,3,5)])
    show "\<forall>g\<in>G j. page_used s' g"
      using inv'(7) block_write_page_used [OF assms(1-5)] by (auto simp: slab_frame_def)
    show "mem s' x = mem s x" if x: "in_range (slab_ptr s j) 16 x" for x
    proof (rule wr)
      show "\<not> in_range (slab_ptr s i) 8 x"
        using x slab_ptr_disjoint [OF inv(3) inv'(1) inv(1) assms(7)] slab_ptr_halves(1) [OF inv(3,1)]
        unfolding disjoint_regions_def by blast
      have "in_range (slabs s) 160 x" using slab_ptr_in_table [OF inv(3) inv'(1) x] .
      then show "\<not> in_range (block i f k) (ent i) x"
        using blk fr unfolding slab_frame_def disjoint_regions_def by blast
    qed
    show "mem s' x = mem s x" if g: "g \<in> G j" and x: "in_range (frame_addr g) 0x1000 x" for g x
    proof (rule wr)
      show "\<not> in_range (slab_ptr s i) 8 x"
        using tab x inv'(7) [OF g] unfolding slab_frame_def disjoint_regions_def by blast
      have "g \<noteq> f" using assms(1-3,6,7) g unfolding slab_inv_def by blast
      then have "disjoint_regions (in_frame f 0) 0x1000 (in_frame g 0) 0x1000"
        using f inv'(8) [OF g] by (intro in_frame_disjoint) auto
      then show "\<not> in_range (block i f k) (ent i) x"
        using blk x by (auto simp: disjoint_regions_def in_frame_def)
    qed
  qed
qed

lemma block_write_same_slab:
  assumes "slab_inv s I G F" and "i \<in> I" and "f \<in> G i" and "k < nblocks i"
    and "block_write s i (block i f k) s'" and "g \<in> G i"
  shows "off + 8 \<le> 0x1000 \<Longrightarrow> f \<noteq> g \<or> off + 8 \<le> ent i * (k + 1) \<or> ent i * (k + 1) + ent i \<le> off \<Longrightarrow>
      load64 (mem s') (in_frame g off) = load64 (mem s) (in_frame g off)"
    and "slab_frame s' i g" and "ld64 s' (slab_ptr s i + 8) = ld64 s (slab_ptr s i + 8)"
proof -
  note inv = slab_invD [OF assms(1,2)]
  have fr: "slab_frame s i f" and f: "f < 2 ^ 35" using inv(7,8) assms(3) by auto
  have gr: "slab_frame s i g" and g: "g < 2 ^ 35" using inv(7,8) assms(6) by auto
  have lay: "same_layout s s'" and wr: "\<And>x. \<not> in_range (slab_ptr s i) 8 x \<Longrightarrow>
      \<not> in_range (block i f k) (ent i) x \<Longrightarrow> mem s' x = mem s x"
    using assms(5) by (simp_all add: block_write_def)
  note fit = block_fits [OF inv(1) assms(4)]
  show load: "load64 (mem s') (in_frame g off) = load64 (mem s) (in_frame g off)"
    if "off + 8 \<le> 0x1000" "f \<noteq> g \<or> off + 8 \<le> ent i * (k + 1) \<or> ent i * (k + 1) + ent i \<le> off" for off
  proof -
    have "disjoint_regions (block i f k) (ent i) (in_frame g off) 8"
      unfolding block_def using f g that fit(1) by (intro in_frame_disjoint) auto
    moreover have "\<not> in_range (slab_ptr s i) 8 x" if "in_range (in_frame g off) 8 x" for x
      using in_frame_range [OF g \<open>off + 8 \<le> 0x1000\<close> that] gr slab_ptr_in_table [OF inv(3,1)]
        slab_ptr_halves(1) [OF inv(3,1)] unfolding slab_frame_def disjoint_regions_def by blast
    ultimately have "mem s' x = mem s x" if "in_range (in_frame g off) 8 x" for x
      using that by (intro wr) (auto simp: disjoint_regions_def)
    then show ?thesis by (intro load64_cong) (simp add: in_range_offset)
  qed
  have "8 \<le> ent i * (k + 1)" using mult_le_mono [OF ent_values(2) [OF inv(1)], of 1 "k + 1"] by simp
  then have "ld64 s' (frame_addr g) = ld64 s (frame_addr g)"
    using load [of 0] by (simp add: ld64_def in_frame_def)
  then show "slab_frame s' i g"
    using gr block_write_page_used [OF assms(1-5), of g] by (simp add: slab_frame_def same_layoutD [OF lay])
  have "mem s' x = mem s x" if x: "in_range (slab_ptr s i + 8) 8 x" for x
  proof (rule wr)
    show "\<not> in_range (slab_ptr s i) 8 x"
      using slab_ptr_halves(3) [OF inv(3,1)] x by (auto simp: disjoint_regions_def)
    have "in_range (slabs s) 160 x"
      using slab_ptr_in_table [OF inv(3,1)] slab_ptr_halves(2) [OF inv(3,1) x] by blast
    then show "\<not> in_range (block i f k) (ent i) x"
      using in_frame_range [OF f fit(1)] fr unfolding block_def slab_frame_def disjoint_regions_def by blast
  qed
  then show "ld64 s' (slab_ptr s i + 8) = ld64 s (slab_ptr s i + 8)"
    unfolding ld64_def by (intro load64_cong) (simp add: in_range_offset)
qed

lemma block_write_list:
  assumes "slab_inv s I G F" and "i \<in> I" and "f \<in> G i" and "k < nblocks i"
    and "block_write s i (block i f k) s'" and "set xs \<subseteq> blocks i (G i)" and "block i f k \<notin> set xs"
  shows "free_list (mem s') p xs = free_list (mem s) p xs"
proof (rule free_list_cong)
  fix x assume x: "x \<in> set xs"
  then obtain g l where g: "x = block i g l" "g \<in> G i" "l < nblocks i"
    using assms(6) unfolding blocks_def by blast
  note inv = slab_invD [OF assms(1,2)]
  have ne: "f \<noteq> g \<or> k \<noteq> l" using x g(1) assms(7) by blast
  have fit: "ent i * (l + 1) + 8 \<le> 0x1000"
    using block_fits(1) [OF inv(1) g(3)] ent_values(2) [OF inv(1)] by simp
  show "load64 (mem s') x = load64 (mem s) x"
    unfolding g(1) block_def [of i g l] using ne ent_values(2) [OF inv(1)]
      block_apart [of k l "ent i"] block_apart [of l k "ent i"]
    by (intro block_write_same_slab(1) [OF assms(1-5) g(2) fit]) (force simp: nat_neq_iff)
qed

lemma block_write_inv:
  assumes "slab_inv s I G F" and "i \<in> I" and "f \<in> G i" and "k < nblocks i"
    and "block_write s i (block i f k) s'" and "free_list (mem s') (ld64 s' (slab_ptr s i)) ys"
    and "distinct ys" and "set ys \<subseteq> blocks i (G i)"
  shows "slab_inv s' I G (F(i := ys))"
proof -
  note inv = slab_invD [OF assms(1,2)]
  have lay: "same_layout s s'" "last_used_index s' = last_used_index s"
    using assms(5) by (simp_all add: block_write_def)
  note used = block_write_page_used [OF assms(1-5)]
  have "slab_ok s' i (G i) ys"
    using block_write_same_slab(2,3) [OF assms(1-5)] inv(2) assms(3,6-8)
    by (auto simp: slab_ok_def same_layoutD [OF lay(1)])
  moreover have "pmm_inv s'" using inv(4) lay used by (rule pmm_inv_cong)
  moreover have "table_ok s'" using table_ok_cong [OF inv(3) lay(1)] used by blast
  ultimately show ?thesis
    using assms(1,2) block_write_other_slab [OF assms(1-5)] by (auto simp: slab_inv_def)
qed

section \<open>Push and pop\<close>

definition slab_live :: "(nat \<Rightarrow> nat set) \<Rightarrow> (nat \<Rightarrow> addr list) \<Rightarrow> nat \<Rightarrow> addr set" where
  "slab_live G F i = blocks i (G i) - set (F i)"

lemma slab_lock_frame [simp]:
  "slab_inv (s\<lparr>slab_lock := l\<rparr>) I G F = slab_inv s I G F"
  "slab_ptr (s\<lparr>slab_lock := l\<rparr>) i = slab_ptr s i"
  "ld64 (s\<lparr>slab_lock := l\<rparr>) a = ld64 s a"
proof -
  have u: "page_used (s\<lparr>slab_lock := l\<rparr>) = page_used s" "page_total (s\<lparr>slab_lock := l\<rparr>) = page_total s"
    "bitmap_bytes (s\<lparr>slab_lock := l\<rparr>) = bitmap_bytes s" "bitmap_ok (s\<lparr>slab_lock := l\<rparr>) = bitmap_ok s"
    by (simp_all add: fun_eq_iff page_used_def bitmap_testbit_def bitmap_word_def page_total_def
        bitmap_bytes_def bitmap_ok_def)
  show p: "slab_ptr (s\<lparr>slab_lock := l\<rparr>) i = slab_ptr s i" for i by (simp add: slab_ptr_def)
  show ld: "ld64 (s\<lparr>slab_lock := l\<rparr>) a = ld64 s a" for a by (simp add: ld64_def)
  show "slab_inv (s\<lparr>slab_lock := l\<rparr>) I G F = slab_inv s I G F"
    by (simp add: slab_inv_def pmm_inv_def table_ok_def slab_ok_def slab_frame_def u p ld)
qed

lemma block_apart_table:
  assumes "slab_inv s I G F" and "i \<in> I" and "b \<in> blocks i (G i)"
  obtains f k where "b = block i f k" and "f \<in> G i" and "k < nblocks i" and "b \<noteq> 0"
    and "disjoint_regions (slab_ptr s i) 16 b (ent i)"
proof -
  note inv = slab_invD [OF assms(1,2)]
  obtain f k where b: "b = block i f k" "f \<in> G i" "k < nblocks i"
    using assms(3) unfolding blocks_def by blast
  have f: "f < 2 ^ 35" "slab_frame s i f" using inv(7,8) b(2) by auto
  note fit = block_fits [OF inv(1) b(3)]
  have "b \<noteq> 0" unfolding b block_def using f fit ent_values(2) [OF inv(1)]
    by (intro in_frame_nonzero) auto
  moreover have "disjoint_regions (slab_ptr s i) 16 b (ent i)"
    using slab_ptr_in_table [OF inv(3,1)] in_frame_range [OF f(1) fit(1)] f(2)
    unfolding b block_def disjoint_regions_def slab_frame_def by blast
  ultimately show thesis using b that by blast
qed

lemma disjoint_regions_sub:
  "disjoint_regions a n b k \<Longrightarrow> n' \<le> n \<Longrightarrow> k' \<le> k \<Longrightarrow> disjoint_regions a n' b k'"
  unfolding disjoint_regions_def in_range_def by (meson order_less_le_trans)

lemma disjoint_regions_sym: "disjoint_regions a n b k \<Longrightarrow> disjoint_regions b k a n"
  by (auto simp: disjoint_regions_def)

lemma slab_push:
  assumes "slab_inv s I G F" and "i \<in> I" and "b \<in> slab_live G F i"
    and "s' = st64 (slab_ptr s i) b (st64 b (ld64 s (slab_ptr s i)) s)"
  shows "slab_inv s' I G (F(i := b # F i))"
    and "\<And>x. \<not> in_range (slab_ptr s i) 8 x \<Longrightarrow> \<not> in_range b 8 x \<Longrightarrow> mem s' x = mem s x"
proof -
  note inv = slab_invD [OF assms(1,2)]
  have bl: "b \<in> blocks i (G i)" "b \<notin> set (F i)" using assms(3) by (simp_all add: slab_live_def)
  obtain f k where b: "b = block i f k" "f \<in> G i" "k < nblocks i" "b \<noteq> 0"
    and dis: "disjoint_regions (slab_ptr s i) 16 b (ent i)"
    using block_apart_table [OF assms(1,2) bl(1)] by blast
  have e: "8 \<le> ent i" by (rule ent_values(2) [OF inv(1)])
  have m': "mem s' = store64 (store64 (mem s) b (ld64 s (slab_ptr s i))) (slab_ptr s i) b"
    by (simp add: assms(4))
  show out: "mem s' x = mem s x" if "\<not> in_range (slab_ptr s i) 8 x" "\<not> in_range b 8 x" for x
    using that by (simp add: m' store64_outside)
  then have wr: "block_write s i (block i f k) s'"
    using e by (auto simp: block_write_def same_layout_def assms(4) st64_def b(1) in_range_def)
  have "load64 (mem s') b = ld64 s (slab_ptr s i)" "ld64 s' (slab_ptr s i) = b"
    using disjoint_regions_sub [OF dis, of 8 8] e by (simp_all add: m' ld64_def load64_store64_disjoint)
  moreover have "free_list (mem s') (ld64 s (slab_ptr s i)) (F i)"
    using block_write_list [OF assms(1,2) b(2,3) wr] inv(2) bl(2) b(1) by (auto simp: slab_ok_def)
  ultimately show "slab_inv s' I G (F(i := b # F i))"
    using inv(2) bl b(4) by (intro block_write_inv [OF assms(1,2) b(2,3) wr]) (auto simp: slab_ok_def)
qed

lemma slab_pop:
  assumes "slab_inv s I G F" and "i \<in> I" and "F i = b # bs"
    and "s1 = st64 (slab_ptr s i) (ld64 s b) s"
    and "s' = s1\<lparr>mem := snd (memset (mem s1) b 0 (ld64 s1 (slab_ptr s i + 8)))\<rparr>"
  shows "ld64 s (slab_ptr s i) = b" and "b \<noteq> 0" and "slab_inv s' I G (F(i := bs))"
    and "\<And>x. in_range b (ent i) x \<Longrightarrow> mem s' x = 0"
    and "\<And>x. \<not> in_range (slab_ptr s i) 8 x \<Longrightarrow> \<not> in_range b (ent i) x \<Longrightarrow> mem s' x = mem s x"
proof -
  note inv = slab_invD [OF assms(1,2)]
  have bl: "b \<in> blocks i (G i)" "b \<notin> set bs" "distinct bs" "set bs \<subseteq> blocks i (G i)"
    and list: "ld64 s (slab_ptr s i) = b" "b \<noteq> 0" "free_list (mem s) (ld64 s b) bs"
    using inv(2) assms(3) by (auto simp: slab_ok_def ld64_def)
  show "ld64 s (slab_ptr s i) = b" "b \<noteq> 0" using list by auto
  obtain f k where b: "b = block i f k" "f \<in> G i" "k < nblocks i"
    and dis: "disjoint_regions (slab_ptr s i) 16 b (ent i)"
    using block_apart_table [OF assms(1,2) bl(1)] by blast
  have "ld64 s1 (slab_ptr s i + 8) = slab_sizes ! i"
    using inv(2) slab_ptr_halves(3) [OF inv(3,1)]
    by (simp add: assms(4) ld64_def load64_store64_disjoint slab_ok_def)
  then have m': "mem s' x = (if in_range b (ent i) x then 0 else store64 (mem s) (slab_ptr s i) (ld64 s b) x)" for x
    by (simp add: assms(4,5) memset_apply ent_def)
  show "mem s' x = 0" if "in_range b (ent i) x" for x using that by (simp add: m')
  show out: "mem s' x = mem s x" if "\<not> in_range (slab_ptr s i) 8 x" "\<not> in_range b (ent i) x" for x
    using that by (simp add: m' store64_outside)
  then have wr: "block_write s i (block i f k) s'"
    by (auto simp: block_write_def same_layout_def assms(4,5) st64_def b(1))
  have "load64 (mem s') (slab_ptr s i) = load64 (store64 (mem s) (slab_ptr s i) (ld64 s b)) (slab_ptr s i)"
    using disjoint_regions_sub [OF dis, of 8 "ent i"]
    by (intro load64_cong) (auto simp: m' disjoint_regions_def in_range_offset)
  then have "ld64 s' (slab_ptr s i) = ld64 s b" by (simp add: ld64_def)
  moreover have "free_list (mem s') (ld64 s b) bs"
    using block_write_list [OF assms(1,2) b(2,3) wr bl(4)] list(3) bl(2) b(1) by simp
  ultimately show "slab_inv s' I G (F(i := bs))"
    using bl by (intro block_write_inv [OF assms(1,2) b(2,3) wr]) auto
qed

section \<open>Adding a page\<close>

lemma slab_fields_more:
  fixes s s' :: "('z) slab_state_scheme"
  assumes "pmm_state.more s' = pmm_state.more s"
  shows "slabs s' = slabs s" and "slab_lock s' = slab_lock s"
  using assms by (cases s; cases s'; simp)+

lemma next_fit_cong:
  assumes "page_total s' = page_total s" and "last_used_index s' = last_used_index s"
    and "unat (last_used_index s) \<le> page_total s" and "0 < n"
    and "\<And>j. j < page_total s \<Longrightarrow> page_used s' j = page_used s j"
  shows "next_fit n s' = next_fit n s"
proof -
  have "run_free s' a n = run_free s a n" if "a + n \<le> page_total s" for a
    using assms(5) that by (auto simp: run_free_def)
  then have "List.find (\<lambda>a. run_free s' a n) [lo..<Suc hi - n] = List.find (\<lambda>a. run_free s a n) [lo..<Suc hi - n]"
    if "hi \<le> page_total s" for lo hi
    using that by (intro find_cong) auto
  then show ?thesis using assms(1-3) by (simp add: next_fit_def cong: option.case_cong)
qed

text \<open>Storing the entry size touches only the table.\<close>

lemma table_store:
  assumes "table_ok s" and "bitmap_ok s" and "i < SLAB_COUNT" and "s1 = st64 (slab_ptr s i + 8) v s"
  shows "same_layout s s1" and "j < page_total s \<Longrightarrow> page_used s1 j = page_used s j"
    and "\<And>x. \<not> in_range (slab_ptr s i) 16 x \<Longrightarrow> mem s1 x = mem s x"
proof -
  show "same_layout s s1" by (simp add: same_layout_def assms(4) st64_def)
  show out: "mem s1 x = mem s x" if "\<not> in_range (slab_ptr s i) 16 x" for x
    using that slab_ptr_halves(2) [OF assms(1,3), of x] by (simp add: assms(4)) (metis store64_outside)
  show "page_used s1 j = page_used s j" if "j < page_total s"
  proof (rule page_used_cong [OF assms(2) that])
    show "pmm_bitmap s1 = pmm_bitmap s" by (simp add: assms(4) st64_def)
    show "mem s1 x = mem s x" if "in_range (pmm_bitmap s) (bitmap_bytes s) x" for x
      using that slab_ptr_in_table [OF assms(1,3)] assms(1)
      by (intro out) (auto simp: table_ok_def disjoint_regions_def)
  qed
qed

definition page_added ::
  "('z) slab_state_scheme \<Rightarrow> nat \<Rightarrow> nat \<Rightarrow> ('z) slab_state_scheme \<Rightarrow> bool" where
  "page_added s i f s' \<longleftrightarrow> same_layout s s' \<and> f < page_total s \<and> \<not> page_used s f \<and>
     (\<forall>j<page_total s. page_used s' j \<longleftrightarrow> j = f \<or> page_used s j) \<and>
     (\<forall>x. \<not> in_range (pmm_bitmap s) (bitmap_bytes s) x \<longrightarrow> \<not> in_range (slab_ptr s i) 16 x \<longrightarrow>
        \<not> in_range (frame_addr f) 0x1000 x \<longrightarrow> mem s' x = mem s x) \<and>
     free_pages s' = free_pages s - 1 \<and> slab_lock s' = slab_lock s"

text \<open>Other slabs, and the older frames of the same slab, are untouched.\<close>

lemma page_added_mem:
  assumes "slab_inv s I G F" and "page_added s i f s'" and "i < SLAB_COUNT" and "j \<in> I"
  shows "j \<noteq> i \<Longrightarrow> in_range (slab_ptr s j) 16 x \<Longrightarrow> mem s' x = mem s x"
    and "g \<in> G j \<Longrightarrow> in_range (frame_addr g) 0x1000 x \<Longrightarrow> mem s' x = mem s x"
proof -
  note inv = slab_invD [OF assms(1,4)]
  have out: "mem s' x = mem s x" if "\<not> in_range (pmm_bitmap s) (bitmap_bytes s) x"
    "\<not> in_range (slab_ptr s i) 16 x" "\<not> in_range (frame_addr f) 0x1000 x" for x
    using assms(2) that by (simp add: page_added_def)
  have f: "f < page_total s" "\<not> page_used s f" using assms(2) by (simp_all add: page_added_def)
  then have ftab: "disjoint_regions (frame_addr f) 0x1000 (slabs s) 160"
    using inv(3) by (simp add: table_ok_def)
  show "mem s' x = mem s x" if "j \<noteq> i" and x: "in_range (slab_ptr s j) 16 x"
  proof (rule out)
    have t: "in_range (slabs s) 160 x" by (rule slab_ptr_in_table [OF inv(3,1) x])
    then show "\<not> in_range (pmm_bitmap s) (bitmap_bytes s) x" "\<not> in_range (frame_addr f) 0x1000 x"
      using inv(3) ftab by (auto simp: table_ok_def disjoint_regions_def)
    show "\<not> in_range (slab_ptr s i) 16 x"
      using slab_ptr_disjoint [OF inv(3,1) assms(3) that(1)] x by (auto simp: disjoint_regions_def)
  qed
  show "mem s' x = mem s x" if "g \<in> G j" and x: "in_range (frame_addr g) 0x1000 x"
  proof (rule out)
    have gr: "slab_frame s j g" "g < 2 ^ 35" using inv(7,8) that(1) by auto
    then show "\<not> in_range (pmm_bitmap s) (bitmap_bytes s) x"
      using x by (auto simp: slab_frame_def disjoint_regions_def)
    show "\<not> in_range (slab_ptr s i) 16 x"
      using gr(1) x slab_ptr_in_table [OF inv(3) assms(3)]
      unfolding slab_frame_def disjoint_regions_def by blast
    have "g \<noteq> f" using gr(1) f(2) by (auto simp: slab_frame_def)
    then have "disjoint_regions (in_frame f 0) 0x1000 (in_frame g 0) 0x1000"
      using f(1) inv(5) gr(2) by (intro in_frame_disjoint) auto
    then show "\<not> in_range (frame_addr f) 0x1000 x"
      using x by (auto simp: disjoint_regions_def in_frame_def)
  qed
qed

lemma block_list:
  assumes "i < SLAB_COUNT" and "f < 2 ^ 35"
  shows "distinct (map (block i f) [0..<nblocks i])" and "set (map (block i f) [0..<nblocks i]) = blocks i {f}"
  using assms block_inject [OF assms(1) _ _ assms(2) assms(2)]
  by (auto simp: distinct_map inj_on_def blocks_def)

lemma page_added_inv:
  assumes "slab_inv s I G F" and "page_added s i f s'" and "i < SLAB_COUNT" and "F i = []"
    and "last_used_index s' = last_used_index s2" and "pmm_inv s2" and "same_layout s s2"
    and "\<And>j. j < page_total s \<Longrightarrow> page_used s2 j = page_used s' j"
    and "ld64 s' (slab_ptr s i + 8) = slab_sizes ! i" and "ld64 s' (slab_ptr s i) = block i f 0"
    and "ld64 s' (frame_addr f) = slab_ptr s i"
    and "free_list (mem s') (block i f 0) (map (block i f) [0..<nblocks i])"
  shows "slab_inv s' (insert i I) (G(i := insert f (G i))) (F(i := map (block i f) [0..<nblocks i]))"
proof -
  have lay: "same_layout s s'" and f: "f < page_total s" "\<not> page_used s f"
    and used: "\<And>j. j < page_total s \<Longrightarrow> page_used s' j \<longleftrightarrow> j = f \<or> page_used s j"
    using assms(2) by (simp_all add: page_added_def)
  have base: "pmm_inv s" "table_ok s" "I \<subseteq> {..<SLAB_COUNT}" "page_total s \<le> 2 ^ 35"
    using assms(1) by (auto simp: slab_inv_def pmm_inv_def bitmap_ok_def)
  have lay2: "same_layout s2 s'" using lay assms(7) by (simp add: same_layout_def)
  have pmm: "pmm_inv s'"
    using assms(6) lay2 assms(5,8) same_layoutD(3) [OF assms(7)] by (intro pmm_inv_cong [of s2 s']) auto
  have tab: "table_ok s'" using table_ok_cong [OF base(2) lay] used by blast
  have others: "slab_ok s' j (G j) (F j)" if "j \<in> I" "j \<noteq> i" for j
  proof -
    note inv = slab_invD [OF assms(1) that(1)]
    show ?thesis
      using inv(7) used page_added_mem [OF assms(1-3) that(1)] that(2)
      by (intro slab_ok_frame [OF inv(2) lay _ inv(1,3,5)]) (auto simp: slab_frame_def)
  qed
  have new: "slab_frame s' i f"
    using f pmm base assms(11) used tab
    by (auto simp: slab_frame_def same_layoutD [OF lay] pmm_inv_def table_ok_def intro: gr0I)
  have old: "slab_frame s' i g" if "g \<in> G i" for g
  proof -
    have i: "i \<in> I" using assms(1) that by (auto simp: slab_inv_def)
    have "ld64 s' (frame_addr g) = ld64 s (frame_addr g)"
      unfolding ld64_def using page_added_mem(2) [OF assms(1-3) i that]
      by (intro load64_cong) (simp add: in_range_offset)
    then show ?thesis using slab_invD(7) [OF assms(1) i that] used
      by (auto simp: slab_frame_def same_layoutD [OF lay])
  qed
  have f35: "f < 2 ^ 35" using f(1) base(4) by simp
  have "slab_ok s' i (insert f (G i)) (map (block i f) [0..<nblocks i])"
    using assms(9-12) new old block_list [OF assms(3) f35]
    by (auto simp: slab_ok_def same_layoutD [OF lay] blocks_def)
  moreover have "f \<notin> G j" for j
    using slab_invD(7) [OF assms(1), of j f] assms(1) f(2) by (auto simp: slab_frame_def slab_inv_def)
  moreover have "G a \<inter> G b = {}" if "a \<noteq> b" for a b
    using assms(1) that unfolding slab_inv_def by (cases "a \<in> I \<and> b \<in> I") blast+
  ultimately have "\<forall>a\<in>insert i I. \<forall>b\<in>insert i I. a \<noteq> b \<longrightarrow>
      (G(i := insert f (G i))) a \<inter> (G(i := insert f (G i))) b = {}"
    and "\<forall>j\<in>insert i I. slab_ok s' j ((G(i := insert f (G i))) j) ((F(i := map (block i f) [0..<nblocks i])) j)"
    using others by auto
  then show ?thesis using assms(1,3) pmm tab unfolding slab_inv_def by simp
qed

lemma carve_after_alloc:
  assumes "pmm_inv s" and "table_ok s" and "i < SLAB_COUNT"
    and "s1 = st64 (slab_ptr s i + 8) (slab_sizes ! i) s" and "pmm_alloc_post s1 f 1 s2"
    and "s' = carve_page (slab_ptr s i) (slab_sizes ! i) (of_nat f * PAGE_SIZE) s2"
  shows "page_added s i f s'" and "same_layout s s2" and "ld64 s' (slab_ptr s i + 8) = slab_sizes ! i"
    and "j < page_total s \<Longrightarrow> page_used s2 j = page_used s' j"
    and "disjoint_regions (slab_ptr s i) 8 (frame_addr f) 0x1000" and "f < 2 ^ 35"
proof -
  let ?slab = "slab_ptr s i"
  have ok: "bitmap_ok s" "page_total s \<le> 2 ^ 35" using assms(1) by (simp_all add: pmm_inv_def bitmap_ok_def)
  note st = table_store [OF assms(2) ok(1) assms(3,4)]
  note lay1 = same_layoutD [OF st(1)]
  have more: "slabs s2 = slabs s" "slab_lock s2 = slab_lock s"
    using slab_fields_more [of s2 s1] assms(4,5) by (simp_all add: pmm_alloc_post_def st64_def)
  have "pmm_page_count s2 = pmm_page_count s1"
    using assms(5) by (simp add: pmm_alloc_post_def page_total_def unat_inject)
  then show lay2: "same_layout s s2" using more(1) st(1) assms(5) by (simp add: same_layout_def pmm_alloc_post_def)
  have f: "f < page_total s" "\<not> page_used s f"
    using assms(5) lay1 st(2) by (auto simp: pmm_alloc_post_def run_free_def)
  then show f35: "f < 2 ^ 35" using ok(2) by simp
  have fb: "disjoint_regions (frame_addr f) 0x1000 (pmm_bitmap s) (bitmap_bytes s)"
    and ft: "disjoint_regions (frame_addr f) 0x1000 (slabs s) 160"
    and tb: "disjoint_regions (slabs s) 160 (pmm_bitmap s) (bitmap_bytes s)"
    using assms(1,2) f by (simp_all add: pmm_inv_def table_ok_def)
  have tab: "in_range (slabs s) 160 x" if "in_range ?slab 16 x" for x
    by (rule slab_ptr_in_table [OF assms(2,3) that])
  note half = slab_ptr_halves [OF assms(2,3)]
  show dis: "disjoint_regions ?slab 8 (frame_addr f) 0x1000"
    using ft tab half(1) unfolding disjoint_regions_def by blast
  note carve = carve_page_spec [OF assms(3) f35 dis assms(6)]
  have lay: "same_layout s2 s'" "slab_lock s' = slab_lock s2" "free_pages s' = free_pages s2"
    by (subst carve(1), simp add: same_layout_def)+
  show used: "page_used s2 j = page_used s' j" if "j < page_total s" for j
  proof (rule page_used_cong [symmetric])
    show "bitmap_ok s2" "j < page_total s2" "pmm_bitmap s' = pmm_bitmap s2"
      using ok that same_layoutD [OF lay2] same_layoutD [OF lay(1)] by simp_all
    show "mem s' x = mem s2 x" if "in_range (pmm_bitmap s2) (bitmap_bytes s2) x" for x
      using that fb tb tab half(1) unfolding same_layoutD [OF lay2] disjoint_regions_def
      by (intro carve(2)) blast+
  qed
  have keep2: "mem s2 x = mem s1 x" if "\<not> in_range (frame_addr f) 0x1000 x"
    "\<not> in_range (pmm_bitmap s) (bitmap_bytes s) x" for x
    using assms(5) that lay1 by (simp add: pmm_alloc_post_def)
  have "mem s' x = mem s x" if "\<not> in_range (pmm_bitmap s) (bitmap_bytes s) x"
    "\<not> in_range ?slab 16 x" "\<not> in_range (frame_addr f) 0x1000 x" for x
    using that carve(2) [of x] keep2 [of x] st(3) [of x] half(1) [of x] by auto
  moreover have "page_used s' j \<longleftrightarrow> j = f \<or> page_used s j" if "j < page_total s" for j
    using that used [OF that] assms(5) lay1(3) st(2) by (auto simp: pmm_alloc_post_def)
  moreover have "same_layout s s'" using lay2 lay(1) by (simp add: same_layout_def)
  moreover have "free_pages s2 = free_pages s - 1"
    using assms(4,5) by (simp add: pmm_alloc_post_def st64_def)
  ultimately show "page_added s i f s'"
    using f lay more unfolding page_added_def by auto
  have "mem s' x = mem s1 x" if x: "in_range (?slab + 8) 8 x" for x
  proof -
    have "in_range (slabs s) 160 x" using tab half(2) [OF x] by blast
    then show ?thesis using carve(2) [of x] keep2 [of x] half(3) x ft tb
      unfolding disjoint_regions_def by metis
  qed
  then have "load64 (mem s') (?slab + 8) = load64 (mem s1) (?slab + 8)"
    by (intro load64_cong) (simp add: in_range_offset)
  then show "ld64 s' (?slab + 8) = slab_sizes ! i" by (simp add: ld64_def assms(4))
qed

lemma init_slab_spec:
  assumes "slab_inv s I G F" and "i < SLAB_COUNT" and "F i = []" and "lock_idle (pmm_lock s)"
  shows "case next_fit 1 s of
      None \<Rightarrow> init_slab c (slab_ptr s i) (slab_sizes ! i) s = Inl (Panic ''Kernel OOM'')
    | Some f \<Rightarrow> \<exists>s'. init_slab c (slab_ptr s i) (slab_sizes ! i) s = Inr s' \<and> page_added s i f s' \<and>
        slab_inv s' (insert i I) (G(i := insert f (G i))) (F(i := map (block i f) [0..<nblocks i])) \<and>
        lock_idle (pmm_lock s')"
proof -
  let ?slab = "slab_ptr s i"
  define s1 where "s1 = st64 (?slab + 8) (slab_sizes ! i) s"
  have base: "pmm_inv s" "table_ok s" "bitmap_ok s"
    using assms(1) by (auto simp: slab_inv_def pmm_inv_def)
  note st = table_store [OF base(2,3) assms(2) s1_def]
  have cur: "last_used_index s1 = last_used_index s" "pmm_lock s1 = pmm_lock s"
    by (simp_all add: s1_def st64_def)
  have wf: "pmm_wf s1" using pmm_inv_cong [OF base(1) st(1) cur(1) st(2)] assms(4) cur by (simp add: pmm_wf_def)
  have nf: "next_fit 1 s1 = next_fit 1 s"
    using base(1) cur same_layoutD(3) [OF st(1)] st(2) by (intro next_fit_cong) (auto simp: pmm_inv_def)
  show ?thesis
  proof (cases "next_fit 1 s")
    case None
    then show ?thesis using pmm_alloc_spec [OF wf, of 1 c] nf by (simp add: init_slab_def s1_def [symmetric])
  next
    case (Some f)
    then obtain s2 where alloc: "pmm_alloc c 1 s1 = Inr (of_nat f * PAGE_SIZE, s2)"
      and post: "pmm_alloc_post s1 f 1 s2" and wf2: "pmm_wf s2"
      using pmm_alloc_spec [OF wf, of 1 c] nf by auto
    define s' where "s' = carve_page ?slab (slab_sizes ! i) (of_nat f * PAGE_SIZE) s2"
    note ca = carve_after_alloc [OF base(1,2) assms(2) s1_def post s'_def]
    note carve = carve_page_spec [OF assms(2) ca(6,5) s'_def]
    have keep: "last_used_index s' = last_used_index s2" "pmm_lock s' = pmm_lock s2"
      by (subst carve(1), simp)+
    have "init_slab c ?slab (slab_sizes ! i) s = Inr s'"
      using alloc by (simp add: init_slab_def s1_def [symmetric] s'_def)
    moreover have "slab_inv s' (insert i I) (G(i := insert f (G i))) (F(i := map (block i f) [0..<nblocks i]))"
      using page_added_inv [OF assms(1) ca(1) assms(2,3) keep(1) _ ca(2,4,3) carve(3-5)] wf2
      by (simp add: pmm_wf_def)
    ultimately show ?thesis using Some ca(1) keep wf2 by (auto simp: pmm_wf_def)
  qed
qed

section \<open>The contracts of the allocator\<close>

text \<open>
  What allocating block \<open>b\<close> from slab \<open>i\<close> does: \<open>b\<close> was not live and now is, no other block changes its
  status, the block reads as zero, and outside it only the bitmap, the slab's table entry and frames
  that were free are written.
\<close>

definition slab_alloc_post ::
  "('z) slab_state_scheme \<Rightarrow> (nat \<Rightarrow> nat set) \<Rightarrow> (nat \<Rightarrow> addr list) \<Rightarrow> nat \<Rightarrow> addr \<Rightarrow>
   ('z) slab_state_scheme \<Rightarrow> (nat \<Rightarrow> nat set) \<Rightarrow> (nat \<Rightarrow> addr list) \<Rightarrow> bool" where
  "slab_alloc_post s G F i b s' G' F' \<longleftrightarrow>
     b \<notin> slab_live G F i \<and> slab_live G' F' i = insert b (slab_live G F i) \<and>
     (\<forall>j. j \<noteq> i \<longrightarrow> G' j = G j \<and> F' j = F j) \<and> same_layout s s' \<and>
     G i \<subseteq> G' i \<and> (\<forall>f\<in>G' i - G i. f < page_total s \<and> \<not> page_used s f) \<and>
     (\<forall>j<page_total s. page_used s' j \<longleftrightarrow> page_used s j \<or> j \<in> G' i) \<and>
     (\<forall>x. in_range b (ent i) x \<longrightarrow> mem s' x = 0) \<and>
     (\<forall>x. \<not> in_range (pmm_bitmap s) (bitmap_bytes s) x \<longrightarrow> \<not> in_range (slab_ptr s i) 16 x \<longrightarrow>
        \<not> in_range b (ent i) x \<longrightarrow>
        (\<forall>f<page_total s. \<not> page_used s f \<longrightarrow> \<not> in_range (frame_addr f) 0x1000 x) \<longrightarrow>
        mem s' x = mem s x)"

definition slab_wf ::
  "('z) slab_state_scheme \<Rightarrow> nat set \<Rightarrow> (nat \<Rightarrow> nat set) \<Rightarrow> (nat \<Rightarrow> addr list) \<Rightarrow> bool" where
  "slab_wf s I G F \<longleftrightarrow> slab_inv s I G F \<and> lock_idle (pmm_lock s) \<and> lock_idle (slab_lock s)"

lemma blocks_insert: "blocks i (insert f A) = blocks i {f} \<union> blocks i A"
  by (auto simp: blocks_def)

lemma blocks_fresh:
  assumes "i < SLAB_COUNT" and "f < 2 ^ 35" and "f \<notin> A" and "\<forall>g\<in>A. g < 2 ^ 35"
  shows "blocks i {f} \<inter> blocks i A = {}"
proof -
  have "block i f k \<noteq> block i g l" if "g \<in> A" "k < nblocks i" "l < nblocks i" for g k l
    using that assms block_inject [OF assms(1) that(2,3) assms(2)] by auto
  then show ?thesis by (auto simp: blocks_def)
qed

text \<open>Popping the first block, from a list that a page may just have been added to.\<close>

lemma slab_alloc_pop:
  assumes "slab_inv s I G F" and "i \<in> I" and "F i = b # bs"
    and "s1 = st64 (slab_ptr s i) (ld64 s b) s"
    and "s' = s1\<lparr>mem := snd (memset (mem s1) b 0 (ld64 s1 (slab_ptr s i + 8)))\<rparr>"
  shows "slab_alloc_post s G F i b s' G (F(i := bs))"
proof -
  note pop = slab_pop [OF assms] and inv = slab_invD [OF assms(1,2)]
  have ok: "set (F i) \<subseteq> blocks i (G i)" "distinct (b # bs)"
    using inv(2) assms(3) by (auto simp: slab_ok_def)
  then have "slab_live G (F(i := bs)) i = insert b (slab_live G F i)" "b \<notin> slab_live G F i"
    using assms(3) by (auto simp: slab_live_def)
  moreover have lay: "same_layout s s'" by (simp add: same_layout_def assms(4,5) st64_def)
  moreover have "page_used s' j \<longleftrightarrow> page_used s j \<or> j \<in> G i" if "j < page_total s" for j
  proof -
    obtain f k where b: "b = block i f k" "f \<in> G i" "k < nblocks i"
      using ok(1) assms(3) unfolding blocks_def by auto
    have "block_write s i (block i f k) s'"
      using pop(5) b(1) lay by (simp add: block_write_def assms(4,5) st64_def)
    then have "page_used s' j = page_used s j"
      by (rule block_write_page_used [OF assms(1,2) b(2,3) _ that])
    then show ?thesis using inv(7) by (auto simp: slab_frame_def)
  qed
  moreover have "mem s' x = mem s x" if "\<not> in_range (slab_ptr s i) 16 x" "\<not> in_range b (ent i) x" for x
    using that pop(5) slab_ptr_halves(1) [OF inv(3,1)] by blast
  ultimately show ?thesis using pop(4) by (simp add: slab_alloc_post_def)
qed

lemma slab_alloc_post_after_page:
  assumes "slab_inv s I G F" and "i \<in> I" and "F i = []" and "page_added s i f s1"
    and "G1 = G(i := insert f (G i))" and "F1 = F(i := map (block i f) [0..<nblocks i])"
    and "b \<in> blocks i {f}" and "slab_alloc_post s1 G1 F1 i b s' G1 F'"
  shows "slab_alloc_post s G F i b s' G1 F'"
proof -
  note inv = slab_invD [OF assms(1,2)]
  have lay: "same_layout s s1" and f: "f < page_total s" "\<not> page_used s f"
    and used: "\<And>j. j < page_total s \<Longrightarrow> page_used s1 j \<longleftrightarrow> j = f \<or> page_used s j"
    and out: "\<And>x. \<not> in_range (pmm_bitmap s) (bitmap_bytes s) x \<Longrightarrow> \<not> in_range (slab_ptr s i) 16 x \<Longrightarrow>
      \<not> in_range (frame_addr f) 0x1000 x \<Longrightarrow> mem s1 x = mem s x"
    using assms(4) by (simp_all add: page_added_def)
  note l = same_layoutD [OF lay]
  have f35: "f < 2 ^ 35" using f(1) inv(5) by simp
  have fresh: "f \<notin> G i" using inv(7) f(2) by (auto simp: slab_frame_def)
  have "blocks i {f} \<inter> blocks i (G i) = {}"
    using inv(1,8) f35 fresh by (intro blocks_fresh) auto
  moreover have "set (F1 i) = blocks i {f}" using block_list(2) [OF inv(1) f35] by (simp add: assms(6))
  ultimately have live: "slab_live G1 F1 i = slab_live G F i"
    using blocks_insert [of i f "G i"] by (auto simp: slab_live_def assms(3,5))
  have frame: "mem s' x = mem s x" if "\<not> in_range (pmm_bitmap s) (bitmap_bytes s) x"
    "\<not> in_range (slab_ptr s i) 16 x" "\<not> in_range b (ent i) x"
    "\<forall>f<page_total s. \<not> page_used s f \<longrightarrow> \<not> in_range (frame_addr f) 0x1000 x" for x
    using that out [of x] f used assms(8) unfolding slab_alloc_post_def l by auto
  have G1: "G1 i = insert f (G i)" by (simp add: assms(5))
  show ?thesis
    using assms(8) live frame used f l fresh lay
    unfolding slab_alloc_post_def G1 by (auto simp: assms(5,6) same_layout_def)
qed

lemma slab_post_locks [simp]:
  "slab_alloc_post (s\<lparr>slab_lock := l\<rparr>) G F i b s' G' F' = slab_alloc_post s G F i b s' G' F'"
  "slab_alloc_post s G F i b (s'\<lparr>slab_lock := l\<rparr>) G' F' = slab_alloc_post s G F i b s' G' F'"
  by (simp_all add: slab_alloc_post_def same_layout_def page_total_def bitmap_bytes_def page_used_def
      bitmap_testbit_def bitmap_word_def)

lemma slab_lock_next_fit [simp]: "next_fit n (s\<lparr>slab_lock := l\<rparr>) = next_fit n s"
  by (simp add: next_fit_def run_free_def page_used_def bitmap_testbit_def bitmap_word_def page_total_def
      cong: option.case_cong)

text \<open>The body of \<^verbatim>\<open>slab_alloc\<close> between the two lock calls.\<close>

definition slab_take ::
  "addr \<Rightarrow> ('z) slab_state_scheme \<Rightarrow> ('z) slab_state_scheme" where
  "slab_take slab s =
     (let old_free = ld64 s slab; s1 = st64 slab (ld64 s old_free) s
      in s1\<lparr>mem := snd (memset (mem s1) old_free 0 (ld64 s1 (slab + 8)))\<rparr>)"

lemma slab_take_pop:
  assumes "slab_inv s I G F" and "i \<in> I" and "F i = b # bs"
  shows "ld64 s (slab_ptr s i) = b" and "slab_inv (slab_take (slab_ptr s i) s) I G (F(i := bs))"
    and "slab_alloc_post s G F i b (slab_take (slab_ptr s i) s) G (F(i := bs))"
    and "pmm_lock (slab_take (slab_ptr s i) s) = pmm_lock s" and "slab_lock (slab_take (slab_ptr s i) s) = slab_lock s"
    and "b \<noteq> 0"
proof -
  define s1 where "s1 = st64 (slab_ptr s i) (ld64 s b) s"
  define s' where "s' = s1\<lparr>mem := snd (memset (mem s1) b 0 (ld64 s1 (slab_ptr s i + 8)))\<rparr>"
  note pop = slab_pop [OF assms s1_def s'_def]
  have eq: "slab_take (slab_ptr s i) s = s'" using pop(1) by (simp add: slab_take_def Let_def s1_def s'_def)
  show "ld64 s (slab_ptr s i) = b" "b \<noteq> 0" by (rule pop)+
  show "slab_inv (slab_take (slab_ptr s i) s) I G (F(i := bs))" unfolding eq by (rule pop)
  show "slab_alloc_post s G F i b (slab_take (slab_ptr s i) s) G (F(i := bs))"
    unfolding eq by (rule slab_alloc_pop [OF assms s1_def s'_def])
  show "pmm_lock (slab_take (slab_ptr s i) s) = pmm_lock s" "slab_lock (slab_take (slab_ptr s i) s) = slab_lock s"
    unfolding eq by (simp_all add: s'_def s1_def st64_def)
qed

lemma slab_alloc_unfold:
  "slab_alloc c slab s =
     bindR (lock_acquire c ''slab_alloc'' (slab_lock s)) (\<lambda>l.
       bindR (if ld64 s slab = 0 then init_slab c slab (ld64 s (slab + 8)) (s\<lparr>slab_lock := l\<rparr>)
              else Inr (s\<lparr>slab_lock := l\<rparr>)) (\<lambda>s2.
         bindR (lock_release c (slab_lock (slab_take slab s2))) (\<lambda>l2.
           Inr (ld64 s2 slab, (slab_take slab s2)\<lparr>slab_lock := l2\<rparr>))))"
  by (simp add: slab_alloc_def slab_take_def Let_def cong: if_cong)

lemma slab_alloc_spec:
  assumes "slab_wf s I G F" and "i \<in> I"
  shows "if F i = [] \<and> next_fit 1 s = None
    then slab_alloc c (slab_ptr s i) s = Inl (Panic ''Kernel OOM'')
    else \<exists>b s' G' F'. slab_alloc c (slab_ptr s i) s = Inr (b, s') \<and>
      slab_alloc_post s G F i b s' G' F' \<and> slab_wf s' I G' F'"
proof -
  have inv0: "slab_inv s I G F" and idle: "lock_idle (pmm_lock s)" "lock_idle (slab_lock s)"
    using assms(1) by (simp_all add: slab_wf_def)
  note inv = slab_invD [OF inv0 assms(2)]
  obtain l1 l2 where l: "lock_acquire c ''slab_alloc'' (slab_lock s) = Inr l1"
    "lock_release c l1 = Inr l2" "lock_idle l2" using spinlock.section_runs [OF idle(2)] by metis
  let ?s = "s\<lparr>slab_lock := l1\<rparr>"
  have head: "free_list (mem s) (ld64 s (slab_ptr s i)) (F i)" "ld64 s (slab_ptr s i + 8) = slab_sizes ! i"
    using inv(2) by (simp_all add: slab_ok_def)
  show ?thesis
  proof (cases "F i")
    case (Cons b bs)
    note t = slab_take_pop [of ?s I G F i b bs, simplified, OF inv0 assms(2) Cons]
    show ?thesis using l t Cons idle
      by (auto simp: slab_alloc_unfold slab_wf_def intro!: exI [of _ G] exI [of _ "F(i := bs)"])
  next
    case Nil
    then have zero: "ld64 s (slab_ptr s i) = 0" using head by simp
    note ini = init_slab_spec [of ?s I G F i c, simplified, OF inv0 inv(1) Nil idle(1)]
    show ?thesis
    proof (cases "next_fit 1 s")
      case None
      then show ?thesis using l ini Nil zero head by (simp add: slab_alloc_unfold)
    next
      case (Some f)
      then obtain s1 where s1: "init_slab c (slab_ptr s i) (slab_sizes ! i) ?s = Inr s1"
        and add: "page_added ?s i f s1" and inv1: "slab_inv s1 (insert i I) (G(i := insert f (G i)))
          (F(i := map (block i f) [0..<nblocks i]))" and idle1: "lock_idle (pmm_lock s1)"
        using ini by auto
      define G1 F1 where "G1 = G(i := insert f (G i))" and "F1 = F(i := map (block i f) [0..<nblocks i])"
      have "[0..<nblocks i] = 0 # [1..<nblocks i]"
        using nblocks_values(1) [OF inv(1)] by (simp add: upt_conv_Cons)
      then have F1: "F1 i = block i f 0 # map (block i f) [1..<nblocks i]" by (simp add: F1_def)
      have inv1': "slab_inv s1 I G1 F1" using inv1 assms(2) by (simp add: G1_def F1_def insert_absorb)
      have lay: "slab_ptr s1 i = slab_ptr s i" "slab_lock s1 = l1"
        using add by (simp_all add: page_added_def same_layout_def slab_ptr_def)
      note t = slab_take_pop [OF inv1' assms(2) F1, unfolded lay]
      have "block i f 0 \<in> blocks i {f}" using nblocks_values(1) [OF inv(1)] by (force simp: blocks_def)
      then have "slab_alloc_post s G F i (block i f 0) (slab_take (slab_ptr s i) s1) G1
          (F1(i := map (block i f) [1..<nblocks i]))"
        using slab_alloc_post_after_page [of ?s I G F i f s1, simplified, OF inv0 assms(2) Nil add G1_def F1_def _ t(3)]
        by simp
      moreover have "slab_alloc c (slab_ptr s i) s =
          Inr (block i f 0, (slab_take (slab_ptr s i) s1)\<lparr>slab_lock := l2\<rparr>)"
        using l s1 zero head t by (simp add: slab_alloc_unfold)
      ultimately show ?thesis using Some t idle1 l(3)
        by (auto simp: slab_wf_def intro!: exI [of _ G1] exI [of _ "F1(i := map (block i f) [1..<nblocks i])"])
    qed
  qed
qed

lemma slab_live_block:
  assumes "slab_inv s I G F" and "j \<in> I" and "b \<in> slab_live G F j" and "in_range b (ent j) x"
  obtains g l where "b = block j g l" and "g \<in> G j" and "l < nblocks j" and "in_range (frame_addr g) 0x1000 x"
proof -
  note inv = slab_invD [OF assms(1,2)]
  obtain g l where b: "b = block j g l" "g \<in> G j" "l < nblocks j"
    using assms(3) unfolding slab_live_def blocks_def by blast
  then have "in_range (frame_addr g) 0x1000 x"
    using in_frame_range [OF inv(8) block_fits(1) [OF inv(1)]] assms(4) unfolding block_def by blast
  with b show thesis by (rule that)
qed

text \<open>Live blocks keep their contents, and do not overlap the new one.\<close>

lemma slab_alloc_post_live:
  assumes "slab_inv s I G F" and "slab_alloc_post s G F i b s' G' F'" and "slab_inv s' I G' F'"
    and "i \<in> I" and "j \<in> I" and "b' \<in> slab_live G F j"
  shows "disjoint_regions b (ent i) b' (ent j)" and "in_range b' (ent j) x \<Longrightarrow> mem s' x = mem s x"
proof -
  note inv = slab_invD [OF assms(1,5)] and inv' = slab_invD [OF assms(3,4)] and inv'' = slab_invD [OF assms(3,5)]
  have b: "b \<in> blocks i (G' i)" "b' \<in> blocks j (G' j)" and ne: "i = j \<Longrightarrow> b \<noteq> b'"
    using assms(2,6) unfolding slab_alloc_post_def slab_live_def by (cases "i = j"; auto)+
  obtain f k where bf: "b = block i f k" "f \<in> G' i" "k < nblocks i" using b(1) unfolding blocks_def by blast
  obtain g l where bg: "b' = block j g l" "g \<in> G' j" "l < nblocks j" using b(2) unfolding blocks_def by blast
  have "f \<noteq> g" if "i \<noteq> j" using assms(3-5) that bf(2) bg(2) unfolding slab_inv_def by blast
  then show dis: "disjoint_regions b (ent i) b' (ent j)"
    unfolding bf(1) bg(1) using bf bg ne inv'(1,8) inv''(1,8) by (intro block_disjoint) auto
  show "mem s' x = mem s x" if x: "in_range b' (ent j) x"
  proof -
    obtain h where h: "h \<in> G j" "in_range (frame_addr h) 0x1000 x"
      using slab_live_block [OF assms(1,5,6) x] by blast
    have hr: "slab_frame s j h" "h < 2 ^ 35" using inv(7,8) h(1) by auto
    have "\<not> in_range (frame_addr q) 0x1000 x" if "q < page_total s" "\<not> page_used s q" for q
    proof -
      have "q \<noteq> h" using hr(1) that(2) by (auto simp: slab_frame_def)
      then have "disjoint_regions (in_frame q 0) 0x1000 (in_frame h 0) 0x1000"
        using that(1) inv(5) hr(2) by (intro in_frame_disjoint) auto
      then show ?thesis using h(2) by (auto simp: disjoint_regions_def in_frame_def)
    qed
    moreover have "\<not> in_range (pmm_bitmap s) (bitmap_bytes s) x" "\<not> in_range (slab_ptr s i) 16 x"
      using hr(1) h(2) slab_ptr_in_table [OF inv(3) inv'(1)]
      unfolding slab_frame_def disjoint_regions_def by blast+
    moreover have "\<not> in_range b (ent i) x" using dis x by (auto simp: disjoint_regions_def)
    ultimately show ?thesis using assms(2) by (simp add: slab_alloc_post_def)
  qed
qed

text \<open>
  C8: \<^verbatim>\<open>slab_alloc\<close> returns a block of its slab that was not live, overlaps no live block of any slab and
  reads as zero; every live block keeps its contents, exactly that block becomes live, and the
  invariant holds again.  It panics exactly when the slab's free list is empty and no frame is free.
\<close>

theorem slab_alloc_correct:
  assumes "slab_wf s I G F" and "i \<in> I"
  shows "if F i = [] \<and> next_fit 1 s = None
    then slab_alloc c (slab_ptr s i) s = Inl (Panic ''Kernel OOM'')
    else \<exists>b s' G' F'. slab_alloc c (slab_ptr s i) s = Inr (b, s') \<and> slab_wf s' I G' F' \<and>
      b \<notin> slab_live G F i \<and> slab_live G' F' i = insert b (slab_live G F i) \<and>
      (\<forall>x. in_range b (ent i) x \<longrightarrow> mem s' x = 0) \<and>
      (\<forall>j\<in>I. \<forall>b'\<in>slab_live G F j. disjoint_regions b (ent i) b' (ent j) \<and>
         (\<forall>x. in_range b' (ent j) x \<longrightarrow> mem s' x = mem s x))"
proof (cases "F i = [] \<and> next_fit 1 s = None")
  case True
  then show ?thesis using slab_alloc_spec [OF assms, of c] by simp
next
  case False
  then obtain b s' G' F' where r: "slab_alloc c (slab_ptr s i) s = Inr (b, s')"
    "slab_alloc_post s G F i b s' G' F'" "slab_wf s' I G' F'"
    using slab_alloc_spec [OF assms, of c] by auto
  then have "slab_inv s I G F" "slab_inv s' I G' F'" using assms(1) by (simp_all add: slab_wf_def)
  note live = slab_alloc_post_live [OF this(1) r(2) this(2) assms(2)]
  show ?thesis using False r live by (auto simp: slab_alloc_post_def intro!: exI [of _ G'] exI [of _ F'])
qed

lemma slab_free_spec:
  assumes "slab_wf s I G F" and "i \<in> I" and "b \<in> slab_live G F i"
  shows "\<exists>s'. slab_free c (slab_ptr s i) b s = Inr s' \<and> slab_wf s' I G (F(i := b # F i)) \<and>
    same_layout s s' \<and> (\<forall>j<page_total s. page_used s' j = page_used s j) \<and>
    (\<forall>x. \<not> in_range (slab_ptr s i) 8 x \<longrightarrow> \<not> in_range b 8 x \<longrightarrow> mem s' x = mem s x)"
proof -
  have inv0: "slab_inv s I G F" and idle: "lock_idle (pmm_lock s)" "lock_idle (slab_lock s)"
    using assms(1) by (simp_all add: slab_wf_def)
  note inv = slab_invD [OF inv0 assms(2)]
  obtain l1 l2 where l: "lock_acquire c ''slab_free'' (slab_lock s) = Inr l1"
    "lock_release c l1 = Inr l2" "lock_idle l2" using spinlock.section_runs [OF idle(2)] by metis
  define s3 where "s3 = st64 (slab_ptr s i) b (st64 b (ld64 s (slab_ptr s i)) (s\<lparr>slab_lock := l1\<rparr>))"
  note push = slab_push [of "s\<lparr>slab_lock := l1\<rparr>" I G F i b s3, simplified, OF inv0 assms(2,3) s3_def]
  have bl: "b \<in> blocks i (G i)" using assms(3) by (simp add: slab_live_def)
  obtain f k where b: "b = block i f k" "f \<in> G i" "k < nblocks i" "b \<noteq> 0"
    using block_apart_table [OF inv0 assms(2) bl] by blast
  define s' where "s' = s3\<lparr>slab_lock := l2\<rparr>"
  have r: "slab_free c (slab_ptr s i) b s = Inr s'"
    using l b(4) by (simp add: slab_free_def Let_def s3_def s'_def st64_def)
  have lay: "same_layout s s'" by (simp add: same_layout_def s'_def s3_def st64_def)
  have out: "mem s' x = mem s x" if "\<not> in_range (slab_ptr s i) 8 x" "\<not> in_range b 8 x" for x
    using that push(2) by (simp add: s'_def s3_def)
  have "block_write s i (block i f k) s'"
    using out lay ent_values(2) [OF inv(1)] b(1)
    by (auto simp: block_write_def in_range_def s'_def s3_def st64_def)
  then have used: "\<forall>j<page_total s. page_used s' j = page_used s j"
    using block_write_page_used [OF inv0 assms(2) b(2,3)] by blast
  have "slab_inv s3 I G (F(i := b # F i))" using push(1) by (simp add: s3_def)
  moreover have "pmm_lock s3 = pmm_lock s" by (simp add: s3_def st64_def)
  ultimately have "slab_wf s' I G (F(i := b # F i))" using l(3) idle(1) by (simp add: slab_wf_def s'_def)
  then show ?thesis using r lay out used by blast
qed

text \<open>
  C9: \<^verbatim>\<open>slab_free\<close> of a live block succeeds, makes exactly that block free, leaves the contents of all
  other live blocks alone and keeps the invariant; the next \<^verbatim>\<open>slab_alloc\<close> of the slab returns the
  freed block again.
\<close>

theorem slab_free_correct:
  assumes "slab_wf s I G F" and "i \<in> I" and "b \<in> slab_live G F i"
  shows "\<exists>s' F'. slab_free c (slab_ptr s i) b s = Inr s' \<and> slab_wf s' I G F' \<and>
    slab_live G F' i = slab_live G F i - {b} \<and>
    (\<forall>j\<in>I. \<forall>b'\<in>slab_live G F j. (i, b) \<noteq> (j, b') \<longrightarrow>
       (\<forall>x. in_range b' (ent j) x \<longrightarrow> mem s' x = mem s x)) \<and>
    (\<exists>s''. slab_alloc c (slab_ptr s i) s' = Inr (b, s''))"
proof -
  obtain s' where s': "slab_free c (slab_ptr s i) b s = Inr s'" "slab_wf s' I G (F(i := b # F i))"
    "same_layout s s'"
    "\<And>x. \<not> in_range (slab_ptr s i) 8 x \<Longrightarrow> \<not> in_range b 8 x \<Longrightarrow> mem s' x = mem s x"
    using slab_free_spec [OF assms, of c] by blast
  have inv0: "slab_inv s I G F" using assms(1) by (simp add: slab_wf_def)
  note inv = slab_invD [OF inv0 assms(2)]
  obtain f k where bf: "b = block i f k" "f \<in> G i" "k < nblocks i"
    using assms(3) unfolding slab_live_def blocks_def by blast
  have keep: "mem s' x = mem s x" if j: "j \<in> I" "b' \<in> slab_live G F j" "(i, b) \<noteq> (j, b')"
    and x: "in_range b' (ent j) x" for j b' x
  proof (rule s'(4))
    note invj = slab_invD [OF inv0 j(1)]
    obtain g l where bg: "b' = block j g l" "g \<in> G j" "l < nblocks j" "in_range (frame_addr g) 0x1000 x"
      using slab_live_block [OF inv0 j(1,2) x] by blast
    show "\<not> in_range (slab_ptr s i) 8 x"
      using invj(7) [OF bg(2)] bg(4) slab_ptr_in_table [OF inv(3,1)] slab_ptr_halves(1) [OF inv(3,1)]
      unfolding slab_frame_def disjoint_regions_def by blast
    have "f \<noteq> g" if "i \<noteq> j" using inv0 assms(2) j(1) that bf(2) bg(2) unfolding slab_inv_def by blast
    then have "disjoint_regions (block i f k) (ent i) (block j g l) (ent j)"
      using bf bg j(3) inv(1,8) invj(1,8) by (intro block_disjoint) auto
    then show "\<not> in_range b 8 x"
      using x ent_values(2) [OF inv(1)] unfolding bf(1) bg(1) disjoint_regions_def in_range_def by fastforce
  qed
  have "slab_live G (F(i := b # F i)) i = slab_live G F i - {b}" by (auto simp: slab_live_def)
  moreover have "\<exists>s''. slab_alloc c (slab_ptr s i) s' = Inr (b, s'')"
  proof -
    have "slab_ptr s' i = slab_ptr s i" by (rule same_layoutD(5) [OF s'(3)])
    moreover obtain l1 l2 where "lock_acquire c ''slab_alloc'' (slab_lock s') = Inr l1" "lock_release c l1 = Inr l2"
      using spinlock.section_runs s'(2) unfolding slab_wf_def by metis
    moreover have "slab_inv (s'\<lparr>slab_lock := l1\<rparr>) I G (F(i := b # F i))" using s'(2) by (simp add: slab_wf_def)
    note slab_take_pop [OF this assms(2), simplified]
    ultimately show ?thesis by (simp add: slab_alloc_unfold)
  qed
  ultimately show ?thesis using s'(1,2) keep by blast
qed

section \<open>Size classes and boot\<close>

lemma find_slab_eq:
  assumes "slab_inv s {..<SLAB_COUNT} G F"
  shows "find_slab sz s = (case List.find (\<lambda>i. unat sz \<le> ent i) [0..<SLAB_COUNT] of
    Some i \<Rightarrow> slab_ptr s i | None \<Rightarrow> 0)"
proof -
  have "ld64 s (slab_ptr s i + 8) = slab_sizes ! i" if "i < SLAB_COUNT" for i
    using slab_invD(2) [OF assms, of i] that by (simp add: slab_ok_def)
  then have "List.find (\<lambda>i. ld64 s (slab_ptr s i + 8) \<ge> sz) [0..<SLAB_COUNT] =
      List.find (\<lambda>i. unat sz \<le> ent i) [0..<SLAB_COUNT]"
    by (intro find_cong) (auto simp: ent_def word_le_nat_alt)
  then show ?thesis by (simp add: find_slab_def)
qed

lemma find_slab_cases:
  assumes "slab_inv s {..<SLAB_COUNT} G F"
  shows "0x400 < unat sz \<Longrightarrow> find_slab sz s = 0"
    and "unat sz \<le> 0x400 \<Longrightarrow> \<exists>i<SLAB_COUNT. find_slab sz s = slab_ptr s i \<and> unat sz \<le> ent i \<and>
      (\<forall>j<i. ent j < unat sz) \<and> slab_ptr s i \<noteq> 0"
proof -
  show "find_slab sz s = 0" if "0x400 < unat sz"
  proof -
    have "List.find (\<lambda>i. unat sz \<le> ent i) [0..<SLAB_COUNT] = None"
      using that ent_values(3) by (fastforce simp: find_None_iff)
    then show ?thesis by (simp add: find_slab_eq [OF assms])
  qed
  show "\<exists>i<SLAB_COUNT. find_slab sz s = slab_ptr s i \<and> unat sz \<le> ent i \<and>
      (\<forall>j<i. ent j < unat sz) \<and> slab_ptr s i \<noteq> 0" if "unat sz \<le> 0x400"
  proof -
    have "ent 9 = 0x400" "9 < SLAB_COUNT" by (simp_all add: ent_def slab_sizes_def SLAB_COUNT_def)
    then have "List.find (\<lambda>i. unat sz \<le> ent i) [0..<SLAB_COUNT] \<noteq> None"
      using that by (auto simp: find_None_iff)
    then obtain i where i: "List.find (\<lambda>i. unat sz \<le> ent i) [0..<SLAB_COUNT] = Some i" by blast
    then have "i < SLAB_COUNT" "unat sz \<le> ent i" "\<forall>j<i. ent j < unat sz"
      by (auto simp: find_Some_iff not_le)
    moreover have "table_ok s" using assms by (simp add: slab_inv_def)
    then have "slab_ptr s i \<noteq> 0"
      using slab_ptr_unat(1) [of s i] \<open>i < SLAB_COUNT\<close> by (auto simp: table_ok_def)
    ultimately show ?thesis using i by (auto simp: find_slab_eq [OF assms])
  qed
qed

lemma next_fit_one:
  assumes "unat (last_used_index s) \<le> page_total s"
  shows "next_fit 1 s = None \<longleftrightarrow> free_frames s = {}"
proof -
  have rf: "(\<lambda>a. run_free s a 1) = (\<lambda>a. \<not> page_used s a)" by (simp add: run_free_def fun_eq_iff)
  have none: "List.find P [lo..<hi] = None \<longleftrightarrow> (\<forall>a. lo \<le> a \<and> a < hi \<longrightarrow> \<not> P a)" for P lo hi
    by (auto simp: find_None_iff)
  have "next_fit 1 s = None \<longleftrightarrow>
      (\<forall>a. unat (last_used_index s) \<le> a \<and> a < page_total s \<longrightarrow> page_used s a) \<and>
      (\<forall>a. a < unat (last_used_index s) \<longrightarrow> page_used s a)"
    unfolding next_fit_def rf diff_Suc_1 by (auto simp: none option.case_eq_if)
  also have "\<dots> \<longleftrightarrow> (\<forall>a<page_total s. page_used s a)"
    using assms by (meson linorder_not_less order_less_le_trans)
  finally show ?thesis by (auto simp: free_frames_def)
qed

lemma page_added_free_frames:
  assumes "page_added s i f s'"
  shows "free_frames s' = free_frames s - {f}" and "f \<in> free_frames s"
  using assms by (auto simp: page_added_def free_frames_def page_total_def same_layout_def)

lemma length_slab_sizes: "length slab_sizes = SLAB_COUNT"
  by (simp add: slab_sizes_def SLAB_COUNT_def)

lemma init_slabs_spec:
  assumes "slab_inv s {..<i} G F" and "lock_idle (pmm_lock s)" and "es = drop i slab_sizes"
    and "length es \<le> card (free_frames s)" and "\<forall>j. slab_live G F j = {}" and "i \<le> SLAB_COUNT"
  shows "\<exists>s' G' F'. init_slabs c i es s = Inr s' \<and> slab_inv s' {..<SLAB_COUNT} G' F' \<and>
    lock_idle (pmm_lock s') \<and> slab_lock s' = slab_lock s \<and> (\<forall>j. slab_live G' F' j = {}) \<and>
    same_layout s s' \<and> card (free_frames s') = card (free_frames s) - length es"
  using assms
proof (induction es arbitrary: i s G F)
  case Nil
  then have "i = SLAB_COUNT" by (auto simp: slab_sizes_def SLAB_COUNT_def)
  then show ?case using Nil by (auto simp: same_layout_def)
next
  case (Cons e es)
  have "drop i slab_sizes \<noteq> []" using Cons.prems(3) by (metis list.discI)
  then have i: "i < SLAB_COUNT" by (simp add: length_slab_sizes)
  have e: "e = slab_sizes ! i" "es = drop (Suc i) slab_sizes"
    using Cons.prems(3) Cons_nth_drop_Suc [of i slab_sizes] i unfolding length_slab_sizes
    by (metis list.inject)+
  have "F i = []" using Cons.prems(1) by (simp add: slab_inv_def)
  note spec = init_slab_spec [OF Cons.prems(1) i this Cons.prems(2), of c]
  have "free_frames s \<noteq> {}" using Cons.prems(4) by auto
  moreover have "unat (last_used_index s) \<le> page_total s"
    using Cons.prems(1) by (simp add: slab_inv_def pmm_inv_def)
  ultimately obtain f where f: "next_fit 1 s = Some f" using next_fit_one by blast
  then obtain s1 where s1: "init_slab c (slab_ptr s i) e s = Inr s1" "page_added s i f s1"
    "slab_inv s1 (insert i {..<i}) (G(i := insert f (G i))) (F(i := map (block i f) [0..<nblocks i]))"
    "lock_idle (pmm_lock s1)" using spec e(1) by auto
  have Gi: "G i = {}" using Cons.prems(1) by (simp add: slab_inv_def)
  have "f < 2 ^ 35" using s1(2) Cons.prems(1) by (auto simp: page_added_def slab_inv_def pmm_inv_def bitmap_ok_def)
  note bl = block_list(2) [OF i this]
  have live: "\<forall>j. slab_live (G(i := insert f (G i))) (F(i := map (block i f) [0..<nblocks i])) j = {}"
    using Cons.prems(5) bl Gi by (auto simp: slab_live_def)
  note fr = page_added_free_frames [OF s1(2)]
  have card: "card (free_frames s1) = card (free_frames s) - 1" using fr by simp
  have "\<exists>s' G' F'. init_slabs c (Suc i) es s1 = Inr s' \<and> slab_inv s' {..<SLAB_COUNT} G' F' \<and>
    lock_idle (pmm_lock s') \<and> slab_lock s' = slab_lock s1 \<and> (\<forall>j. slab_live G' F' j = {}) \<and>
    same_layout s1 s' \<and> card (free_frames s') = card (free_frames s1) - length es"
  proof (rule Cons.IH)
    show "slab_inv s1 {..<Suc i} (G(i := insert f (G i))) (F(i := map (block i f) [0..<nblocks i]))"
      using s1(3) by (simp add: lessThan_Suc)
    show "length es \<le> card (free_frames s1)" using Cons.prems(4) card by simp
    show "\<forall>j. slab_live (G(i := insert f (G i))) (F(i := map (block i f) [0..<nblocks i])) j = {}"
      by (rule live)
  qed (use s1(4) e(2) i in simp_all)
  moreover have "slab_lock s1 = slab_lock s" "same_layout s s1" using s1(2) by (auto simp: page_added_def)
  ultimately show ?case using s1(1) card by (auto simp: same_layout_def)
qed

text \<open>
  With at least ten free frames, \<^verbatim>\<open>slaballoc_init\<close> succeeds and sets up all ten slabs: the allocator's
  invariant holds and no block is live.
\<close>

lemma slaballoc_init_spec:
  assumes "pmm_wf s" and "table_ok s" and "lock_idle (slab_lock s)" and "10 \<le> card (free_frames s)"
  shows "\<exists>s' G F. slaballoc_init c s = Inr s' \<and> slab_wf s' {..<SLAB_COUNT} G F \<and>
    (\<forall>j. slab_live G F j = {}) \<and> card (free_frames s') = card (free_frames s) - 10"
proof -
  have "slab_inv s {..<0} (\<lambda>_. {}) (\<lambda>_. [])" using assms(1,2) by (simp add: slab_inv_def pmm_wf_def)
  moreover have "\<forall>j. slab_live (\<lambda>_. {}) (\<lambda>_. []) j = {}" by (simp add: slab_live_def blocks_def)
  moreover have "length slab_sizes = 10" by (simp add: slab_sizes_def)
  ultimately obtain s' G F where "init_slabs c 0 slab_sizes s = Inr s'" "slab_inv s' {..<SLAB_COUNT} G F"
    "lock_idle (pmm_lock s')" "slab_lock s' = slab_lock s" "\<forall>j. slab_live G F j = {}"
    "card (free_frames s') = card (free_frames s) - 10"
    using init_slabs_spec [of s 0 "\<lambda>_. {}" "\<lambda>_. []" slab_sizes c] assms(1,4) by (auto simp: pmm_wf_def)
  then show ?thesis using assms(3) unfolding slaballoc_init_def slab_wf_def by metis
qed

end
