(* ===== verification/Malloc.thy ===== *)
theory Malloc
  imports SlabSpec
begin

text \<open>
  The kernel heap of \<^verbatim>\<open>kernel/src/mem/malloc.c\<close>: requests up to 1016 bytes come from the slabs, larger
  ones are runs of frames with a metadata frame in front.  The theory shows that \<^verbatim>\<open>malloc\<close> returns fresh
  zeroed memory of at least the requested size that overlaps no live allocation, that \<^verbatim>\<open>free\<close> undoes it
  by the address alone, and that neither disturbs the contents of any other live allocation.
\<close>

section \<open>Definitions\<close>

record heap_state = slab_state +
  have_malloc :: bool

definition big_malloc ::
  "cpu_ctx \<Rightarrow> u64 \<Rightarrow> ('z) heap_state_scheme \<Rightarrow> kstop + (addr \<times> ('z) heap_state_scheme)" where
  "big_malloc c len s =
     (let page_count = div_roundup len PAGE_SIZE
      in bindR (pmm_alloc c (page_count + 1) s) (\<lambda>(ptr, s1).
        if ptr = 0 then Inr (0, s1)
        else
          (let metadata = ptr + HIGHER_HALF;
               s2 = st64 metadata page_count s1;
               s3 = st64 (metadata + 8) len s2
           in Inr (ptr + HIGHER_HALF + PAGE_SIZE, s3))))"

definition malloc ::
  "cpu_ctx \<Rightarrow> u64 \<Rightarrow> ('z) heap_state_scheme \<Rightarrow> kstop + (addr \<times> ('z) heap_state_scheme)" where
  "malloc c len s =
     (let s1 = s\<lparr>have_malloc := False\<rparr>;
          slab = find_slab (8 + len) s1
      in bindR (if slab = 0 then big_malloc c len s1 else slab_alloc c slab s1) (\<lambda>(ret, s2).
           Inr (ret, s2\<lparr>have_malloc := True\<rparr>)))"

definition big_free ::
  "cpu_ctx \<Rightarrow> addr \<Rightarrow> ('z) heap_state_scheme \<Rightarrow> kstop + ('z) heap_state_scheme" where
  "big_free c ptr s =
     (let metadata = ptr - PAGE_SIZE
      in pmm_free c (metadata - HIGHER_HALF) (ld64 s metadata + 1) s)"

definition free :: "cpu_ctx \<Rightarrow> addr \<Rightarrow> ('z) heap_state_scheme \<Rightarrow> kstop + ('z) heap_state_scheme" where
  "free c ptr s =
     (if ptr = 0 then Inr s
      else if ptr AND 0xFFF = 0 then big_free c ptr s
      else (let slab_hdr = ptr AND NOT 0xFFF in slab_free c (ld64 s slab_hdr) ptr s))"

definition big_realloc ::
  "cpu_ctx \<Rightarrow> addr \<Rightarrow> u64 \<Rightarrow> ('z) heap_state_scheme \<Rightarrow> kstop + (addr \<times> ('z) heap_state_scheme)" where
  "big_realloc c ptr len s =
     (let metadata = ptr - PAGE_SIZE
      in if div_roundup (ld64 s (metadata + 8)) PAGE_SIZE = div_roundup len PAGE_SIZE
         then Inr (ptr, st64 (metadata + 8) len s)
         else bindR (malloc c len s) (\<lambda>(new_ptr, s1).
           if new_ptr = 0 then Inr (0, s1)
           else
             (let size = ld64 s1 (metadata + 8);
                  s2 = (if size > len then s1\<lparr>mem := snd (memcpy (mem s1) new_ptr ptr len)\<rparr>
                        else s1\<lparr>mem := snd (memcpy (mem s1) new_ptr ptr size)\<rparr>)
              in bindR (free c ptr s2) (\<lambda>s3. Inr (new_ptr, s3)))))"

definition realloc ::
  "cpu_ctx \<Rightarrow> addr \<Rightarrow> u64 \<Rightarrow> ('z) heap_state_scheme \<Rightarrow> kstop + (addr \<times> ('z) heap_state_scheme)" where
  "realloc c ptr len s =
     (if ptr = 0 then malloc c len s
      else if ptr AND 0xFFF = 0 then big_realloc c ptr len s
      else
        (let slab_hdr = ptr AND NOT 0xFFF; slab = ld64 s slab_hdr
         in if len > ld64 s (slab + 8)
            then bindR (malloc c len s) (\<lambda>(new_ptr, s1).
              let slab1 = ld64 s1 slab_hdr;
                  s2 = s1\<lparr>mem := snd (memcpy (mem s1) new_ptr ptr (ld64 s1 (slab1 + 8)))\<rparr>
              in bindR (slab_free c (ld64 s2 slab_hdr) ptr s2) (\<lambda>s3. Inr (new_ptr, s3)))
            else Inr (ptr, s)))"

section \<open>The heap invariant\<close>

text \<open>\<open>n\<close> data frames behind a metadata frame \<open>f\<close>, handed out as one allocation.\<close>

definition big_ok :: "('z) slab_state_scheme \<Rightarrow> nat \<Rightarrow> nat \<Rightarrow> bool" where
  "big_ok s f n \<longleftrightarrow> 0 < f \<and> 0 < n \<and> f + n < page_total s \<and>
     (\<forall>g\<in>{f..f + n}. page_used s g \<and>
        disjoint_regions (frame_addr g) 0x1000 (pmm_bitmap s) (bitmap_bytes s) \<and>
        disjoint_regions (frame_addr g) 0x1000 (slabs s) 160) \<and>
     ld64 s (frame_addr f) = of_nat n \<and> unat (ld64 s (frame_addr f + 8)) \<le> n * 0x1000"

definition heap_inv ::
  "('z) slab_state_scheme \<Rightarrow> (nat \<Rightarrow> nat set) \<Rightarrow> (nat \<Rightarrow> addr list) \<Rightarrow> (nat \<rightharpoonup> nat) \<Rightarrow> bool" where
  "heap_inv s G F B \<longleftrightarrow> slab_wf s {..<SLAB_COUNT} G F \<and>
     (\<forall>f n. B f = Some n \<longrightarrow> big_ok s f n \<and> (\<forall>i<SLAB_COUNT. {f..f + n} \<inter> G i = {})) \<and>
     (\<forall>f n g m. B f = Some n \<longrightarrow> B g = Some m \<longrightarrow> f \<noteq> g \<longrightarrow> {f..f + n} \<inter> {g..g + m} = {})"

text \<open>The live allocations: start address and usable size.\<close>

definition heap_live :: "(nat \<Rightarrow> nat set) \<Rightarrow> (nat \<Rightarrow> addr list) \<Rightarrow> (nat \<rightharpoonup> nat) \<Rightarrow> (addr \<times> nat) set" where
  "heap_live G F B = {(b, ent i) | b i. i < SLAB_COUNT \<and> b \<in> slab_live G F i} \<union>
     {(frame_addr (f + 1), n * 0x1000) | f n. B f = Some n}"

lemma heap_live_iff:
  "(q, m) \<in> heap_live G F B \<longleftrightarrow> (\<exists>i<SLAB_COUNT. q \<in> slab_live G F i \<and> m = ent i) \<or>
     (\<exists>f n. B f = Some n \<and> q = frame_addr (f + 1) \<and> m = n * 0x1000)"
  by (auto simp: heap_live_def)

text \<open>The frames behind an allocation.\<close>

definition heap_frame :: "(nat \<Rightarrow> nat set) \<Rightarrow> (nat \<rightharpoonup> nat) \<Rightarrow> nat set" where
  "heap_frame G B = (\<Union>i<SLAB_COUNT. G i) \<union> {g. \<exists>f n. B f = Some n \<and> g \<in> {f..f + n}}"

lemma heap_frameI:
  "i < SLAB_COUNT \<Longrightarrow> g \<in> G i \<Longrightarrow> g \<in> heap_frame G B" "B f = Some n \<Longrightarrow> g \<in> {f..f + n} \<Longrightarrow> g \<in> heap_frame G B"
  by (auto simp: heap_frame_def)

lemma heap_invD:
  assumes "heap_inv s G F B"
  shows "slab_wf s {..<SLAB_COUNT} G F" "slab_inv s {..<SLAB_COUNT} G F" "pmm_inv s" "table_ok s"
    "page_total s \<le> 2 ^ 35" "bitmap_ok s" "B f = Some n \<Longrightarrow> big_ok s f n"
  using assms by (auto simp: heap_inv_def slab_wf_def slab_inv_def pmm_inv_def bitmap_ok_def)

lemma heap_frame_facts:
  assumes "heap_inv s G F B" and "g \<in> heap_frame G B"
  shows "g < page_total s" "page_used s g" "g < 2 ^ 35"
    "disjoint_regions (frame_addr g) 0x1000 (pmm_bitmap s) (bitmap_bytes s)"
    "disjoint_regions (frame_addr g) 0x1000 (slabs s) 160"
proof -
  note inv = heap_invD [OF assms(1)]
  have "g < page_total s \<and> page_used s g \<and>
    disjoint_regions (frame_addr g) 0x1000 (pmm_bitmap s) (bitmap_bytes s) \<and>
    disjoint_regions (frame_addr g) 0x1000 (slabs s) 160"
  proof (cases "\<exists>i<SLAB_COUNT. g \<in> G i")
    case True
    then show ?thesis using slab_invD(7) [OF inv(2)] by (auto simp: slab_frame_def)
  next
    case False
    then obtain f n where "B f = Some n" "g \<in> {f..f + n}" using assms(2) by (auto simp: heap_frame_def)
    then show ?thesis using inv(7) by (fastforce simp: big_ok_def)
  qed
  then show "g < page_total s" "page_used s g" "g < 2 ^ 35"
    "disjoint_regions (frame_addr g) 0x1000 (pmm_bitmap s) (bitmap_bytes s)"
    "disjoint_regions (frame_addr g) 0x1000 (slabs s) 160" using inv(5) by auto
qed

lemma frames_apart:
  assumes "f < 2 ^ 35" and "g < 2 ^ 35" and "f \<noteq> g"
  shows "disjoint_regions (frame_addr f) 0x1000 (frame_addr g) 0x1000"
  using in_frame_disjoint [where f = f and g = g and a = 0 and n = "0x1000" and b = 0 and k = "0x1000"] assms by (simp add: in_frame_def)

lemma frame_unique:
  assumes "f < 2 ^ 35" and "g < 2 ^ 35" and "in_range (frame_addr f) 0x1000 x" and "in_range (frame_addr g) 0x1000 x"
  shows "f = g"
  using frames_apart [OF assms(1,2)] assms(3,4) by (auto simp: disjoint_regions_def)

lemma block_frame:
  assumes "i < SLAB_COUNT" and "\<forall>f\<in>A. f < 2 ^ 35" and "b \<in> blocks i A" and "in_range b (ent i) x"
  obtains g where "g \<in> A" and "in_range (frame_addr g) 0x1000 x"
proof -
  obtain g k where b: "b = block i g k" "g \<in> A" "k < nblocks i"
    using assms(3) unfolding blocks_def by blast
  then have "in_range (frame_addr g) 0x1000 x"
    using in_frame_range [OF _ block_fits(1) [OF assms(1)]] assms(2,4) unfolding block_def by blast
  then show thesis using b(2) that by blast
qed

lemma block_page:
  assumes "i < SLAB_COUNT" and "\<forall>f\<in>A. f < 2 ^ 35" and "b \<in> blocks i A"
  shows "b \<noteq> 0" and "b AND 0xFFF \<noteq> 0" and "\<exists>f\<in>A. b AND NOT 0xFFF = frame_addr f"
proof -
  obtain f k where b: "b = in_frame f (ent i * (k + 1))" "f \<in> A" "k < nblocks i"
    using assms(3) unfolding blocks_def block_def by blast
  have k: "0 < ent i * (k + 1)" "ent i * (k + 1) < 0x1000"
    using block_fits [OF assms(1) b(3)] ent_values(2) [OF assms(1)] by linarith+
  have f: "f < 2 ^ 35" using assms(2) b(2) by blast
  show "b \<noteq> 0" unfolding b(1) by (rule in_frame_nonzero [OF f k(2)])
  have "unat (of_nat (ent i * (k + 1)) :: u64) = ent i * (k + 1)" using k(2) by (intro unat_of_nat_u64) simp
  then show "b AND 0xFFF \<noteq> 0" unfolding b(1) in_frame_bits(1) [OF f k(2)] using k(1) by (metis unat_0 less_irrefl)
  show "\<exists>f\<in>A. b AND NOT 0xFFF = frame_addr f" using in_frame_bits(2) [OF f k(2)] b(1,2) by blast
qed

lemma big_frame:
  assumes "big_ok s f n" and "page_total s \<le> 2 ^ 35" and "in_range (frame_addr (f + 1)) (n * 0x1000) x"
  obtains g where "g \<in> {f + 1..f + n}" and "in_range (frame_addr g) 0x1000 x"
proof -
  have "f + 1 + n \<le> 2 ^ 35" using assms(1,2) by (simp add: big_ok_def)
  from in_run_frame [OF assms(3) this] obtain k where "k < n" "in_range (frame_addr (f + 1 + k)) 0x1000 x"
    by blast
  then show thesis using that [of "f + 1 + k"] by simp
qed

lemma slab_frames_bound: "slab_inv s I G F \<Longrightarrow> i \<in> I \<Longrightarrow> \<forall>f\<in>G i. f < 2 ^ 35"
  using slab_invD(8) by blast

lemma heap_live_cases:
  assumes "heap_inv s G F B" and "(q, m) \<in> heap_live G F B"
  obtains (slab) i where "i < SLAB_COUNT" and "q \<in> slab_live G F i" and "m = ent i"
      and "\<And>x. in_range q m x \<Longrightarrow> \<exists>g\<in>G i. in_range (frame_addr g) 0x1000 x"
    | (big) f n where "B f = Some n" and "q = frame_addr (f + 1)" and "m = n * 0x1000" and "big_ok s f n"
      and "\<And>x. in_range q m x \<Longrightarrow> \<exists>g\<in>{f + 1..f + n}. in_range (frame_addr g) 0x1000 x"
proof -
  note inv = heap_invD [OF assms(1)]
  from assms(2) consider (a) i where "i < SLAB_COUNT" "q \<in> slab_live G F i" "m = ent i"
    | (b) f n where "B f = Some n" "q = frame_addr (f + 1)" "m = n * 0x1000"
    by (auto simp: heap_live_def)
  then show thesis
  proof cases
    case a
    have bnd: "\<forall>f\<in>G i. f < 2 ^ 35" using slab_frames_bound [OF inv(2)] a(1) by simp
    have bl: "q \<in> blocks i (G i)" using a(2) by (simp add: slab_live_def)
    have "\<exists>g\<in>G i. in_range (frame_addr g) 0x1000 x" if "in_range q m x" for x
      using block_frame [OF a(1) bnd bl] that unfolding a(3) by metis
    then show thesis using slab a by blast
  next
    case b
    have "\<exists>g\<in>{f + 1..f + n}. in_range (frame_addr g) 0x1000 x" if "in_range q m x" for x
      using big_frame [OF inv(7) [OF b(1)] inv(5)] b that by blast
    then show thesis using big b inv(7) by blast
  qed
qed

lemma heap_live_frame:
  assumes "heap_inv s G F B" and "(q, m) \<in> heap_live G F B" and "in_range q m x"
  obtains g where "g \<in> heap_frame G B" and "in_range (frame_addr g) 0x1000 x"
  using assms(1,2)
proof (cases rule: heap_live_cases)
  case (slab i)
  obtain g where g: "g \<in> G i" "in_range (frame_addr g) 0x1000 x" using slab(4) assms(3) by blast
  then have "g \<in> heap_frame G B" using slab(1) unfolding heap_frame_def by blast
  then show thesis using that g(2) by blast
next
  case (big f n)
  obtain g where g: "g \<in> {f + 1..f + n}" "in_range (frame_addr g) 0x1000 x" using big(5) assms(3) by blast
  then have "g \<in> heap_frame G B" using big(1) unfolding heap_frame_def by auto
  then show thesis using that g(2) by blast
qed

lemma live_pos: "heap_inv s G F B \<Longrightarrow> (p, m) \<in> heap_live G F B \<Longrightarrow> 0 < m"
  by (erule (1) heap_live_cases) (auto simp: big_ok_def dest: ent_values(2))

text \<open>Distinct live allocations never overlap.\<close>

lemma heap_live_slab_disjoint:
  assumes "heap_inv s G F B" and "i < SLAB_COUNT" and "j < SLAB_COUNT" and "p \<in> slab_live G F i"
    and "q \<in> slab_live G F j" and "i \<noteq> j \<or> p \<noteq> q"
  shows "disjoint_regions p (ent i) q (ent j)"
proof -
  note inv = heap_invD [OF assms(1)]
  obtain f k where p: "p = block i f k" "f \<in> G i" "k < nblocks i" using assms(4) unfolding slab_live_def blocks_def by blast
  obtain g l where q: "q = block j g l" "g \<in> G j" "l < nblocks j" using assms(5) unfolding slab_live_def blocks_def by blast
  have "f \<noteq> g" if "i \<noteq> j" using inv(2) assms(2,3) that p(2) q(2) unfolding slab_inv_def by blast
  then show ?thesis unfolding p(1) q(1)
    using p q assms(2,3,6) slab_frames_bound [OF inv(2)] by (intro block_disjoint) auto
qed

lemma heap_live_disjoint:
  assumes "heap_inv s G F B" and "(p, m) \<in> heap_live G F B" and "(q, k) \<in> heap_live G F B" and "(p, m) \<noteq> (q, k)"
  shows "disjoint_regions p m q k"
proof -
  note inv = heap_invD [OF assms(1)]
  have frames: "disjoint_regions p m q k"
    if "\<And>x. in_range p m x \<Longrightarrow> \<exists>g\<in>A. in_range (frame_addr g) 0x1000 x"
      and "\<And>x. in_range q k x \<Longrightarrow> \<exists>g\<in>A'. in_range (frame_addr g) 0x1000 x"
      and "A \<inter> A' = {}" and "A \<subseteq> heap_frame G B" and "A' \<subseteq> heap_frame G B" for A A'
    unfolding disjoint_regions_def
    using that frame_unique heap_frame_facts(3) [OF assms(1)] by (metis disjoint_iff subsetD)
  have slabs: "G i \<subseteq> heap_frame G B" if "i < SLAB_COUNT" for i using that heap_frameI(1) by blast
  have bigs: "{f + 1..f + n} \<subseteq> heap_frame G B" if "B f = Some n" for f n using that by (auto intro!: heap_frameI(2))
  have apart: "G i \<inter> {f + 1..f + n} = {}" if "i < SLAB_COUNT" "B f = Some n" for i f n
  proof -
    have "{f..f + n} \<inter> G i = {}" "{f + 1..f + n} \<subseteq> {f..f + n}" using assms(1) that unfolding heap_inv_def by auto
    then show ?thesis by blast
  qed
  show ?thesis using assms(1,2)
  proof (cases rule: heap_live_cases)
    case (slab i)
    note p = this
    show ?thesis using assms(1,3)
    proof (cases rule: heap_live_cases)
      case (slab j)
      then show ?thesis using heap_live_slab_disjoint [OF assms(1) p(1) slab(1) p(2) slab(2)] p assms(4) by auto
    next
      case (big f n)
      show ?thesis by (rule frames [OF p(4) big(5) apart [OF p(1) big(1)] slabs [OF p(1)] bigs [OF big(1)]])
    qed
  next
    case (big f n)
    note p = this
    show ?thesis using assms(1,3)
    proof (cases rule: heap_live_cases)
      case (slab j)
      have d: "{f + 1..f + n} \<inter> G j = {}" using apart [OF slab(1) p(1)] by blast
      show ?thesis by (rule frames [OF p(5) slab(4) d bigs [OF p(1)] slabs [OF slab(1)]])
    next
      case (big g l)
      have "f \<noteq> g" using p big assms(4) by auto
      then have "{f..f + n} \<inter> {g..g + l} = {}" using assms(1) p(1) big(1) unfolding heap_inv_def by blast
      then have d: "{f + 1..f + n} \<inter> {g + 1..g + l} = {}" by auto
      show ?thesis by (rule frames [OF p(5) big(5) d bigs [OF p(1)] bigs [OF big(1)]])
    qed
  qed
qed

section \<open>Small allocations\<close>

lemma small_alloc_frames:
  assumes "heap_inv s G F B" and "slab_alloc_post s G F i b s' G' F'" and "slab_inv s' {..<SLAB_COUNT} G' F'"
    and "i < SLAB_COUNT" and "B f = Some n" and "g \<in> {f..f + n}"
  shows "g \<notin> G' j" and "in_range (frame_addr g) 0x1000 x \<Longrightarrow> mem s' x = mem s x"
proof -
  note inv = heap_invD [OF assms(1)]
  have hf: "g \<in> heap_frame G B" using assms(5,6) by (auto simp: heap_frame_def)
  note fr = heap_frame_facts [OF assms(1) hf]
  show out: "g \<notin> G' j" for j
  proof (cases "j < SLAB_COUNT")
    case True
    then have "g \<notin> G j" using assms(1,5,6) unfolding heap_inv_def by blast
    then show ?thesis using assms(2) fr(1,2) unfolding slab_alloc_post_def by (cases "j = i") auto
  next
    case False
    then show ?thesis using assms(3) by (auto simp: slab_inv_def)
  qed
  show "mem s' x = mem s x" if x: "in_range (frame_addr g) 0x1000 x"
  proof -
    have "\<not> in_range (pmm_bitmap s) (bitmap_bytes s) x" "\<not> in_range (slab_ptr s i) 16 x"
      using fr(4,5) x slab_ptr_in_table [OF inv(4) assms(4)] unfolding disjoint_regions_def by blast+
    moreover have "\<not> in_range b (ent i) x"
    proof
      assume bx: "in_range b (ent i) x"
      have bl: "b \<in> blocks i (G' i)" using assms(2) by (auto simp: slab_alloc_post_def slab_live_def)
      have bnd: "\<forall>f\<in>G' i. f < 2 ^ 35" using slab_frames_bound [OF assms(3)] assms(4) by blast
      obtain h where "h \<in> G' i" "in_range (frame_addr h) 0x1000 x"
        using block_frame [OF assms(4) bnd bl bx] by blast
      then show False using frame_unique [OF fr(3), of h x] x bnd out [of i] by auto
    qed
    moreover have "\<not> in_range (frame_addr h) 0x1000 x" if "h < page_total s" "\<not> page_used s h" for h
      using frame_unique [OF fr(3), of h x] x that fr(2) inv(5) by auto
    ultimately show ?thesis using assms(2) by (simp add: slab_alloc_post_def)
  qed
qed

text \<open>A large allocation does not notice changes outside its frames.\<close>

lemma big_ok_frame:
  assumes "big_ok s f n" and "same_layout s s'" and "\<And>g. g \<in> {f..f + n} \<Longrightarrow> page_used s' g"
    and "\<And>x. in_range (frame_addr f) 16 x \<Longrightarrow> mem s' x = mem s x"
  shows "big_ok s' f n"
proof -
  note lay = same_layoutD [OF assms(2)]
  have "ld64 s' (frame_addr f) = ld64 s (frame_addr f)"
    unfolding ld64_def by (intro load64_cong assms(4)) (simp add: in_range_offset)
  moreover have "in_range (frame_addr f) 16 (frame_addr f + 8 + of_nat k)" if "k < 8" for k
    using in_range_offset [of "8 + k" 16 "frame_addr f"] that by (simp add: add.assoc)
  then have "ld64 s' (frame_addr f + 8) = ld64 s (frame_addr f + 8)"
    unfolding ld64_def by (intro load64_cong assms(4))
  ultimately show ?thesis using assms(1,3) by (simp add: big_ok_def lay)
qed

lemma in_range_le: "in_range a n x \<Longrightarrow> n \<le> k \<Longrightarrow> in_range a k x"
  by (auto simp: in_range_def)

lemma small_alloc_heap:
  assumes "heap_inv s G F B" and "slab_alloc_post s G F i b s' G' F'" and "slab_wf s' {..<SLAB_COUNT} G' F'"
    and "i < SLAB_COUNT"
  shows "heap_inv s' G' F' B" and "heap_live G' F' B = insert (b, ent i) (heap_live G F B)"
    and "(q, m) \<in> heap_live G F B \<Longrightarrow> disjoint_regions b (ent i) q m"
    and "(q, m) \<in> heap_live G F B \<Longrightarrow> in_range q m x \<Longrightarrow> mem s' x = mem s x"
proof -
  note inv = heap_invD [OF assms(1)]
  have inv': "slab_inv s' {..<SLAB_COUNT} G' F'" using assms(3) by (simp add: slab_wf_def)
  note big = small_alloc_frames [OF assms(1,2) inv' assms(4)]
  have lay: "same_layout s s'" and live: "slab_live G' F' i = insert b (slab_live G F i)"
    and other: "\<And>j. j \<noteq> i \<Longrightarrow> slab_live G' F' j = slab_live G F j"
    and used: "\<And>j. j < page_total s \<Longrightarrow> page_used s j \<Longrightarrow> page_used s' j"
    using assms(2) by (auto simp: slab_alloc_post_def slab_live_def)
  have "big_ok s' f n" if "B f = Some n" for f n
  proof (rule big_ok_frame [OF inv(7) [OF that] lay])
    show "page_used s' g" if "g \<in> {f..f + n}" for g
      using heap_frame_facts(1,2) [OF assms(1)] used that \<open>B f = Some n\<close> unfolding heap_frame_def by blast
    show "mem s' x = mem s x" if "in_range (frame_addr f) 16 x" for x
      using big(2) [OF \<open>B f = Some n\<close>, of f x] in_range_le [OF that, of "0x1000"] by simp
  qed
  moreover have "{f..f + n} \<inter> G' j = {}" if "B f = Some n" for f n j using big(1) [OF that] by blast
  ultimately show "heap_inv s' G' F' B" using assms(1,3) unfolding heap_inv_def by simp
  show "heap_live G' F' B = insert (b, ent i) (heap_live G F B)"
  proof -
    have "{(b, ent i) | b i. i < SLAB_COUNT \<and> b \<in> slab_live G' F' i}
        = insert (b, ent i) {(b, ent i) | b i. i < SLAB_COUNT \<and> b \<in> slab_live G F i}"
      using live other assms(4) by (auto; metis insert_iff)
    then show ?thesis unfolding heap_live_def by simp
  qed
  show "disjoint_regions b (ent i) q m" if "(q, m) \<in> heap_live G F B"
    using assms(1) that
  proof (cases rule: heap_live_cases)
    case (slab j)
    then show ?thesis using slab_alloc_post_live(1) [OF inv(2) assms(2) inv'] assms(4) by simp
  next
    case (big f n)
    have bl: "b \<in> blocks i (G' i)" using live by (auto simp: slab_live_def)
    have bnd: "\<forall>f\<in>G' i. f < 2 ^ 35" using slab_frames_bound [OF inv'] assms(4) by blast
    show ?thesis unfolding disjoint_regions_def
    proof (intro allI notI, elim conjE)
      fix x assume x: "in_range b (ent i) x" "in_range q m x"
      obtain h where h: "h \<in> G' i" "in_range (frame_addr h) 0x1000 x"
        using block_frame [OF assms(4) bnd bl x(1)] by blast
      obtain g where g: "g \<in> {f + 1..f + n}" "in_range (frame_addr g) 0x1000 x" using big(5) x(2) by blast
      then have "g \<in> heap_frame G B" using big(1) unfolding heap_frame_def by auto
      then have "h = g" using frame_unique [of h g x] h g(2) bnd heap_frame_facts(3) [OF assms(1)] by blast
      then show False using small_alloc_frames(1) [OF assms(1,2) inv' assms(4) big(1), of g i] g(1) h(1) by simp
    qed
  qed
  show "mem s' x = mem s x" if l: "(q, m) \<in> heap_live G F B" and x: "in_range q m x"
    using assms(1) l
  proof (cases rule: heap_live_cases)
    case (slab j)
    then show ?thesis using slab_alloc_post_live(2) [OF inv(2) assms(2) inv'] assms(4) x by simp
  next
    case (big f n)
    then obtain g where "g \<in> {f + 1..f + n}" "in_range (frame_addr g) 0x1000 x" using x by blast
    then show ?thesis using small_alloc_frames(2) [OF assms(1,2) inv' assms(4) big(1), of g x] by simp
  qed
qed

section \<open>Large allocations\<close>

text \<open>The recorded sizes of the large allocations stay.\<close>

definition keeps_meta :: "('z) slab_state_scheme \<Rightarrow> (nat \<rightharpoonup> nat) \<Rightarrow> ('z) slab_state_scheme \<Rightarrow> bool" where
  "keeps_meta s B s' \<longleftrightarrow> (\<forall>f n x. B f = Some n \<longrightarrow> in_range (frame_addr f) 16 x \<longrightarrow> mem s' x = mem s x)"

text \<open>Changes outside the frames in use and the slab table keep the heap; allocations may be dropped.\<close>

lemma heap_inv_frame:
  assumes inv0: "heap_inv s G F B" and lay: "same_layout s s'" and wf: "pmm_wf s'" and "lock_idle (slab_lock s')"
    and sub: "B' \<subseteq>\<^sub>m B" and used: "\<And>g. g \<in> heap_frame G B' \<Longrightarrow> page_used s' g"
    and same: "\<And>g x. g \<in> heap_frame G B' \<Longrightarrow> in_range (frame_addr g) 0x1000 x \<Longrightarrow> mem s' x = mem s x"
    and table: "\<And>x. in_range (slabs s) 160 x \<Longrightarrow> mem s' x = mem s x"
    and free: "\<And>f. f < page_total s \<Longrightarrow> \<not> page_used s' f \<Longrightarrow> disjoint_regions (frame_addr f) 0x1000 (slabs s) 160"
  shows "heap_inv s' G F B'"
proof -
  note inv = heap_invD [OF inv0] and layD = same_layoutD [OF lay]
  have B: "B f = Some n" if "B' f = Some n" for f n
    using sub that by (metis domI map_le_def)
  have tab: "table_ok s'" using inv(4) free by (simp add: table_ok_def layD)
  have "slab_ok s' j (G j) (F j)" if j: "j < SLAB_COUNT" for j
  proof (rule slab_ok_frame [OF _ lay _ j inv(4,5)])
    show "slab_ok s j (G j) (F j)" using slab_invD(2) [OF inv(2)] j by blast
    show "\<forall>f\<in>G j. page_used s' f" using used j by (auto simp: heap_frame_def)
    show "mem s' x = mem s x" if "in_range (slab_ptr s j) 16 x" for x
      using slab_ptr_in_table [OF inv(4) j that] by (rule table)
    show "mem s' x = mem s x" if "f \<in> G j" "in_range (frame_addr f) 0x1000 x" for f x
      using that j by (intro same [of f]) (auto simp: heap_frame_def)
  qed
  then have "slab_wf s' {..<SLAB_COUNT} G F"
    using inv(2) wf tab assms(4) by (simp add: slab_wf_def slab_inv_def pmm_wf_def)
  moreover have "big_ok s' f n" if f: "B' f = Some n" for f n
  proof (rule big_ok_frame [OF inv(7) [OF B [OF f]] lay])
    show "page_used s' g" if "g \<in> {f..f + n}" for g using that f by (intro used) (auto simp: heap_frame_def)
    show "mem s' x = mem s x" if "in_range (frame_addr f) 16 x" for x
    proof (rule same)
      show "f \<in> heap_frame G B'" using f by (intro heap_frameI(2) [of B' f n]) simp_all
      show "in_range (frame_addr f) 0x1000 x" using in_range_le [OF that] by simp
    qed
  qed
  ultimately show ?thesis using inv0 B unfolding heap_inv_def by simp
qed

lemma heap_inv_insert:
  assumes "heap_inv s G F B" and "big_ok s f n" and "{f..f + n} \<inter> heap_frame G B = {}"
  shows "heap_inv s G F (B(f \<mapsto> n))" and "heap_live G F (B(f \<mapsto> n)) = insert (frame_addr (f + 1), n * 0x1000) (heap_live G F B)"
proof -
  have new: "f \<notin> dom B"
  proof
    assume "f \<in> dom B"
    then obtain m where "B f = Some m" by blast
    then have "f \<in> heap_frame G B" by (intro heap_frameI(2) [of B f m]) simp_all
    then show False using assms(3) by (metis IntI atLeastAtMost_iff empty_iff le_add1 le_refl)
  qed
  have "{f..f + n} \<inter> G i = {}" if "i < SLAB_COUNT" for i using assms(3) that heap_frameI(1) by blast
  moreover have "{f..f + n} \<inter> {g..g + m} = {}" if "B g = Some m" for g m
    using assms(3) that unfolding heap_frame_def by blast
  ultimately show "heap_inv s G F (B(f \<mapsto> n))" using assms(1,2) unfolding heap_inv_def by (auto; blast)
  show "heap_live G F (B(f \<mapsto> n)) = insert (frame_addr (f + 1), n * 0x1000) (heap_live G F B)"
    using new unfolding heap_live_def by (auto split: if_splits)
qed

lemma page_count_rounds:
  assumes "unat len < 2 ^ 63"
  shows "unat (div_roundup len PAGE_SIZE) = (unat len + 0xFFF) div 0x1000"
    and "unat (div_roundup len PAGE_SIZE + 1) = (unat len + 0xFFF) div 0x1000 + 1"
    and "unat len \<le> (unat len + 0xFFF) div 0x1000 * 0x1000"
proof -
  show p: "unat (div_roundup len PAGE_SIZE) = (unat len + 0xFFF) div 0x1000"
    using unat_div_roundup [of PAGE_SIZE len] assms by simp
  show "unat (div_roundup len PAGE_SIZE + 1) = (unat len + 0xFFF) div 0x1000 + 1"
    using assms by (subst unat_add_small) (simp_all add: p)
  show "unat len \<le> (unat len + 0xFFF) div 0x1000 * 0x1000" by linarith
qed

lemma big_alloc_layout:
  assumes "heap_inv s G F B" and "pmm_alloc_post s a k s1"
  shows "same_layout s s1" and "slab_lock s1 = slab_lock s" and "g \<in> heap_frame G B \<Longrightarrow> g \<notin> {a..<a + k}"
    and "g \<in> heap_frame G B \<Longrightarrow> page_used s1 g"
    and "g \<in> heap_frame G B \<Longrightarrow> in_range (frame_addr g) 0x1000 x \<Longrightarrow> mem s1 x = mem s x"
    and "in_range (slabs s) 160 x \<Longrightarrow> mem s1 x = mem s x"
proof -
  note inv = heap_invD [OF assms(1)] and fr = heap_frame_facts [OF assms(1)]
  have "pmm_page_count s1 = pmm_page_count s"
    using assms(2) by (simp add: pmm_alloc_post_def page_total_def unat_inject)
  then show "same_layout s s1" "slab_lock s1 = slab_lock s"
    using assms(2) slab_fields_more [of s1 s] by (simp_all add: pmm_alloc_post_def same_layout_def)
  have free: "\<not> page_used s g" if "g \<in> {a..<a + k}" for g
  proof -
    have "a + (g - a) = g" "g - a < k" using that by auto
    then show ?thesis using assms(2) unfolding pmm_alloc_post_def run_free_def by metis
  qed
  show out: "g \<notin> {a..<a + k}" if "g \<in> heap_frame G B" for g using free fr(2) that by blast
  show "page_used s1 g" if "g \<in> heap_frame G B"
    using assms(2) fr(1,2) [OF that] by (simp add: pmm_alloc_post_def)
  have a: "a + k \<le> page_total s" using assms(2) by (simp add: pmm_alloc_post_def)
  have run: "\<exists>h\<in>{a..<a + k}. in_range (frame_addr h) 0x1000 x" if x: "in_range (frame_addr a) (k * 0x1000) x" for x
  proof -
    obtain j where "j < k" "in_range (frame_addr (a + j)) 0x1000 x"
      using in_run_frame [OF x] a inv(5) by auto
    then show ?thesis by (intro bexI [of _ "a + j"]) auto
  qed
  have keep: "mem s1 x = mem s x" if "\<not> in_range (pmm_bitmap s) (bitmap_bytes s) x"
    "\<And>h. h \<in> {a..<a + k} \<Longrightarrow> \<not> in_range (frame_addr h) 0x1000 x" for x
    using assms(2) run that unfolding pmm_alloc_post_def by blast
  show "mem s1 x = mem s x" if g: "g \<in> heap_frame G B" and x: "in_range (frame_addr g) 0x1000 x"
  proof (rule keep)
    show "\<not> in_range (pmm_bitmap s) (bitmap_bytes s) x" using fr(4) [OF g] x unfolding disjoint_regions_def by blast
    show "\<not> in_range (frame_addr h) 0x1000 x" if "h \<in> {a..<a + k}" for h
      using frame_unique [of h g x] x that a inv(5) fr(3) [OF g] out [OF g] by auto
  qed
  show "mem s1 x = mem s x" if x: "in_range (slabs s) 160 x"
  proof (rule keep)
    show "\<not> in_range (pmm_bitmap s) (bitmap_bytes s) x" using inv(4) x unfolding table_ok_def disjoint_regions_def by blast
    show "\<not> in_range (frame_addr h) 0x1000 x" if "h \<in> {a..<a + k}" for h
    proof -
      have "h < page_total s" using that a by simp
      then show ?thesis using inv(4) x free [OF that] unfolding table_ok_def disjoint_regions_def by blast
    qed
  qed
qed

lemma frame_addr_Suc: "frame_addr f + PAGE_SIZE = frame_addr (f + 1)"
  by (simp add: frame_addr_def algebra_simps)

lemma phys_frame: "of_nat a * PAGE_SIZE + HIGHER_HALF = frame_addr a"
  by (simp add: frame_addr_def add.commute)

lemma heap_live_in_frame:
  assumes "heap_inv s G F B" and "(q, m) \<in> heap_live G F B" and "\<And>g. g \<in> heap_frame G B \<Longrightarrow> g \<notin> {a..<a + k}"
    and "a + k \<le> 2 ^ 35" and "a \<le> f" and "f + n \<le> a + k"
  shows "disjoint_regions (frame_addr f) (n * 0x1000) q m"
  unfolding disjoint_regions_def
proof (intro allI notI, elim conjE)
  fix x assume x: "in_range (frame_addr f) (n * 0x1000) x" "in_range q m x"
  obtain g where g: "g \<in> heap_frame G B" "in_range (frame_addr g) 0x1000 x"
    using heap_live_frame [OF assms(1,2) x(2)] by blast
  obtain j where j: "j < n" "in_range (frame_addr (f + j)) 0x1000 x" using in_run_frame [OF x(1)] assms(4,6) by auto
  have "f + j = g"
    using frame_unique [OF _ _ j(2) g(2)] heap_frame_facts(3) [OF assms(1) g(1)] j(1) assms(4,6) by simp
  then show False using assms(3) [OF g(1)] assms(5,6) j(1) by simp
qed

lemma big_malloc_spec:
  assumes inv0: "heap_inv s G F B" and len: "unat len < 2 ^ 63" and n: "n = (unat len + 0xFFF) div 0x1000" "0 < n"
    and ptr: "pmm_alloc c (div_roundup len PAGE_SIZE + 1) s = Inr (of_nat a * PAGE_SIZE, s1)"
    and post: "pmm_alloc_post s a (n + 1) s1" and wf1: "pmm_wf s1"
  shows "\<exists>s'. big_malloc c len s = Inr (frame_addr (a + 1), s') \<and> heap_inv s' G F (B(a \<mapsto> n)) \<and>
    heap_live G F (B(a \<mapsto> n)) = insert (frame_addr (a + 1), n * 0x1000) (heap_live G F B) \<and>
    keeps_meta s B s' \<and> (\<forall>x. in_range (frame_addr (a + 1)) (n * 0x1000) x \<longrightarrow> mem s' x = 0) \<and>
    (\<forall>(q, m)\<in>heap_live G F B. disjoint_regions (frame_addr (a + 1)) (n * 0x1000) q m \<and>
       (\<forall>x. in_range q m x \<longrightarrow> mem s' x = mem s x))"
proof -
  note inv = heap_invD [OF inv0] and lay = big_alloc_layout [OF inv0 post]
  have a: "0 < a" "a + n + 1 \<le> page_total s" "a + n + 1 \<le> 2 ^ 35"
    using post inv(5) by (simp_all add: pmm_alloc_post_def)
  define s' where "s' = st64 (frame_addr a + 8) len (st64 (frame_addr a) (div_roundup len PAGE_SIZE) s1)"
  have out: "mem s' x = mem s1 x" if "\<not> in_range (frame_addr a) 0x1000 x" for x
  proof -
    have "\<not> in_range (frame_addr a) 8 x" "\<not> in_range (frame_addr a + 8) 8 x"
      using that in_frame_range [of a 0 8 x] in_frame_range [of a 8 8 x] a(3) by (auto simp: in_frame_def)
    then show ?thesis by (simp add: s'_def store64_outside)
  qed
  have hf: "mem s' x = mem s x" if g: "g \<in> heap_frame G B" and x: "in_range (frame_addr g) 0x1000 x" for g x
  proof -
    have "g \<noteq> a" using lay(3) [OF g] by auto
    then have "\<not> in_range (frame_addr a) 0x1000 x"
      using frame_unique [of a g x] x a(3) heap_frame_facts(3) [OF inv0 g] by auto
    then show ?thesis using out lay(5) [OF g x] by simp
  qed
  have data: "mem s' x = 0" if x: "in_range (frame_addr (a + 1)) (n * 0x1000) x" for x
  proof -
    obtain j where j: "j < n" "in_range (frame_addr (a + 1 + j)) 0x1000 x" using in_run_frame [OF x] a(3) by auto
    have "\<not> in_range (frame_addr a) 0x1000 x" using frame_unique [of a "a + 1 + j" x] j a(3) by auto
    moreover have "in_range (frame_addr a) ((n + 1) * 0x1000) x"
      using x a(3) j(1) by (simp add: in_range_unat unat_frame_addr)
    ultimately show ?thesis using post out unfolding pmm_alloc_post_def by simp
  qed
  have lay': "same_layout s s'" "slab_lock s' = slab_lock s" "same_layout s1 s'"
    using lay(1,2) by (simp_all add: s'_def same_layout_def st64_def)
  have fr: "disjoint_regions (frame_addr (a + i)) 0x1000 (pmm_bitmap s) (bitmap_bytes s)" "page_used s1 (a + i)"
    if "i < n + 1" for i
    using pmm_alloc_post_freeable [OF post inv(3)] that by (simp_all add: freeable_def same_layoutD [OF lay(1)])
  have used: "page_used s' j = page_used s1 j" if "j < page_total s" for j
  proof (rule page_used_cong)
    show "bitmap_ok s1" "j < page_total s1" "pmm_bitmap s' = pmm_bitmap s1"
      using inv(6) that same_layoutD [OF lay(1)] same_layoutD [OF lay'(3)] by simp_all
    show "mem s' x = mem s1 x" if "in_range (pmm_bitmap s1) (bitmap_bytes s1) x" for x
      using that fr(1) [of 0] same_layoutD [OF lay(1)] unfolding disjoint_regions_def by (intro out) auto
  qed
  have wf': "pmm_wf s'" 
    using wf1 pmm_inv_cong [OF _ lay'(3)] used same_layoutD [OF lay(1)] 
    by (simp add: pmm_wf_def s'_def st64_def)
  have tab: "disjoint_regions (frame_addr f) 0x1000 (slabs s) 160" if "f < page_total s" "\<not> page_used s f" for f
    using inv(4) that by (simp add: table_ok_def)
  have run: "\<not> page_used s (a + i)" if "i < n + 1" for i
    using post that by (simp add: pmm_alloc_post_def run_free_def)
  have "heap_inv s' G F B"
  proof (rule heap_inv_frame [OF inv0 lay'(1) wf' _ map_le_refl _ hf])
    show "lock_idle (slab_lock s')" using inv(1) lay'(2) by (simp add: slab_wf_def)
    show "page_used s' g" if "g \<in> heap_frame G B" for g
      using used lay(4) [OF that] heap_frame_facts(1) [OF inv0 that] by simp
    show "mem s' x = mem s x" if "in_range (slabs s) 160 x" for x
    proof -
      have "\<not> in_range (frame_addr a) 0x1000 x" using that tab [of a] run [of 0] a(2) by (auto simp: disjoint_regions_def)
      then show ?thesis using out lay(6) [OF that] by simp
    qed
    show "disjoint_regions (frame_addr f) 0x1000 (slabs s) 160" if "f < page_total s" "\<not> page_used s' f" for f
      using tab [OF that(1)] used [OF that(1)] that post by (simp add: pmm_alloc_post_def)
  qed
  moreover have "big_ok s' a n"
  proof -
    have "disjoint_regions (frame_addr a + 8) 8 (frame_addr a) 8"
      using in_frame_disjoint [of a a 8 8 0 8] a(3) by (simp add: in_frame_def)
    moreover have "div_roundup len PAGE_SIZE = of_nat n"
      unfolding n(1) page_count_rounds(1) [OF len, symmetric] by simp
    ultimately have "ld64 s' (frame_addr a) = of_nat n" "ld64 s' (frame_addr a + 8) = len"
      by (simp_all add: s'_def ld64_def st64_def load64_store64_disjoint)
    moreover have "page_used s' g \<and> disjoint_regions (frame_addr g) 0x1000 (pmm_bitmap s) (bitmap_bytes s) \<and>
        disjoint_regions (frame_addr g) 0x1000 (slabs s) 160" if "g \<in> {a..a + n}" for g
    proof -
      have i: "g - a < n + 1" and g: "a + (g - a) = g" "g < page_total s" using that a(2) by auto
      show ?thesis using fr [OF i] run [OF i] tab [OF g(2)] used [OF g(2)] unfolding g(1) by simp
    qed
    ultimately show ?thesis using a(1,2) page_count_rounds(3) [OF len] n
      unfolding big_ok_def same_layoutD [OF lay'(1)] by simp
  qed
  moreover have "{a..a + n} \<inter> heap_frame G B = {}" using lay(3) by fastforce
  ultimately have "heap_inv s' G F (B(a \<mapsto> n))"
    "heap_live G F (B(a \<mapsto> n)) = insert (frame_addr (a + 1), n * 0x1000) (heap_live G F B)"
    by (rule heap_inv_insert)+
  moreover have "mem s' x = mem s x" if "(q, m) \<in> heap_live G F B" "in_range q m x" for q m x
    using heap_live_frame [OF inv0 that] hf by blast
  moreover have "big_malloc c len s = Inr (frame_addr (a + 1), s')"
  proof -
    have "of_nat a * PAGE_SIZE \<noteq> (0 :: u64)" using frame_number [of a] a(1,3) by auto
    then show ?thesis using ptr a by (simp add: big_malloc_def Let_def phys_frame frame_addr_Suc s'_def)
  qed
  moreover have "keeps_meta s B s'" unfolding keeps_meta_def
  proof (intro allI impI)
    fix f k x assume f: "B f = Some k" and x: "in_range (frame_addr f) 16 x"
    show "mem s' x = mem s x"
      using hf [OF heap_frameI(2) [of B f k f G]] in_range_le [OF x, of "0x1000"] f by simp
  qed
  ultimately show ?thesis using data heap_live_in_frame [OF inv0 _ lay(3), of _ _ "a + 1" n] a(3) by auto
qed

section \<open>malloc\<close>

lemma heap_flag_frame [simp]:
  fixes s :: "('z) heap_state_scheme"
  shows "heap_inv (s\<lparr>have_malloc := v\<rparr>) G F B = heap_inv s G F B"
    and "find_slab len (s\<lparr>have_malloc := v\<rparr>) = find_slab len s"
    and "slab_ptr (s\<lparr>have_malloc := v\<rparr>) i = slab_ptr s i"
    and "next_fit n (s\<lparr>have_malloc := v\<rparr>) = next_fit n s"
proof -
  have lay: "same_layout s (s\<lparr>have_malloc := v\<rparr>)" "same_layout (s\<lparr>have_malloc := v\<rparr>) s" by (simp_all add: same_layout_def)
  have u: "page_used (s\<lparr>have_malloc := v\<rparr>) = page_used s" "ld64 (s\<lparr>have_malloc := v\<rparr>) = ld64 s"
    by (simp_all add: fun_eq_iff page_used_def bitmap_testbit_def bitmap_word_def ld64_def)
  note simps = same_layoutD [OF lay(1)] u
  show "heap_inv (s\<lparr>have_malloc := v\<rparr>) G F B = heap_inv s G F B"
    by (simp add: heap_inv_def slab_wf_def slab_inv_def slab_ok_def slab_frame_def table_ok_def pmm_inv_def
        big_ok_def simps)
  show "find_slab len (s\<lparr>have_malloc := v\<rparr>) = find_slab len s" "slab_ptr (s\<lparr>have_malloc := v\<rparr>) i = slab_ptr s i"
    by (simp_all add: find_slab_def simps cong: option.case_cong)
  show "next_fit n (s\<lparr>have_malloc := v\<rparr>) = next_fit n s"
    by (simp add: next_fit_def run_free_def simps cong: option.case_cong)
qed

text \<open>What an allocation of at least \<open>len\<close> bytes at \<open>p\<close> must satisfy.\<close>

definition heap_extends ::
  "('z) heap_state_scheme \<Rightarrow> (addr \<times> nat) set \<Rightarrow> nat \<Rightarrow> addr \<Rightarrow> ('z) heap_state_scheme \<Rightarrow> (addr \<times> nat) set \<Rightarrow> bool" where
  "heap_extends s L len p s' L' \<longleftrightarrow> (\<exists>m\<ge>len. L' = insert (p, m) L \<and> p \<noteq> 0 \<and>
     (\<forall>x. in_range p m x \<longrightarrow> mem s' x = 0) \<and>
     (\<forall>(q, k)\<in>L. disjoint_regions p m q k \<and> (\<forall>x. in_range q k x \<longrightarrow> mem s' x = mem s x)))"

text \<open>The run of frames a request needs: one for a fresh slab page, else metadata and data frames.\<close>

definition frames_needed :: "u64 \<Rightarrow> nat" where
  "frames_needed len = (if unat len \<le> 1016 then 1 else (unat len + 0xFFF) div 0x1000 + 1)"

lemma malloc_small:
  assumes "heap_inv s G F B" and "unat len \<le> 1016"
  shows "case malloc c len s of
      Inl e \<Rightarrow> e = Panic ''Kernel OOM'' \<and> next_fit 1 s = None
    | Inr (p, s') \<Rightarrow> have_malloc s' \<and> keeps_meta s B s' \<and> (\<exists>G' F'. heap_inv s' G' F' B \<and>
        heap_extends s (heap_live G F B) (unat len) p s' (heap_live G' F' B))"
proof -
  let ?s = "s\<lparr>have_malloc := False\<rparr>"
  have inv0: "heap_inv ?s G F B" using assms(1) by simp
  note inv = heap_invD [OF inv0]
  have sz: "unat (8 + len) = 8 + unat len" using assms(2) by (subst unat_add_small) simp_all
  then obtain i where i: "i < SLAB_COUNT" "find_slab (8 + len) s = slab_ptr s i" "8 + unat len \<le> ent i" "slab_ptr s i \<noteq> 0"
    using find_slab_cases(2) [OF inv(2), of "8 + len"] assms(2) by auto
  have m: "malloc c len s = bindR (slab_alloc c (slab_ptr s i) ?s) (\<lambda>(ret, s2). Inr (ret, s2\<lparr>have_malloc := True\<rparr>))"
    using i by (simp add: malloc_def Let_def)
  show ?thesis
  proof (cases "F i = [] \<and> next_fit 1 s = None")
    case True
    then show ?thesis using slab_alloc_spec [OF inv(1), of i c] i(1) by (simp add: m)
  next
    case False
    then obtain b s' G' F' where r: "slab_alloc c (slab_ptr s i) ?s = Inr (b, s')"
      "slab_alloc_post ?s G F i b s' G' F'" "slab_wf s' {..<SLAB_COUNT} G' F'"
      using slab_alloc_spec [OF inv(1), of i c] i(1) by auto
    note h = small_alloc_heap [OF inv0 r(2,3) i(1)]
    have "b \<in> blocks i (G' i)" using r(2) by (auto simp: slab_alloc_post_def slab_live_def)
    then have "b \<noteq> 0"
      using block_page [OF i(1)] slab_frames_bound [of s' "{..<SLAB_COUNT}" G' F' i] r(3) i(1)
      unfolding slab_wf_def by auto
    moreover have "\<forall>x. in_range b (ent i) x \<longrightarrow> mem s' x = 0" using r(2) by (simp add: slab_alloc_post_def)
    ultimately have "heap_extends s (heap_live G F B) (unat len) b (s'\<lparr>have_malloc := True\<rparr>) (heap_live G' F' B)"
      unfolding heap_extends_def using i(3) h(2,3,4) by (intro exI [of _ "ent i"]) auto
    moreover have "mem s' x = mem s x" if "B f = Some n" "in_range (frame_addr f) 16 x" for f n x
      using small_alloc_frames(2) [OF inv0 r(2) _ i(1) that(1), of f x] r(3) in_range_le [OF that(2), of "0x1000"]
      by (simp add: slab_wf_def)
    ultimately show ?thesis using r(1) h(1) by (auto simp: m keeps_meta_def)
  qed
qed

lemma malloc_large:
  assumes "heap_inv s G F B" and "1016 < unat len" and "unat len < 2 ^ 63"
  shows "case malloc c len s of
      Inl e \<Rightarrow> e = Panic ''Kernel OOM'' \<and> next_fit (frames_needed len) s = None
    | Inr (p, s') \<Rightarrow> have_malloc s' \<and> keeps_meta s B s' \<and> (\<exists>B'. heap_inv s' G F B' \<and>
        heap_extends s (heap_live G F B) (unat len) p s' (heap_live G F B'))"
proof -
  let ?s = "s\<lparr>have_malloc := False\<rparr>"
  define n where "n = (unat len + 0xFFF) div 0x1000"
  have inv0: "heap_inv ?s G F B" using assms(1) by simp
  note inv = heap_invD [OF inv0]
  have wf: "pmm_wf ?s" using inv(1,3) by (simp add: pmm_wf_def slab_wf_def)
  have need: "frames_needed len = n + 1" using assms(2) by (simp add: frames_needed_def n_def)
  note pc = page_count_rounds [OF assms(3), folded n_def]
  have cnt: "0 < div_roundup len PAGE_SIZE + 1" using pc(2) by (simp add: word_less_nat_alt)
  have "unat (8 + len) = 8 + unat len" using assms(3) by (subst unat_add_small) simp_all
  then have "find_slab (8 + len) s = 0" using find_slab_cases(1) [OF inv(2), of "8 + len"] assms(2) by simp
  then have m: "malloc c len s = bindR (big_malloc c len ?s) (\<lambda>(ret, s2). Inr (ret, s2\<lparr>have_malloc := True\<rparr>))"
    by (simp add: malloc_def Let_def)
  show ?thesis
  proof (cases "next_fit (n + 1) s")
    case None
    then show ?thesis using pmm_alloc_spec [OF wf cnt, of c]
      by (simp add: m big_malloc_def pc(2) need)
  next
    case (Some a)
    then obtain s1 where r: "pmm_alloc c (div_roundup len PAGE_SIZE + 1) ?s = Inr (of_nat a * PAGE_SIZE, s1)"
      "pmm_alloc_post ?s a (n + 1) s1" "pmm_wf s1"
      using pmm_alloc_spec [OF wf cnt, of c] by (auto simp: pc(2))
    have n: "0 < n" using assms(2) by (simp add: n_def)
    have a: "a + 1 < 2 ^ 35" using r(2) inv(5) n by (auto simp: pmm_alloc_post_def)
    obtain s' where b: "big_malloc c len ?s = Inr (frame_addr (a + 1), s')" "heap_inv s' G F (B(a \<mapsto> n))"
      "heap_live G F (B(a \<mapsto> n)) = insert (frame_addr (a + 1), n * 0x1000) (heap_live G F B)"
      "\<forall>x. in_range (frame_addr (a + 1)) (n * 0x1000) x \<longrightarrow> mem s' x = 0" "keeps_meta s B s'"
      "\<forall>(q, m)\<in>heap_live G F B. disjoint_regions (frame_addr (a + 1)) (n * 0x1000) q m \<and>
       (\<forall>x. in_range q m x \<longrightarrow> mem s' x = mem s x)"
      using big_malloc_spec [OF inv0 assms(3) n_def n r] by (auto simp: keeps_meta_def)
    have "frame_addr (a + 1) \<noteq> 0" using in_frame_nonzero [OF a, of 0] by (simp add: in_frame_def)
    then have "heap_extends s (heap_live G F B) (unat len) (frame_addr (a + 1)) (s'\<lparr>have_malloc := True\<rparr>)
        (heap_live G F (B(a \<mapsto> n)))"
      unfolding heap_extends_def using b(3,4,6) pc(3) by (intro exI [of _ "n * 0x1000"]) simp
    then show ?thesis using b(1,2,5) by (auto simp: m keeps_meta_def)
  qed
qed

lemma malloc_spec:
  assumes "heap_inv s G F B" and "unat len < 2 ^ 63"
  shows "case malloc c len s of
      Inl e \<Rightarrow> e = Panic ''Kernel OOM'' \<and> next_fit (frames_needed len) s = None
    | Inr (p, s') \<Rightarrow> have_malloc s' \<and> keeps_meta s B s' \<and> (\<exists>G' F' B'. heap_inv s' G' F' B' \<and>
        heap_extends s (heap_live G F B) (unat len) p s' (heap_live G' F' B'))"
proof (cases "unat len \<le> 1016")
  case True
  then show ?thesis using malloc_small [OF assms(1) True, of c]
    by (auto simp: frames_needed_def split: sum.splits)
next
  case False
  then show ?thesis using malloc_large [OF assms(1) _ assms(2), of c] by (fastforce split: sum.splits)
qed

section \<open>free\<close>

lemma free_small:
  assumes "heap_inv s G F B" and "i < SLAB_COUNT" and "p \<in> slab_live G F i"
  shows "\<exists>s' F'. free c p s = Inr s' \<and> heap_inv s' G F' B \<and> heap_live G F' B = heap_live G F B - {(p, ent i)} \<and>
    (\<forall>(q, m)\<in>heap_live G F B - {(p, ent i)}. \<forall>x. in_range q m x \<longrightarrow> mem s' x = mem s x)"
proof -
  note inv = heap_invD [OF assms(1)]
  have i: "i \<in> {..<SLAB_COUNT}" using assms(2) by simp
  have bl: "p \<in> blocks i (G i)" using assms(3) by (simp add: slab_live_def)
  note bnd = slab_frames_bound [OF inv(2) i]
  note pg = block_page [OF assms(2) bnd bl]
  have pl: "(p, ent i) \<in> heap_live G F B" using assms(2,3) by (auto simp: heap_live_def)
  obtain f where f: "f \<in> G i" "p AND NOT 0xFFF = frame_addr f" using pg(3) by blast
  have hdr: "ld64 s (frame_addr f) = slab_ptr s i" using slab_invD(7) [OF inv(2) i f(1)] by (simp add: slab_frame_def)
  obtain s' where r: "slab_free c (slab_ptr s i) p s = Inr s'" "slab_wf s' {..<SLAB_COUNT} G (F(i := p # F i))"
    "same_layout s s'" "\<forall>j<page_total s. page_used s' j = page_used s j"
    "\<And>x. \<not> in_range (slab_ptr s i) 8 x \<Longrightarrow> \<not> in_range p 8 x \<Longrightarrow> mem s' x = mem s x"
    using slab_free_spec [OF inv(1) i assms(3), of c] by blast
  have "free c p s = Inr s'" using pg(1,2) f(2) hdr r(1) by (simp add: free_def Let_def)
  moreover have keep: "mem s' x = mem s x" if g: "g \<in> heap_frame G B" and x: "in_range (frame_addr g) 0x1000 x"
    and out: "\<not> in_range p (ent i) x" for g x
  proof (rule r(5))
    show "\<not> in_range (slab_ptr s i) 8 x"
      using heap_frame_facts(5) [OF assms(1) g] x slab_ptr_in_table [OF inv(4) assms(2)] in_range_le [of _ 8 x 16]
      unfolding disjoint_regions_def by auto
    show "\<not> in_range p 8 x" using out ent_values(2) [OF assms(2)] in_range_le by blast
  qed
  have "big_ok s' g n" if g: "B g = Some n" for g n
  proof (rule big_ok_frame [OF inv(7) [OF g] r(3)])
    have hf: "h \<in> heap_frame G B" if "h \<in> {g..g + n}" for h using that g by (rule heap_frameI(2) [rotated])
    show "page_used s' h" if "h \<in> {g..g + n}" for h using r(4) heap_frame_facts(1,2) [OF assms(1) hf [OF that]] by simp
    show "mem s' x = mem s x" if x: "in_range (frame_addr g) 16 x" for x
    proof (rule keep [OF hf [of g]])
      show xg: "in_range (frame_addr g) 0x1000 x" using in_range_le [OF x] by simp
      have "g \<notin> G i" using assms(1,2) g unfolding heap_inv_def by fastforce
      moreover have "g < 2 ^ 35" using heap_frame_facts(3) [OF assms(1) hf [of g]] by simp
      ultimately show "\<not> in_range p (ent i) x"
        using block_frame [OF assms(2) bnd bl] frame_unique [OF _ _ xg] bnd by metis
    qed simp
  qed
  then have "heap_inv s' G (F(i := p # F i)) B" using assms(1) r(2) unfolding heap_inv_def by simp
  moreover have "heap_live G (F(i := p # F i)) B = heap_live G F B - {(p, ent i)}"
  proof -
    have "p \<notin> slab_live G F j" if j: "j < SLAB_COUNT" "j \<noteq> i" for j
    proof -
      have "in_range p (ent i) p" "in_range p (ent j) p"
        using ent_values(2) [OF assms(2)] ent_values(2) [OF j(1)] by (simp_all add: in_range_def)
      then show ?thesis using heap_live_slab_disjoint [OF assms(1,2) j(1) assms(3), of p] j(2)
        unfolding disjoint_regions_def by blast
    qed
    moreover have "p \<noteq> frame_addr (f + 1)" if "B f = Some n" for f n
    proof -
      have "f + 1 < 2 ^ 35" using inv(7) [OF that] inv(5) by (auto simp: big_ok_def)
      then show ?thesis using pg(2) in_frame_bits(1) [of "f + 1" 0] by (auto simp: in_frame_def)
    qed
    moreover have "q \<in> slab_live G (F(i := p # F i)) j \<longleftrightarrow> q \<in> slab_live G F j \<and> (q \<noteq> p \<or> j \<noteq> i)" for q j
      by (auto simp: slab_live_def)
    ultimately have "(q, m) \<in> heap_live G (F(i := p # F i)) B \<longleftrightarrow> (q, m) \<in> heap_live G F B - {(p, ent i)}" for q m
      unfolding Diff_iff heap_live_iff by (cases "q = p") auto
    then show ?thesis by auto
  qed
  moreover have "mem s' x = mem s x" if l: "(q, m) \<in> heap_live G F B - {(p, ent i)}" and x: "in_range q m x" for q m x
    using heap_live_frame [OF assms(1) _ x] keep heap_live_disjoint [OF assms(1) pl, of q m] l x
    unfolding disjoint_regions_def by blast
  ultimately show ?thesis by blast
qed

lemma heap_frame_drop:
  assumes "heap_inv s G F B" and "B f = Some n" and "g \<in> heap_frame G (B(f := None))"
  shows "g \<notin> {f..f + n}"
proof (cases "\<exists>i<SLAB_COUNT. g \<in> G i")
  case True
  then show ?thesis using assms unfolding heap_inv_def by blast
next
  case False
  then obtain h m where "B h = Some m" "h \<noteq> f" "g \<in> {h..h + m}"
    using assms(3) by (auto simp: heap_frame_def split: if_splits)
  then show ?thesis using assms(1,2) unfolding heap_inv_def by blast
qed

lemma free_large:
  assumes "heap_inv s G F B" and "B f = Some n"
  shows "\<exists>s'. free c (frame_addr (f + 1)) s = Inr s' \<and> heap_inv s' G F (B(f := None)) \<and>
    heap_live G F (B(f := None)) = heap_live G F B - {(frame_addr (f + 1), n * 0x1000)} \<and>
    (\<forall>x. (\<exists>g\<in>heap_frame G B. in_range (frame_addr g) 0x1000 x) \<longrightarrow> mem s' x = mem s x)"
proof -
  note inv = heap_invD [OF assms(1)]
  have big: "big_ok s f n" by (rule inv(7) [OF assms(2)])
  then have n: "0 < f" "0 < n" "f + n < page_total s" "ld64 s (frame_addr f) = of_nat n" by (simp_all add: big_ok_def)
  have f: "f + 1 < 2 ^ 35" "f < 2 ^ 35" "n < 2 ^ 35" using n inv(5) by simp_all
  have page: "frame_addr (f + 1) \<noteq> 0" "frame_addr (f + 1) AND 0xFFF = 0"
    using in_frame_nonzero [OF f(1), of 0] in_frame_bits(1) [OF f(1), of 0] by (simp_all add: in_frame_def)
  have prev: "frame_addr (f + 1) - PAGE_SIZE = frame_addr f" using frame_addr_Suc [of f] by (metis add_diff_cancel_right')
  have phys: "frame_addr f - HIGHER_HALF = of_nat f * PAGE_SIZE" by (simp add: frame_addr_def)
  have cnt: "unat (of_nat n + 1 :: u64) = n + 1" using unat_of_nat_u64 [of "n + 1"] f(3) by (simp add: add.commute)
  have fr: "freeable s f (n + 1)" using big by (auto simp: freeable_def big_ok_def)
  have wf: "pmm_wf s" using inv(1,3) by (simp add: pmm_wf_def slab_wf_def)
  obtain s' where r: "pmm_free c (of_nat f * PAGE_SIZE) (of_nat n + 1) s = Inr s'" "pmm_free_post s f (n + 1) s'" "pmm_wf s'"
    using pmm_free_spec [OF wf, of f "of_nat n + 1" "of_nat f * PAGE_SIZE" c] fr frame_number [OF f(2)] cnt by auto
  have "free c (frame_addr (f + 1)) s = Inr s'"
    using page r(1) by (simp add: free_def big_free_def Let_def prev phys n(4) del: One_nat_def)
  moreover have keep: "mem s' x = mem s x" if "g \<in> heap_frame G B" "in_range (frame_addr g) 0x1000 x" for g x
    using r(2) heap_frame_facts(4) [OF assms(1) that(1)] that(2) unfolding pmm_free_post_def disjoint_regions_def by blast
  have sub: "B(f := None) \<subseteq>\<^sub>m B" by (simp add: map_le_def)
  have hsub: "heap_frame G (B(f := None)) \<subseteq> heap_frame G B" by (auto simp: heap_frame_def split: if_splits)
  note others = heap_frame_drop [OF assms]
  have lay: "same_layout s s'" "slab_lock s' = slab_lock s"
    using r(2) slab_fields_more [of s' s] by (simp_all add: pmm_free_post_def same_layout_def page_total_def unat_inject)
  have "heap_inv s' G F (B(f := None))"
  proof (rule heap_inv_frame [OF assms(1) lay(1) r(3) _ sub])
    show "lock_idle (slab_lock s')" using inv(1) lay(2) by (simp add: slab_wf_def)
    show "page_used s' g" if "g \<in> heap_frame G (B(f := None))" for g
      using r(2) others [OF that] heap_frame_facts(1,2) [OF assms(1)] hsub that unfolding pmm_free_post_def by auto
    show "mem s' x = mem s x" if "g \<in> heap_frame G (B(f := None))" "in_range (frame_addr g) 0x1000 x" for g x
      using keep that hsub by blast
    show "mem s' x = mem s x" if "in_range (slabs s) 160 x" for x
      using r(2) inv(4) that unfolding pmm_free_post_def table_ok_def disjoint_regions_def by blast
    show "disjoint_regions (frame_addr g) 0x1000 (slabs s) 160" if "g < page_total s" "\<not> page_used s' g" for g
    proof (cases "g \<in> {f..f + n}")
      case True
      then show ?thesis using big by (simp add: big_ok_def)
    next
      case False
      then show ?thesis using that r(2) inv(4) by (auto simp: pmm_free_post_def table_ok_def)
    qed
  qed
  moreover have "heap_live G F (B(f := None)) = heap_live G F B - {(frame_addr (f + 1), n * 0x1000)}"
  proof -
    have "frame_addr (f + 1) \<notin> slab_live G F i" if "i < SLAB_COUNT" for i
      using block_page(2) [OF that] slab_frames_bound [OF inv(2)] that page(2) by (auto simp: slab_live_def)
    moreover have "frame_addr (g + 1) \<noteq> frame_addr (f + 1)" if "B g = Some m" "g \<noteq> f" for g m
    proof -
      have "g + 1 < 2 ^ 35" using inv(7) [OF that(1)] inv(5) by (auto simp: big_ok_def)
      then show ?thesis using f(1) that(2) unat_frame_addr [of "g + 1"] unat_frame_addr [of "f + 1"] by auto
    qed
    moreover have dropped: "(B(f := None)) g = Some m \<longleftrightarrow> B g = Some m \<and> g \<noteq> f" for g m by simp
    ultimately have "(q, m) \<in> heap_live G F (B(f := None)) \<longleftrightarrow>
        (q, m) \<in> heap_live G F B - {(frame_addr (f + 1), n * 0x1000)}" for q m
      unfolding Diff_iff heap_live_iff dropped using assms(2) by (auto; metis option.inject)
    then show ?thesis by auto
  qed
  ultimately show ?thesis using keep by blast
qed

lemma free_spec:
  assumes "heap_inv s G F B" and "(p, m) \<in> heap_live G F B"
  shows "\<exists>s' F' B'. free c p s = Inr s' \<and> heap_inv s' G F' B' \<and> heap_live G F' B' = heap_live G F B - {(p, m)} \<and>
    (\<forall>(q, k)\<in>heap_live G F B - {(p, m)}. \<forall>x. in_range q k x \<longrightarrow> mem s' x = mem s x)"
  using assms
proof (cases rule: heap_live_cases)
  case (slab i)
  then show ?thesis using free_small [OF assms(1) slab(1,2), of c] by blast
next
  case (big f n)
  obtain s' where r: "free c p s = Inr s'" "heap_inv s' G F (B(f := None))" "heap_live G F (B(f := None)) = heap_live G F B - {(p, m)}"
    "\<And>x. \<exists>g\<in>heap_frame G B. in_range (frame_addr g) 0x1000 x \<Longrightarrow> mem s' x = mem s x"
    using free_large [OF assms(1) big(1), of c] unfolding big(2,3) by blast
  have "mem s' x = mem s x" if "(q, k) \<in> heap_live G F B" "in_range q k x" for q k x
    using heap_live_frame [OF assms(1) that] r(4) by blast
  then show ?thesis using r(1-3) by blast
qed

section \<open>Writing to an allocation\<close>

text \<open>A program that writes only inside a live allocation disturbs no allocator data.\<close>

lemma live_apart_slab:
  assumes "heap_inv s G F B" and "(p, m) \<in> heap_live G F B" and "in_range p m x" and "j < SLAB_COUNT"
  shows "g \<in> G j \<Longrightarrow> \<not> in_range (frame_addr g) 8 x" and "y \<in> set (F j) \<Longrightarrow> \<not> in_range y 8 x"
proof -
  note inv = heap_invD [OF assms(1)]
  have bnd: "\<forall>f\<in>G j. f < 2 ^ 35" using slab_frames_bound [OF inv(2)] assms(4) by simp
  have sub: "set (F j) \<subseteq> blocks j (G j)" using slab_invD(2) [OF inv(2)] assms(4) by (simp add: slab_ok_def)
  have "(\<forall>g\<in>G j. \<not> in_range (frame_addr g) 8 x) \<and> (\<forall>y\<in>set (F j). \<not> in_range y 8 x)"
    using assms(1,2)
  proof (cases rule: heap_live_cases)
    case (slab i)
    obtain h k where p: "p = block i h k" "h \<in> G i" "k < nblocks i"
      using slab(2) unfolding slab_live_def blocks_def by blast
    have h: "h < 2 ^ 35" using slab_frames_bound [OF inv(2)] slab(1) p(2) by simp
    have "8 \<le> ent i * (k + 1)" using ent_values(2) [OF slab(1)] by (simp add: trans_le_add1)
    then have "disjoint_regions (in_frame g 0) 8 (in_frame h (ent i * (k + 1))) (ent i)" if "g \<in> G j" for g
      using bnd h that block_fits(1) [OF slab(1) p(3)] by (intro in_frame_disjoint) auto
    then have hdr: "\<not> in_range (frame_addr g) 8 x" if "g \<in> G j" for g
      using that assms(3) unfolding disjoint_regions_def p(1) slab(3) block_def in_frame_def by auto
    have "\<not> in_range y 8 x" if y: "y \<in> set (F j)" for y
    proof -
      obtain g l where b: "y = block j g l" "g \<in> G j" "l < nblocks j" using sub y unfolding blocks_def by blast
      have "h \<noteq> g" if "i \<noteq> j" using inv(2) slab(1) assms(4) that p(2) b(2) unfolding slab_inv_def by blast
      moreover have "p \<noteq> y" if "i = j" using slab(2) y that by (auto simp: slab_live_def)
      ultimately have "disjoint_regions (block i h k) (ent i) (block j g l) (ent j)"
        using p b slab(1) assms(4) h bnd by (intro block_disjoint) auto
      then show ?thesis using assms(3) in_range_le [OF _ ent_values(2) [OF assms(4)], of y x]
        unfolding disjoint_regions_def p(1) b(1) slab(3) by blast
    qed
    then show ?thesis using hdr by blast
  next
    case (big f n)
    obtain h where h: "h \<in> {f + 1..f + n}" "in_range (frame_addr h) 0x1000 x" using big(5) assms(3) by blast
    have "{f..f + n} \<inter> G j = {}" using assms(1,4) big(1) unfolding heap_inv_def by blast
    moreover have "h \<in> {f..f + n}" "h < 2 ^ 35" using h(1) big(4) inv(5) by (auto simp: big_ok_def)
    ultimately have out: "\<not> in_range (frame_addr g) 0x1000 x" if "g \<in> G j" for g
      using frame_unique [OF _ _ _ h(2)] bnd that by blast
    have "\<not> in_range (frame_addr g) 8 x" if "g \<in> G j" for g using out [OF that] in_range_le [of _ 8 x "0x1000"] by auto
    moreover have "\<not> in_range y 8 x" if y: "y \<in> set (F j)" for y
      using block_frame [OF assms(4) bnd, of y x] in_range_le [OF _ ent_values(2) [OF assms(4)], of y x] sub y out by blast
    ultimately show ?thesis by blast
  qed
  then show "g \<in> G j \<Longrightarrow> \<not> in_range (frame_addr g) 8 x" "y \<in> set (F j) \<Longrightarrow> \<not> in_range y 8 x" by blast+
qed

lemma live_apart:
  assumes "heap_inv s G F B" and "(p, m) \<in> heap_live G F B" and "in_range p m x"
  shows "\<not> in_range (pmm_bitmap s) (bitmap_bytes s) x" and "\<not> in_range (slabs s) 160 x"
    and "B f = Some n \<Longrightarrow> \<not> in_range (frame_addr f) 16 x"
proof -
  note inv = heap_invD [OF assms(1)]
  obtain h where h: "h \<in> heap_frame G B" "in_range (frame_addr h) 0x1000 x" using heap_live_frame [OF assms] by blast
  show "\<not> in_range (pmm_bitmap s) (bitmap_bytes s) x" "\<not> in_range (slabs s) 160 x"
    using heap_frame_facts(4,5) [OF assms(1) h(1)] h(2) unfolding disjoint_regions_def by blast+
  show "\<not> in_range (frame_addr f) 16 x" if f: "B f = Some n"
  proof
    assume "in_range (frame_addr f) 16 x"
    then have x: "in_range (frame_addr f) 0x1000 x" by (rule in_range_le) simp
    have ff: "f \<in> heap_frame G B" using f by (intro heap_frameI(2) [of B f n]) simp_all
    note f35 = heap_frame_facts(3) [OF assms(1) ff]
    show False using assms(1,2)
    proof (cases rule: heap_live_cases)
      case (slab i)
      then obtain g where "g \<in> G i" "in_range (frame_addr g) 0x1000 x" using assms(3) by blast
      moreover from this have "f = g" using frame_unique [OF f35 _ x] slab_frames_bound [OF inv(2)] slab(1) by blast
      ultimately show False using assms(1) f slab(1) unfolding heap_inv_def by fastforce
    next
      case (big g k)
      then obtain e where e: "e \<in> {g + 1..g + k}" "in_range (frame_addr e) 0x1000 x" using assms(3) by blast
      have "e < 2 ^ 35" using e(1) big(4) inv(5) unfolding big_ok_def by auto
      then have "f = e" using frame_unique [OF f35 _ x] e(2) by blast
      then show False using assms(1) f big(1) e(1) unfolding heap_inv_def by fastforce
    qed
  qed
qed

lemma heap_write:
  assumes inv0: "heap_inv s G F B" and pm: "(p, m) \<in> heap_live G F B"
    and out: "\<And>x. \<not> in_range p m x \<Longrightarrow> mem s' x = mem s x" and rest: "s' = s\<lparr>mem := mem s'\<rparr>"
  shows "heap_inv s' G F B"
proof -
  note inv = heap_invD [OF inv0] and apart = live_apart [OF inv0 pm]
  have lay: "same_layout s s'" "last_used_index s' = last_used_index s" "pmm_lock s' = pmm_lock s" "slab_lock s' = slab_lock s"
    by (subst rest; simp add: same_layout_def)+
  note layD = same_layoutD [OF lay(1)]
  have used: "page_used s' j = page_used s j" if "j < page_total s" for j
    using apart(1) by (intro page_used_cong [OF inv(6) that layD(2)] out) blast
  have pinv: "pmm_inv s'" by (rule pmm_inv_cong [OF inv(3) lay(1,2) used])
  have tab: "table_ok s'" by (rule table_ok_cong [OF inv(4) lay(1)]) (simp add: used)
  have ld: "ld64 s' a = ld64 s a" if "\<And>x. in_range a 8 x \<Longrightarrow> \<not> in_range p m x" for a
    unfolding ld64_def using that by (intro load64_cong out) (simp add: in_range_offset)
  have "slab_ok s' j (G j) (F j)" if j: "j < SLAB_COUNT" for j
  proof -
    have ok: "slab_ok s j (G j) (F j)" using slab_invD(2) [OF inv(2)] j by blast
    have "ld64 s' (slab_ptr s j) = ld64 s (slab_ptr s j)" "ld64 s' (slab_ptr s j + 8) = ld64 s (slab_ptr s j + 8)"
      using apart(2) slab_ptr_in_table [OF inv(4) j] slab_ptr_halves [OF inv(4) j] by (intro ld; blast)+
    moreover have "load64 (mem s') y = load64 (mem s) y" if "y \<in> set (F j)" for y
      using ld [of y] live_apart_slab(2) [OF inv0 pm _ j that] unfolding ld64_def by blast
    moreover have "slab_frame s' j f" if "f \<in> G j" for f
    proof -
      have fr: "slab_frame s j f" using ok that by (simp add: slab_ok_def)
      then have "ld64 s' (frame_addr f) = ld64 s (frame_addr f)" using live_apart_slab(1) [OF inv0 pm _ j that] by (intro ld) blast
      then show ?thesis using fr used by (simp add: slab_frame_def layD)
    qed
    ultimately show ?thesis using ok free_list_cong [of "F j" "mem s'" "mem s"] by (simp add: slab_ok_def layD)
  qed
  then have "slab_wf s' {..<SLAB_COUNT} G F"
    using inv(1) pinv tab by (simp add: slab_wf_def slab_inv_def lay)
  moreover have "big_ok s' f n" if f: "B f = Some n" for f n
  proof (rule big_ok_frame [OF inv(7) [OF f] lay(1)])
    show "page_used s' g" if "g \<in> {f..f + n}" for g
      using used heap_frame_facts(1,2) [OF inv0 heap_frameI(2) [of B f n g]] f that by simp
    show "mem s' x = mem s x" if "in_range (frame_addr f) 16 x" for x using apart(3) [OF _ f] that by (intro out) blast
  qed
  ultimately show ?thesis using inv0 unfolding heap_inv_def by simp
qed

section \<open>realloc\<close>

lemma live_small:
  assumes "heap_inv s G F B" and "(p, m) \<in> heap_live G F B" and "p AND 0xFFF \<noteq> 0"
  shows "ld64 s (ld64 s (p AND NOT 0xFFF) + 8) = of_nat m" and "m \<le> 0x400" and "p \<noteq> 0"
proof -
  note inv = heap_invD [OF assms(1)]
  have "ld64 s (ld64 s (p AND NOT 0xFFF) + 8) = of_nat m \<and> m \<le> 0x400 \<and> p \<noteq> 0"
    using assms(1,2)
  proof (cases rule: heap_live_cases)
    case (slab i)
    have i: "i \<in> {..<SLAB_COUNT}" using slab(1) by simp
    have bl: "p \<in> blocks i (G i)" using slab(2) by (simp add: slab_live_def)
    note pg = block_page [OF slab(1) slab_frames_bound [OF inv(2) i] bl]
    obtain f where f: "f \<in> G i" "p AND NOT 0xFFF = frame_addr f" using pg(3) by blast
    then show ?thesis using slab_invD(7) [OF inv(2) i f(1)] slab_invD(2) [OF inv(2) i] pg(1) ent_values(3,4) [OF slab(1)] slab(3)
      by (simp add: slab_frame_def slab_ok_def)
  next
    case (big f n)
    have "f + 1 < 2 ^ 35" using big(4) inv(5) by (auto simp: big_ok_def)
    then show ?thesis using assms(3) in_frame_bits(1) [of "f + 1" 0] big(2) by (simp add: in_frame_def)
  qed
  then show "ld64 s (ld64 s (p AND NOT 0xFFF) + 8) = of_nat m" "m \<le> 0x400" "p \<noteq> 0" by blast+
qed

lemma live_large:
  assumes "heap_inv s G F B" and "(p, m) \<in> heap_live G F B" and "p AND 0xFFF = 0"
  obtains f n where "B f = Some n" and "p - PAGE_SIZE = frame_addr f" and "p = frame_addr (f + 1)" and "m = n * 0x1000"
    and "big_ok s f n" and "p \<noteq> 0" and "f < 2 ^ 35"
  using assms(1,2)
proof (cases rule: heap_live_cases)
  case (slab i)
  have bl: "p \<in> blocks i (G i)" using slab(2) by (simp add: slab_live_def)
  show thesis using block_page(2) [OF slab(1) _ bl] slab_frames_bound [OF heap_invD(2) [OF assms(1)]] slab(1) assms(3) by simp
next
  case (big f n)
  have f: "f + 1 < 2 ^ 35" using big(4) heap_invD(5) [OF assms(1)] by (auto simp: big_ok_def)
  have "p - PAGE_SIZE = frame_addr f" using frame_addr_Suc [of f] big(2) by (metis add_diff_cancel_right')
  moreover have "p \<noteq> 0" using in_frame_nonzero [OF f, of 0] big(2) by (simp add: in_frame_def)
  ultimately show thesis using big that f by simp
qed

text \<open>The effect of a call that turns allocation \<open>(p, m)\<close> into one at \<open>p'\<close> and keeps its first \<open>n\<close> bytes.\<close>

definition heap_resizes ::
  "('z) heap_state_scheme \<Rightarrow> (addr \<times> nat) set \<Rightarrow> addr \<times> nat \<Rightarrow> nat \<Rightarrow> nat \<Rightarrow> addr \<Rightarrow>
   ('z) heap_state_scheme \<Rightarrow> (addr \<times> nat) set \<Rightarrow> bool" where
  "heap_resizes s L pm n len p' s' L' \<longleftrightarrow> (\<exists>m'\<ge>len. p' \<noteq> 0 \<and> L' = insert (p', m') (L - {pm}) \<and>
     (\<forall>i<n. mem s' (p' + of_nat i) = mem s (fst pm + of_nat i)) \<and>
     (\<forall>(q, k)\<in>L - {pm}. \<forall>x. in_range q k x \<longrightarrow> mem s' x = mem s x))"

lemma realloc_move:
  assumes inv0: "heap_inv s G F B" and pm: "(p, m) \<in> heap_live G F B" and len: "unat len < 2 ^ 63"
    and r: "malloc c len s = Inr (p', s1)" and n: "unat n \<le> m" "unat n \<le> unat len"
    and s2: "s2 = s1\<lparr>mem := snd (memcpy (mem s1) p' p n)\<rparr>"
  shows "\<exists>G1 F1 B1 s' F' B'. heap_inv s2 G1 F1 B1 \<and> (p, m) \<in> heap_live G1 F1 B1 \<and> free c p s2 = Inr s' \<and>
    heap_inv s' G1 F' B' \<and> heap_resizes s (heap_live G F B) (p, m) (unat n) (unat len) p' s' (heap_live G1 F' B')"
proof -
  obtain G1 F1 B1 where e: "heap_inv s1 G1 F1 B1"
    "heap_extends s (heap_live G F B) (unat len) p' s1 (heap_live G1 F1 B1)"
    using malloc_spec [OF inv0 len, of c] r by auto
  then obtain m' where m': "unat len \<le> m'" "heap_live G1 F1 B1 = insert (p', m') (heap_live G F B)" "p' \<noteq> 0"
    and dis: "\<And>q k. (q, k) \<in> heap_live G F B \<Longrightarrow> disjoint_regions p' m' q k"
    and keep: "\<And>q k x. (q, k) \<in> heap_live G F B \<Longrightarrow> in_range q k x \<Longrightarrow> mem s1 x = mem s x"
    unfolding heap_extends_def by blast
  have nb: "unat n < 2 ^ 64" by (rule unat_u64_bound)
  have "disjoint_regions p' (unat n) p (unat n)"
    using dis [OF pm] n m'(1) in_range_le unfolding disjoint_regions_def by (meson le_trans)
  then have mem2: "mem s2 = store_bytes (mem s1) p' (load_bytes (mem s1) p (unat n))" by (simp add: s2 memcpy_store)
  have out: "mem s2 x = mem s1 x" if "\<not> in_range p' m' x" for x
    using that in_range_le [of p' "unat n" x m'] n(2) m'(1) nb by (auto simp: mem2 intro!: store_bytes_outside)
  have inv2: "heap_inv s2 G1 F1 B1"
    by (rule heap_write [OF e(1) _ out]) (simp_all add: m'(2) s2)
  have pm1: "(p, m) \<in> heap_live G1 F1 B1" using pm m'(2) by simp
  obtain s' F' B' where f: "free c p s2 = Inr s'" "heap_inv s' G1 F' B'" "heap_live G1 F' B' = heap_live G1 F1 B1 - {(p, m)}"
    "\<forall>(q, k)\<in>heap_live G1 F1 B1 - {(p, m)}. \<forall>x. in_range q k x \<longrightarrow> mem s' x = mem s2 x"
    using free_spec [OF inv2 pm1, of c] by blast
  have ne: "(p', m') \<noteq> (p, m)"
    using dis [OF pm] live_pos [OF inv0 pm] by (auto simp: disjoint_regions_def in_range_def dest!: spec [where x = p])
  have "mem s' (p' + of_nat i) = mem s (p + of_nat i)" if i: "i < unat n" for i
  proof -
    have "unat (of_nat i :: u64) = i" using i nb by (intro unat_of_nat_u64) simp
    moreover from this have r: "in_range p' m' (p' + of_nat i)" "in_range p m (p + of_nat i)"
      using i n m'(1) by (simp_all add: in_range_def)
    moreover have "(p', m') \<in> heap_live G1 F1 B1 - {(p, m)}" using ne m'(2) by simp
    then have "mem s' (p' + of_nat i) = mem s2 (p' + of_nat i)" using f(4) r(1) by blast
    ultimately show ?thesis using keep [OF pm, of "p + of_nat i"] i nb
      by (simp add: mem2 store_bytes_apply load_bytes_def)
  qed
  moreover have "mem s' x = mem s x" if l: "(q, k) \<in> heap_live G F B - {(p, m)}" and x: "in_range q k x" for q k x
  proof -
    have "(q, k) \<in> heap_live G1 F1 B1 - {(p, m)}" using l m'(2) by blast
    then have "mem s' x = mem s2 x" using f(4) x by blast
    moreover have "\<not> in_range p' m' x" using dis [of q k] l x unfolding disjoint_regions_def by blast
    ultimately show ?thesis using out keep [of q k x] l x by simp
  qed
  ultimately have "heap_resizes s (heap_live G F B) (p, m) (unat n) (unat len) p' s' (heap_live G1 F' B')"
    using m' f(3) ne unfolding heap_resizes_def by (intro exI [of _ m']) auto
  then show ?thesis using inv2 pm1 f(1,2) by blast
qed

text \<open>Resizing in place: only the recorded size of the large allocation changes.\<close>

lemma heap_set_size:
  assumes "heap_inv s G F B" and "B f = Some n" and "unat len \<le> n * 0x1000"
  shows "heap_inv (st64 (frame_addr f + 8) len s) G F B"
    and "(q, k) \<in> heap_live G F B \<Longrightarrow> in_range q k x \<Longrightarrow> mem (st64 (frame_addr f + 8) len s) x = mem s x"
proof -
  let ?s = "st64 (frame_addr f + 8) len s"
  note inv = heap_invD [OF assms(1)]
  have big: "big_ok s f n" by (rule inv(7) [OF assms(2)])
  have f: "f \<in> heap_frame G B" using assms(2) by (intro heap_frameI(2) [of B f n]) simp_all
  note ff = heap_frame_facts [OF assms(1) f]
  have in8: "in_range (frame_addr f) 0x1000 x" "in_range (frame_addr f) 16 x" if "in_range (frame_addr f + 8) 8 x" for x
  proof -
    have u: "unat (frame_addr f + 8) = unat (frame_addr f) + 8" "unat (frame_addr f) + 0x1000 \<le> 2 ^ 64"
      using in_frame_unat [OF ff(3), of 8] in_frame_unat [OF ff(3), of 0] ff(3) by (simp_all add: in_frame_def)
    show "in_range (frame_addr f) 0x1000 x" "in_range (frame_addr f) 16 x" using that u by (simp_all add: in_range_unat)
  qed
  have out: "mem ?s x = mem s x" if "\<not> in_range (frame_addr f) 16 x" for x
    using that in8(2) [of x] store64_outside [of "frame_addr f + 8" x] by auto
  then show keep: "mem ?s x = mem s x" if "(q, k) \<in> heap_live G F B" "in_range q k x" for q k x
    using live_apart(3) [OF assms(1) that assms(2)] by simp
  have lay: "same_layout s ?s" "slab_lock ?s = slab_lock s" "last_used_index ?s = last_used_index s" "pmm_lock ?s = pmm_lock s"
    by (simp_all add: st64_def same_layout_def)
  have far: "mem ?s x = mem s x" if "\<not> in_range (frame_addr f) 0x1000 x" for x
    using out [of x] that in_range_le [of "frame_addr f" 16 x "0x1000"] by auto
  have used: "page_used ?s j = page_used s j" if "j < page_total s" for j
    using ff(4) by (intro page_used_cong [OF inv(6) that] far) (auto simp: disjoint_regions_def st64_def)
  have wf: "pmm_wf ?s" using pmm_inv_cong [OF inv(3) lay(1,3) used] inv(1) by (simp add: pmm_wf_def slab_wf_def lay)
  have sub: "B(f := None) \<subseteq>\<^sub>m B" by (simp add: map_le_def)
  have hsub: "g \<in> heap_frame G B \<and> g \<noteq> f" if "g \<in> heap_frame G (B(f := None))" for g
    using heap_frame_drop [OF assms(1,2) that] that by (auto simp: heap_frame_def split: if_splits)
  have "heap_inv ?s G F (B(f := None))"
  proof (rule heap_inv_frame [OF assms(1) lay(1) wf _ sub])
    show "lock_idle (slab_lock ?s)" using inv(1) lay(2) by (simp add: slab_wf_def)
    show "page_used ?s g" if "g \<in> heap_frame G (B(f := None))" for g
      using used heap_frame_facts(1,2) [OF assms(1)] hsub [OF that] by blast
    show "mem ?s x = mem s x" if "g \<in> heap_frame G (B(f := None))" "in_range (frame_addr g) 0x1000 x" for g x
      using far frame_unique [OF ff(3) _ _ that(2)] hsub [OF that(1)] heap_frame_facts(3) [OF assms(1)] by blast
    show "mem ?s x = mem s x" if "in_range (slabs s) 160 x" for x
      using far ff(5) that unfolding disjoint_regions_def by blast
    show "disjoint_regions (frame_addr g) 0x1000 (slabs s) 160" if "g < page_total s" "\<not> page_used ?s g" for g
      using inv(4) that used by (simp add: table_ok_def)
  qed
  moreover have "big_ok ?s f n"
  proof -
    have "disjoint_regions (frame_addr f + 8) 8 (frame_addr f) 8"
      using in_frame_disjoint [of f f 8 8 0 8] ff(3) by (simp add: in_frame_def)
    then have "ld64 ?s (frame_addr f) = ld64 s (frame_addr f)" by (simp add: ld64_def load64_store64_disjoint)
    then show ?thesis using big used assms(3) by (auto simp: big_ok_def same_layoutD [OF lay(1)])
  qed
  ultimately have "heap_inv ?s G F ((B(f := None))(f \<mapsto> n))"
    using heap_frame_drop [OF assms(1,2)] by (intro heap_inv_insert) auto
  then show "heap_inv ?s G F B" using assms(2) by (simp add: fun_upd_idem)
qed

text \<open>The number of bytes \<^verbatim>\<open>realloc\<close> regards as contents: the block size or the recorded request.\<close>

definition heap_used :: "('z) slab_state_scheme \<Rightarrow> addr \<Rightarrow> nat \<Rightarrow> nat" where
  "heap_used s p m = (if p AND 0xFFF = 0 then unat (ld64 s (p - PAGE_SIZE + 8)) else m)"

lemma realloc_in_place:
  assumes "heap_inv s' G F B" and "(p, m) \<in> heap_live G F B" and "unat len \<le> m" and "p \<noteq> 0" and "n \<le> m"
    and "\<And>q k x. (q, k) \<in> heap_live G F B \<Longrightarrow> in_range q k x \<Longrightarrow> mem s' x = mem s x" and "m \<le> 2 ^ 64"
  shows "heap_resizes s (heap_live G F B) (p, m) n (unat len) p s' (heap_live G F B)"
proof -
  have "mem s' (p + of_nat i) = mem s (p + of_nat i)" if "i < n" for i
    using assms(5,7) that by (intro assms(6) [OF assms(2)] in_range_offset) simp_all
  then show ?thesis unfolding heap_resizes_def using assms(2,3,4,6) by (intro exI [of _ m]) auto
qed

lemma realloc_small:
  assumes inv0: "heap_inv s G F B" and pm: "(p, m) \<in> heap_live G F B" and len: "unat len < 2 ^ 63" and small: "p AND 0xFFF \<noteq> 0"
  shows "case realloc c p len s of
      Inl e \<Rightarrow> e = Panic ''Kernel OOM'' \<and> next_fit (frames_needed len) s = None
    | Inr (p', s') \<Rightarrow> \<exists>G' F' B'. heap_inv s' G' F' B' \<and>
        heap_resizes s (heap_live G F B) (p, m) (min (unat len) m) (unat len) p' s' (heap_live G' F' B')"
proof -
  note l = live_small [OF inv0 pm small]
  have um: "unat (of_nat m :: u64) = m" using l(2) by (intro unat_of_nat_u64) simp
  show ?thesis
  proof (cases "unat len \<le> m")
    case True
    then have "realloc c p len s = Inr (p, s)" using small l by (simp add: realloc_def Let_def word_less_nat_alt um)
    then show ?thesis using realloc_in_place [OF inv0 pm True l(3)] inv0 l(2) by fastforce
  next
    case False
    then have re: "realloc c p len s = bindR (malloc c len s) (\<lambda>(new_ptr, s1).
        let slab1 = ld64 s1 (p AND NOT 0xFFF);
            s2 = s1\<lparr>mem := snd (memcpy (mem s1) new_ptr p (ld64 s1 (slab1 + 8)))\<rparr>
        in bindR (slab_free c (ld64 s2 (p AND NOT 0xFFF)) p s2) (\<lambda>s3. Inr (new_ptr, s3)))"
      using small l by (simp add: realloc_def Let_def word_less_nat_alt um)
    show ?thesis
    proof (cases "malloc c len s")
      case (Inl e)
      then show ?thesis using malloc_spec [OF inv0 len, of c] by (simp add: re)
    next
      case (Inr r)
      then obtain p' s1 where r: "malloc c len s = Inr (p', s1)" by (cases r) auto
      obtain G1 F1 B1 where e: "heap_inv s1 G1 F1 B1" "(p, m) \<in> heap_live G1 F1 B1"
        using malloc_spec [OF inv0 len, of c] r pm by (auto simp: heap_extends_def)
      note l1 = live_small [OF e small]
      define s2 where "s2 = s1\<lparr>mem := snd (memcpy (mem s1) p' p (of_nat m))\<rparr>"
      obtain G2 F2 B2 s' F' B' where f: "free c p s2 = Inr s'" "heap_inv s' G2 F' B'"
        "heap_resizes s (heap_live G F B) (p, m) m (unat len) p' s' (heap_live G2 F' B')"
        using realloc_move [OF inv0 pm len r, of "of_nat m"] False by (auto simp: um s2_def)
      have "slab_free c (ld64 s2 (p AND NOT 0xFFF)) p s2 = Inr s'" using f(1) small l(3) by (simp add: free_def Let_def)
      then have "realloc c p len s = Inr (p', s')" by (simp add: re r Let_def l1(1) [simplified] flip: s2_def)
      then show ?thesis using f(2,3) False by (auto simp: min_def)
    qed
  qed
qed

lemma realloc_large:
  assumes inv0: "heap_inv s G F B" and pm: "(p, m) \<in> heap_live G F B" and len: "unat len < 2 ^ 63" and large: "p AND 0xFFF = 0"
  shows "case realloc c p len s of
      Inl e \<Rightarrow> e = Panic ''Kernel OOM'' \<and> next_fit (frames_needed len) s = None
    | Inr (p', s') \<Rightarrow> \<exists>G' F' B'. heap_inv s' G' F' B' \<and>
        heap_resizes s (heap_live G F B) (p, m) (min (unat len) (heap_used s p m)) (unat len) p' s' (heap_live G' F' B')"
proof -
  obtain f n where f: "B f = Some n" "p - PAGE_SIZE = frame_addr f" "p = frame_addr (f + 1)" "m = n * 0x1000"
    "big_ok s f n" "p \<noteq> 0" "f < 2 ^ 35" using live_large [OF inv0 pm large] by blast
  define old where "old = ld64 s (frame_addr f + 8)"
  have old: "unat old \<le> m" "heap_used s p m = unat old" and m47: "m \<le> 2 ^ 47"
    using f heap_invD(5) [OF inv0] large by (auto simp: big_ok_def old_def heap_used_def)
  then have old63: "unat old < 2 ^ 63" by simp
  have re: "realloc c p len s = big_realloc c p len s" using f(6) large by (simp add: realloc_def)
  show ?thesis
  proof (cases "div_roundup old PAGE_SIZE = div_roundup len PAGE_SIZE")
    case True
    then have pages: "(unat old + 0xFFF) div 0x1000 = (unat len + 0xFFF) div 0x1000"
      using page_count_rounds(1) [OF len] page_count_rounds(1) [OF old63] by simp
    have "(unat old + 0xFFF) div 0x1000 \<le> n" using old(1) f(4) by simp
    then have lm: "unat len \<le> m" using page_count_rounds(3) [OF len] f(4) unfolding pages by linarith
    have "realloc c p len s = Inr (p, st64 (frame_addr f + 8) len s)"
      using True by (simp add: re big_realloc_def Let_def f(2) old_def)
    moreover note w = heap_set_size [OF inv0 f(1), of len, folded f(4), OF lm]
    moreover have "heap_resizes s (heap_live G F B) (p, m) (min (unat len) (heap_used s p m)) (unat len) p
        (st64 (frame_addr f + 8) len s) (heap_live G F B)"
      using lm m47 by (intro realloc_in_place [OF w(1) pm lm f(6) _ w(2)]) simp_all
    ultimately show ?thesis by auto
  next
    case False
    show ?thesis
    proof (cases "malloc c len s")
      case (Inl e)
      then show ?thesis using malloc_spec [OF inv0 len, of c] False by (simp add: re big_realloc_def Let_def f(2) old_def)
    next
      case (Inr r)
      then obtain p' s1 where r: "malloc c len s = Inr (p', s1)" by (cases r) auto
      have p': "p' \<noteq> 0" and km: "keeps_meta s B s1"
        using malloc_spec [OF inv0 len, of c] r by (auto simp: heap_extends_def)
      have old1: "ld64 s1 (frame_addr f + 8) = old" unfolding old_def ld64_def
      proof (rule load64_cong)
        fix i :: nat assume "i < 8"
        then have "in_range (frame_addr f) 16 (frame_addr f + 8 + of_nat i)"
          using in_range_offset [of "8 + i" 16 "frame_addr f"] by (simp add: add.assoc)
        then show "mem s1 (frame_addr f + 8 + of_nat i) = mem s (frame_addr f + 8 + of_nat i)"
          using km f(1) unfolding keeps_meta_def by blast
      qed
      define k where "k = (if old > len then len else old)"
      have k: "unat k = min (unat len) (heap_used s p m)" "unat k \<le> m" "unat k \<le> unat len"
        using old by (auto simp: k_def word_less_nat_alt)
      obtain G2 F2 B2 s' F' B' where mv: "free c p (s1\<lparr>mem := snd (memcpy (mem s1) p' p k)\<rparr>) = Inr s'" "heap_inv s' G2 F' B'"
        "heap_resizes s (heap_live G F B) (p, m) (unat k) (unat len) p' s' (heap_live G2 F' B')"
        using realloc_move [OF inv0 pm len r k(2,3) refl] by blast
      have "realloc c p len s = Inr (p', s')"
        using False mv(1) p' unfolding re big_realloc_def Let_def f(2)
        by (simp add: r old1 k_def split: if_splits flip: old_def)
      then show ?thesis using mv(2,3) k(1) by auto
    qed
  qed
qed


text \<open>
  C2: \<^verbatim>\<open>free\<close> of a live allocation, small or large, succeeds with the address alone: exactly that allocation
  is no longer live, every other one keeps its contents, and the heap invariant holds again.  Freeing
  NULL changes nothing.
\<close>

theorem free_correct:
  assumes "heap_inv s G F B" and "(p, m) \<in> heap_live G F B"
  shows "free c 0 s = Inr s \<and>
    (\<exists>s' F' B'. free c p s = Inr s' \<and> heap_inv s' G F' B' \<and> heap_live G F' B' = heap_live G F B - {(p, m)} \<and>
    (\<forall>(q, k)\<in>heap_live G F B - {(p, m)}. \<forall>x. in_range q k x \<longrightarrow> mem s' x = mem s x))"
  using free_spec [OF assms] by (simp add: free_def)

lemma realloc_spec:
  assumes "heap_inv s G F B" and "(p, m) \<in> heap_live G F B" and "unat len < 2 ^ 63"
  shows "case realloc c p len s of
      Inl e \<Rightarrow> e = Panic ''Kernel OOM'' \<and> next_fit (frames_needed len) s = None
    | Inr (p', s') \<Rightarrow> \<exists>G' F' B'. heap_inv s' G' F' B' \<and>
        heap_resizes s (heap_live G F B) (p, m) (min (unat len) (heap_used s p m)) (unat len) p' s' (heap_live G' F' B')"
proof (cases "p AND 0xFFF = 0")
  case True
  then show ?thesis by (rule realloc_large [OF assms])
next
  case False
  then have "heap_used s p m = m" by (simp add: heap_used_def)
  then show ?thesis using realloc_small [OF assms False, of c] by (simp only:)
qed

text \<open>
  C3: \<^verbatim>\<open>realloc\<close> of a live allocation gives one of at least \<open>len\<close> bytes, in place or moved, that begins with the
  old contents up to the smaller of the two sizes; the old allocation is gone when it moved, every
  other allocation keeps its contents, and the invariant holds again.  It panics only when the frame
  allocator has no free run of the frames the request needs.
\<close>

theorem realloc_correct:
  assumes "heap_inv s G F B" and "(p, m) \<in> heap_live G F B" and "unat len < 2 ^ 63"
  shows "case realloc c p len s of
      Inl e \<Rightarrow> e = Panic ''Kernel OOM'' \<and> next_fit (frames_needed len) s = None
    | Inr (p', s') \<Rightarrow> \<exists>G' F' B'. heap_inv s' G' F' B' \<and>
        heap_resizes s (heap_live G F B) (p, m) (min (unat len) (heap_used s p m)) (unat len) p' s' (heap_live G' F' B')"
  using assms by (rule realloc_spec)

end
