(* ===== verification/MemBoot.thy ===== *)
theory MemBoot
  imports PmmBoot Malloc
begin

text \<open>
  Bringing up the memory managers: \<^verbatim>\<open>pmm_init\<close> builds the frame bitmap from the boot loader's memory map and
  then calls \<^verbatim>\<open>slaballoc_init\<close>.  The theory shows that this establishes the heap invariant with no live
  allocation, and gives the concrete boot from which the allocators' theorems are instantiated.
\<close>

section \<open>What boot leaves alone\<close>

lemma place_bitmap_more: "place_bitmap sz es s = (es', s') \<Longrightarrow> pmm_state.more s' = pmm_state.more s"
  by (induction es arbitrary: es' s') (auto simp: Let_def split: if_splits prod.splits)

lemma free_region_more: "pmm_state.more (free_region e j s) = pmm_state.more s"
  by (induction e j s rule: free_region.induct)
    (subst free_region.simps, simp add: bitmap_resetbit_def Let_def)

lemma free_regions_more: "pmm_state.more (free_regions es s) = pmm_state.more s"
  by (induction es arbitrary: s) (simp_all add: free_region_more)

lemma pmm_init_bitmap_more:
  assumes "pmm_init_bitmap es s = (es', s')"
  shows "pmm_state.more s' = pmm_state.more s"
  using assms place_bitmap_more
  by (fastforce simp: pmm_init_bitmap_def Let_def free_regions_more split: prod.splits)

section \<open>Boot establishes the heap\<close>

text \<open>
  What the boot loader and the linker guarantee: a memory map as the boot protocol documents it with room
  for the bitmap and ten slab pages, zeroed counters, and the slab table inside the kernel image.
\<close>

definition bitmap_frames :: "memmap_entry list \<Rightarrow> nat" where
  "bitmap_frames es = unat (boot_bitmap_size es) div 0x1000"

definition boot_ok :: "memmap_entry list \<Rightarrow> ('z) slab_state_scheme \<Rightarrow> bool" where
  "boot_ok es s \<longleftrightarrow> memmap_ok es \<and>
     (\<exists>e\<in>set es. usable e \<and> 0 < mm_length e \<and> boot_bitmap_size es \<le> mm_length e) \<and>
     (let P = unat (highest_address es 0) div 0x1000 in \<not> (0 < P mod 0x8000 \<and> P mod 0x8000 < 8)) \<and>
     free_pages s = 0 \<and> last_used_index s = 0 \<and> lock_idle (slab_lock s) \<and>
     0 < unat (slabs s) \<and> unat (slabs s) + 160 \<le> 2 ^ 64 \<and>
     (\<forall>f\<in>usable_frames es. disjoint_regions (frame_addr f) 0x1000 (slabs s) 160) \<and>
     bitmap_frames es + 10 \<le> card (usable_frames es)"

lemma usable_frames_finite: "finite (usable_frames es)"
  by (simp add: usable_frames_def frames_of_def)

lemma usable_frames_bound: "boot_ok es s \<Longrightarrow> f \<in> usable_frames es \<Longrightarrow> f < 2 ^ 35"
  by (fastforce simp: boot_ok_def memmap_ok_def usable_frames_def frames_of_def)

lemma boot_table_ok:
  assumes "boot_ok es s" and "slabs s' = slabs s" and "pmm_bitmap s' = frame_addr f" and "pmm_inv s'"
    and "free_frames s' = usable_frames es - {f..<f + bitmap_frames es}"
    and "{f..<f + bitmap_frames es} \<subseteq> usable_frames es" and "bitmap_bytes s' \<le> bitmap_frames es * 0x1000"
  shows "table_ok s'"
proof -
  have tab: "disjoint_regions (frame_addr g) 0x1000 (slabs s) 160" if "g \<in> usable_frames es" for g
    using assms(1) that by (simp add: boot_ok_def)
  have "\<not> in_range (slabs s) 160 x" if x: "in_range (frame_addr f) (bitmap_bytes s') x" for x
  proof -
    have "in_range (frame_addr f) (bitmap_frames es * 0x1000) x" using in_range_le [OF x assms(7)] .
    moreover from this have "f + bitmap_frames es - 1 \<in> {f..<f + bitmap_frames es}" by (auto simp: in_range_def)
    then have "f + bitmap_frames es \<le> 2 ^ 35" using assms(6) usable_frames_bound [OF assms(1)] by fastforce
    ultimately obtain i where i: "i < bitmap_frames es" "in_range (frame_addr (f + i)) 0x1000 x"
      using in_run_frame by blast
    have "f + i \<in> usable_frames es" using assms(6) i(1) by auto
    then show ?thesis using tab i(2) unfolding disjoint_regions_def by blast
  qed
  moreover have "g \<in> usable_frames es" if "g < page_total s'" "\<not> page_used s' g" for g
    using assms(5) that by (auto simp: free_frames_def)
  ultimately show ?thesis using assms(1-3) tab unfolding table_ok_def boot_ok_def disjoint_regions_def by auto
qed

lemma memory_boot_spec:
  assumes "boot_ok es s"
  shows "\<exists>es' s' G F. pmm_init c es s = Inr (es', s') \<and> heap_inv s' G F Map.empty \<and>
    heap_live G F Map.empty = {} \<and> card (free_frames s') = card (usable_frames es) - bitmap_frames es - 10"
proof -
  obtain es1 s1 where r: "pmm_init_bitmap es s = (es1, s1)" by fastforce
  have "\<exists>f. pmm_bitmap s1 = frame_addr f \<and> pmm_wf s1 \<and> pmm_accounted s1 \<and>
      page_total s1 = unat (highest_address es 0) div 0x1000 \<and>
      free_frames s1 = usable_frames es - {f..<f + unat (boot_bitmap_size es) div 0x1000} \<and>
      {f..<f + unat (boot_bitmap_size es) div 0x1000} \<subseteq> usable_frames es \<and>
      bitmap_bytes s1 \<le> unat (boot_bitmap_size es)"
    using assms r by (intro pmm_init_bitmap_spec) (auto simp: boot_ok_def Let_def)
  then obtain f where f: "pmm_bitmap s1 = frame_addr f" "pmm_wf s1"
    "free_frames s1 = usable_frames es - {f..<f + bitmap_frames es}" "{f..<f + bitmap_frames es} \<subseteq> usable_frames es"
    "bitmap_bytes s1 \<le> unat (boot_bitmap_size es)"
    unfolding bitmap_frames_def by blast
  have "unat (highest_address es 0) \<le> 2 ^ 47"
    using assms highest_address_bounds(1) [of es 0] by (simp add: boot_ok_def memmap_ok_def)
  then have "unat (boot_bitmap_size es) = bitmap_frames es * 0x1000"
    using boot_bitmap_size_unat [OF _ refl] by (simp add: bitmap_frames_def)
  moreover have more: "slabs s1 = slabs s" "slab_lock s1 = slab_lock s"
    using slab_fields_more pmm_init_bitmap_more [OF r] by blast+
  ultimately have "table_ok s1" using boot_table_ok [OF assms more(1) f(1) _ f(3,4)] f(2,5) by (simp add: pmm_wf_def)
  moreover have card: "card (free_frames s1) = card (usable_frames es) - bitmap_frames es"
    unfolding f(3) using f(4) by (subst card_Diff_subset) (auto simp: finite_subset)
  moreover have "10 \<le> card (free_frames s1)" "lock_idle (slab_lock s1)" using assms more(2) card by (auto simp: boot_ok_def)
  ultimately obtain s' G F where i: "slaballoc_init c s1 = Inr s'" "slab_wf s' {..<SLAB_COUNT} G F"
    "\<forall>j. slab_live G F j = {}" "card (free_frames s') = card (free_frames s1) - 10"
    using slaballoc_init_spec [OF f(2), of c] by blast
  have "heap_inv s' G F Map.empty" "heap_live G F Map.empty = {}"
    using i(2,3) by (simp_all add: heap_inv_def heap_live_def)
  then show ?thesis using r i(1,4) card by (auto simp: pmm_init_def)
qed


section \<open>A concrete boot\<close>

text \<open>The slab table at the start of the kernel image, one mebibyte of usable memory.\<close>

definition demo_machine :: heap_state where
  "demo_machine = \<lparr>mem = (\<lambda>_. 0), pmm_page_count = 0, pmm_bitmap = 0, free_pages = 0, last_used_index = 0,
     pmm_lock = LOCK_INITIALIZER None, slabs = 0xFFFFFFFF80000000, slab_lock = LOCK_INITIALIZER None,
     have_malloc = True\<rparr>"

lemma demo_boot_ok: "boot_ok demo_memmap demo_machine"
proof -
  have "disjoint_regions (frame_addr f) 0x1000 0xFFFFFFFF80000000 160" if "f \<in> {1..<257}" for f
    using that by (intro disjoint_regionsI) (auto simp: unat_frame_addr)
  moreover have "\<exists>e\<in>set demo_memmap. usable e \<and> 0 < mm_length e \<and> boot_bitmap_size demo_memmap \<le> mm_length e"
    unfolding demo_memmap_facts by (simp add: demo_memmap_def usable_def)
  ultimately show ?thesis using demo_memmap_facts
    by (simp add: boot_ok_def bitmap_frames_def demo_machine_def)
qed

definition demo_heap :: heap_state where
  "demo_heap = snd (projr (pmm_init (debug_cpu 0) demo_memmap demo_machine))"

lemma demo_heap_inv:
  obtains G F where "heap_inv demo_heap G F Map.empty" and "heap_live G F Map.empty = {}"
    and "card (free_frames demo_heap) = 245"
proof -
  have "card (usable_frames demo_memmap) - bitmap_frames demo_memmap - 10 = 245"
    by (simp add: demo_memmap_facts bitmap_frames_def)
  then show thesis using memory_boot_spec [OF demo_boot_ok, of "debug_cpu 0"] that by (auto simp: demo_heap_def)
qed


lemma demo_heap_slab:
  obtains G F where "slab_wf demo_heap {..<SLAB_COUNT} G F" and "\<And>i. i < SLAB_COUNT \<Longrightarrow> slab_live G F i = {}"
    and "next_fit 1 demo_heap \<noteq> None"
proof -
  obtain G F where h: "heap_inv demo_heap G F Map.empty" "heap_live G F Map.empty = {}" "card (free_frames demo_heap) = 245"
    by (rule demo_heap_inv)
  have "unat (last_used_index demo_heap) \<le> page_total demo_heap" using heap_invD(3) [OF h(1)] by (simp add: pmm_inv_def)
  then have "next_fit 1 demo_heap \<noteq> None" using next_fit_one h(3) by fastforce
  moreover have "slab_live G F i = {}" if "i < SLAB_COUNT" for i using h(2) that by (auto simp: heap_live_def)
  ultimately show thesis using that heap_invD(1) [OF h(1)] by blast
qed

text \<open>The first block of the smallest slab, and the state after its allocation.\<close>

lemma demo_slab_block:
  obtains G F b s where "slab_alloc (debug_cpu 0) (slab_ptr demo_heap 3) demo_heap = Inr (b, s)"
    and "slab_wf s {..<SLAB_COUNT} G F" and "b \<in> slab_live G F 3" and "slab_ptr s 3 = slab_ptr demo_heap 3"
proof -
  obtain G F where h: "slab_wf demo_heap {..<SLAB_COUNT} G F" "next_fit 1 demo_heap \<noteq> None" by (rule demo_heap_slab)
  have "3 \<in> {..<SLAB_COUNT}" by (simp add: SLAB_COUNT_def)
  from slab_alloc_spec [OF h(1) this, of "debug_cpu 0"] h(2) obtain b s G' F'
    where r: "slab_alloc (debug_cpu 0) (slab_ptr demo_heap 3) demo_heap = Inr (b, s)"
      "slab_alloc_post demo_heap G F 3 b s G' F'" "slab_wf s {..<SLAB_COUNT} G' F'" by auto
  then have "b \<in> slab_live G' F' 3" "slab_ptr s 3 = slab_ptr demo_heap 3"
    using same_layoutD(5) by (auto simp: slab_alloc_post_def)
  then show thesis using that r by blast
qed

theorem slab_alloc_correct_witness:
  "\<exists>b s' G' F'. slab_alloc (debug_cpu 0) (slab_ptr demo_heap 3) demo_heap = Inr (b, s') \<and>
     slab_wf s' {..<SLAB_COUNT} G' F' \<and> b \<in> slab_live G' F' 3"
proof -
  obtain G F where h: "slab_wf demo_heap {..<SLAB_COUNT} G F" "next_fit 1 demo_heap \<noteq> None" by (rule demo_heap_slab)
  have "3 \<in> {..<SLAB_COUNT}" by (simp add: SLAB_COUNT_def)
  from slab_alloc_correct [OF h(1) this, of "debug_cpu 0"] show ?thesis using h(2) by (auto; metis insertI1)
qed

theorem slab_free_correct_witness:
  "\<exists>b s s' s''. slab_alloc (debug_cpu 0) (slab_ptr demo_heap 3) demo_heap = Inr (b, s) \<and>
     slab_free (debug_cpu 0) (slab_ptr demo_heap 3) b s = Inr s' \<and>
     slab_alloc (debug_cpu 0) (slab_ptr demo_heap 3) s' = Inr (b, s'')"
proof -
  obtain G F b s where r: "slab_alloc (debug_cpu 0) (slab_ptr demo_heap 3) demo_heap = Inr (b, s)"
    "slab_wf s {..<SLAB_COUNT} G F" "b \<in> slab_live G F 3" "slab_ptr s 3 = slab_ptr demo_heap 3"
    by (rule demo_slab_block)
  have "3 \<in> {..<SLAB_COUNT}" by (simp add: SLAB_COUNT_def)
  from slab_free_correct [OF r(2) this r(3), of "debug_cpu 0"] r(1,4) show ?thesis by auto
qed

text \<open>One allocation of 100 bytes from the booted heap.\<close>

lemma demo_malloc:
  obtains p s' G F m where "malloc (debug_cpu 0) 100 demo_heap = Inr (p, s')" and "heap_inv s' G F Map.empty"
    and "(p, m) \<in> heap_live G F Map.empty" and "100 \<le> m" and "p AND 0xFFF \<noteq> 0"
proof -
  obtain G F where h: "heap_inv demo_heap G F Map.empty" by (rule demo_heap_inv)
  have "next_fit 1 demo_heap \<noteq> None" using demo_heap_slab by metis
  then obtain p s' G' F' where r: "malloc (debug_cpu 0) 100 demo_heap = Inr (p, s')" "heap_inv s' G' F' Map.empty"
    "heap_extends demo_heap (heap_live G F Map.empty) 100 p s' (heap_live G' F' Map.empty)"
    using malloc_small [OF h, of 100 "debug_cpu 0"] by (auto split: sum.splits)
  then obtain m where m: "(p, m) \<in> heap_live G' F' Map.empty" "100 \<le> m" unfolding heap_extends_def by blast
  then have "p AND 0xFFF \<noteq> 0" using live_large [OF r(2) m(1)] by (metis option.distinct(1))
  then show thesis using that r(1,2) m by blast
qed


theorem free_correct_witness:
  "\<exists>p s s' G F B. malloc (debug_cpu 0) 100 demo_heap = Inr (p, s) \<and> free (debug_cpu 0) p s = Inr s' \<and> heap_inv s' G F B"
proof -
  obtain p s G F m where r: "malloc (debug_cpu 0) 100 demo_heap = Inr (p, s)" "heap_inv s G F Map.empty"
    "(p, m) \<in> heap_live G F Map.empty" by (rule demo_malloc)
  obtain s' F' B' where "free (debug_cpu 0) p s = Inr s'" "heap_inv s' G F' B'"
    using free_correct [OF r(2,3), of "debug_cpu 0"] by (elim conjE exE) simp
  then show ?thesis using r(1) by blast
qed

theorem realloc_correct_witness:
  "\<exists>p s p' s' G F B. malloc (debug_cpu 0) 100 demo_heap = Inr (p, s) \<and>
     realloc (debug_cpu 0) p 50 s = Inr (p', s') \<and> heap_inv s' G F B"
proof -
  obtain p s G F m where r: "malloc (debug_cpu 0) 100 demo_heap = Inr (p, s)" "heap_inv s G F Map.empty"
    "(p, m) \<in> heap_live G F Map.empty" "100 \<le> m" "p AND 0xFFF \<noteq> 0" by (rule demo_malloc)
  have "unat (50 :: u64) < 2 ^ 63" by simp
  note c = realloc_correct [OF r(2,3) this, of "debug_cpu 0"]
  have "realloc (debug_cpu 0) p 50 s = Inr (p, s)"
    using live_small [OF r(2,3,5)] r(4,5) by (simp add: realloc_def Let_def word_less_nat_alt unat_of_nat_u64)
  then show ?thesis using c r(1) by auto
qed

end
