(* ===== verification/Pagemap.thy ===== *)
theory Pagemap
  imports MemBoot
begin

text \<open>
  Page tables: \<^verbatim>\<open>kernel/src/mem/vmm.c\<close> and \<^verbatim>\<open>kernel/src/mem/pagemap.c\<close>.

  The four levels of tables lie in physical frames, read and written through the higher-half window as
  in the code.  \<open>pt_abs\<close> abstracts the tree under a top-level table to one entry per virtual page;
  the theory shows that \<^verbatim>\<open>map_page\<close>, \<^verbatim>\<open>unmap_page\<close> and \<^verbatim>\<open>flag_page\<close> are updates of that map at
  exactly one page, that \<^verbatim>\<open>virt2phys\<close> reads it, and that a new page map shares the kernel's half.
\<close>

section \<open>Definitions\<close>

abbreviation PTE_FLAG_PRESENT :: u64 where "PTE_FLAG_PRESENT \<equiv> 1"
abbreviation PTE_FLAG_WRITABLE :: u64 where "PTE_FLAG_WRITABLE \<equiv> 2"
abbreviation PTE_FLAG_USER :: u64 where "PTE_FLAG_USER \<equiv> 4"

record pagemap_t =
  pm_lock :: lock_t
  top_level :: addr
  mmap_ranges :: addr
  mmap_range_count :: u64

text \<open>The control register, the addresses given to \<^verbatim>\<open>invlpg\<close> (latest first) and the kernel's page map.\<close>

record vm_state = heap_state +
  cr3 :: u64
  invlpgs :: "u64 list"
  g_kernel_pagemap :: pagemap_t

definition get_next_level ::
  "cpu_ctx \<Rightarrow> addr \<Rightarrow> u64 \<Rightarrow> bool \<Rightarrow> ('z) vm_state_scheme \<Rightarrow> kstop + (addr \<times> ('z) vm_state_scheme)" where
  "get_next_level c current_level index allocate s =
     (let entry = current_level + HIGHER_HALF + index * 8
      in if ld64 s entry AND 1 \<noteq> 0 then Inr (ld64 s entry AND NOT 0xFFF, s)
         else if \<not> allocate then Inr (0, s)
         else bindR (pmm_alloc c 1 s) (\<lambda>(ret, s1).
           if ret = 0 then Inr (0, s1) else Inr (ret, st64 entry (ret OR 7) s1)))"

definition pml_entry :: "nat \<Rightarrow> u64 \<Rightarrow> u64" where
  "pml_entry k virt_addr = drop_bit k (virt_addr AND push_bit k 0x1FF)"

definition map_page ::
  "cpu_ctx \<Rightarrow> pagemap_t \<Rightarrow> u64 \<Rightarrow> u64 \<Rightarrow> u64 \<Rightarrow> ('z) vm_state_scheme \<Rightarrow> kstop + (bool \<times> ('z) vm_state_scheme)" where
  "map_page c pagemap virt_addr phys_addr flags s =
     bindR (get_next_level c (top_level pagemap) (pml_entry 39 virt_addr) True s) (\<lambda>(pml3, s1).
       if pml3 = 0 then Inr (False, s1)
       else bindR (get_next_level c pml3 (pml_entry 30 virt_addr) True s1) (\<lambda>(pml2, s2).
         if pml2 = 0 then Inr (False, s2)
         else bindR (get_next_level c pml2 (pml_entry 21 virt_addr) True s2) (\<lambda>(pml1, s3).
           if pml1 = 0 then Inr (False, s3)
           else Inr (True, st64 (pml1 + HIGHER_HALF + pml_entry 12 virt_addr * 8) (phys_addr OR flags) s3))))"

definition virt2pte ::
  "cpu_ctx \<Rightarrow> pagemap_t \<Rightarrow> u64 \<Rightarrow> bool \<Rightarrow> ('z) vm_state_scheme \<Rightarrow> kstop + (addr \<times> ('z) vm_state_scheme)" where
  "virt2pte c pagemap virt_addr allocate s =
     bindR (get_next_level c (top_level pagemap) (pml_entry 39 virt_addr) allocate s) (\<lambda>(pml3, s1).
       if pml3 = 0 then Inr (0, s1)
       else bindR (get_next_level c pml3 (pml_entry 30 virt_addr) allocate s1) (\<lambda>(pml2, s2).
         if pml2 = 0 then Inr (0, s2)
         else bindR (get_next_level c pml2 (pml_entry 21 virt_addr) allocate s2) (\<lambda>(pml1, s3).
           if pml1 = 0 then Inr (0, s3)
           else Inr (pml1 + pml_entry 12 virt_addr * 8 + HIGHER_HALF, s3))))"

text \<open>A read or write through a NULL pointer faults: \<^verbatim>\<open>vmm_init\<close> leaves page 0 unmapped for that purpose.\<close>

definition deref :: "addr \<Rightarrow> ('z) vm_state_scheme \<Rightarrow> kstop + u64" where
  "deref p s = (if p = 0 then Inl (PageFault 0) else Inr (ld64 s p))"

definition virt2phys ::
  "cpu_ctx \<Rightarrow> pagemap_t \<Rightarrow> u64 \<Rightarrow> ('z) vm_state_scheme \<Rightarrow> kstop + (u64 option \<times> ('z) vm_state_scheme)" where
  "virt2phys c pagemap virt_addr s =
     bindR (virt2pte c pagemap virt_addr False s) (\<lambda>(pte_p, s1).
       bindR (deref pte_p s1) (\<lambda>pte.
         if pte AND 1 = 0 then Inr (None, s1) else Inr (Some (pte AND NOT 0xFFF), s1)))"

definition invlpg :: "u64 \<Rightarrow> ('z) vm_state_scheme \<Rightarrow> ('z) vm_state_scheme" where
  "invlpg virt s = s\<lparr>invlpgs := virt # invlpgs s\<rparr>"

definition unmap_page ::
  "cpu_ctx \<Rightarrow> pagemap_t \<Rightarrow> u64 \<Rightarrow> ('z) vm_state_scheme \<Rightarrow> kstop + (bool \<times> ('z) vm_state_scheme)" where
  "unmap_page c pagemap virt s =
     bindR (virt2pte c pagemap virt False s) (\<lambda>(pte_p, s1).
       if pte_p = 0 then Inr (False, s1)
       else (let s2 = st64 pte_p 0 s1
             in Inr (True, if cr3 s2 = top_level pagemap then invlpg virt s2 else s2)))"

definition flag_page ::
  "cpu_ctx \<Rightarrow> pagemap_t \<Rightarrow> u64 \<Rightarrow> u64 \<Rightarrow> ('z) vm_state_scheme \<Rightarrow> kstop + (bool \<times> ('z) vm_state_scheme)" where
  "flag_page c pagemap virt flags s =
     bindR (virt2pte c pagemap virt False s) (\<lambda>(pte_p, s1).
       if pte_p = 0 then Inr (False, s1)
       else (let s2 = st64 pte_p (ld64 s1 pte_p AND NOT 0xFFF) s1;
                 s3 = st64 pte_p (ld64 s2 pte_p OR flags) s2
             in Inr (True, if cr3 s3 = top_level pagemap then invlpg virt s3 else s3)))"

definition switch_pagemap :: "pagemap_t \<Rightarrow> ('z) vm_state_scheme \<Rightarrow> ('z) vm_state_scheme" where
  "switch_pagemap pagemap s = s\<lparr>cr3 := top_level pagemap\<rparr>"

primrec zero_lower :: "addr \<Rightarrow> nat \<Rightarrow> ('z) vm_state_scheme \<Rightarrow> ('z) vm_state_scheme" where
  "zero_lower p1 0 s = s"
| "zero_lower p1 (Suc n) s = (let s1 = zero_lower p1 n s in st64 (p1 + of_nat n * 8) 0 s1)"

primrec copy_higher :: "addr \<Rightarrow> addr \<Rightarrow> nat \<Rightarrow> ('z) vm_state_scheme \<Rightarrow> ('z) vm_state_scheme" where
  "copy_higher p1 p2 0 s = s"
| "copy_higher p1 p2 (Suc n) s =
     (let s1 = copy_higher p1 p2 n s; i = of_nat (256 + n) * 8 in st64 (p1 + i) (ld64 s1 (p2 + i)) s1)"

definition new_pagemap :: "cpu_ctx \<Rightarrow> ('z) vm_state_scheme \<Rightarrow> kstop + (pagemap_t \<times> ('z) vm_state_scheme)" where
  "new_pagemap c s =
     bindR (pmm_alloc c 1 s) (\<lambda>(top, s1).
       if top = 0 then Inl (Panic ''new_pagemap() allocation failure'')
       else
         (let p1 = top + HIGHER_HALF;
              p2 = top_level (g_kernel_pagemap s1) + HIGHER_HALF;
              s2 = zero_lower p1 256 s1;
              s3 = copy_higher p1 p2 256 s2
          in Inr (\<lparr>pm_lock = LOCK_INITIALIZER (Some ''pagemap->lock''), top_level = top, mmap_ranges = 0,
                   mmap_range_count = 0\<rparr>, s3)))"

text \<open>
  The scan for free pages.  Its inner loop looks at page \<open>i\<close> each time, and its outer loop would wrap
  around at the end of the address space, hence the partial function.
\<close>

primrec probe_pages ::
  "cpu_ctx \<Rightarrow> pagemap_t \<Rightarrow> u64 \<Rightarrow> nat \<Rightarrow> ('z) vm_state_scheme \<Rightarrow> kstop + (bool \<times> ('z) vm_state_scheme)" where
  "probe_pages c pagemap i 0 s = Inr (True, s)"
| "probe_pages c pagemap i (Suc n) s =
     bindR (virt2pte c pagemap i False s) (\<lambda>(pte_p, s1).
       bindR (deref pte_p s1) (\<lambda>pte.
         let s2 = st64 pte_p (pte AND NOT 0xFFF) s1
         in if ld64 s2 pte_p AND PTE_FLAG_PRESENT \<noteq> 0 then Inr (False, s2) else probe_pages c pagemap i n s2))"

partial_function (option) find_pages_from ::
  "cpu_ctx \<Rightarrow> pagemap_t \<Rightarrow> u64 \<Rightarrow> u64 \<Rightarrow> ('z) vm_state_scheme \<Rightarrow> (kstop + (u64 \<times> ('z) vm_state_scheme)) option" where
  "find_pages_from c pagemap count i s =
     (if i < 0xFFFFFFFFFFFFFFFF
      then (case probe_pages c pagemap i (unat count) s of
              Inl e \<Rightarrow> Some (Inl e)
            | Inr (found, s1) \<Rightarrow> if found then Some (Inr (i, s1)) else find_pages_from c pagemap count (i + PAGE_SIZE) s1)
      else Some (Inr (0, s)))"

definition find_contiguous_pages ::
  "cpu_ctx \<Rightarrow> pagemap_t \<Rightarrow> u64 \<Rightarrow> ('z) vm_state_scheme \<Rightarrow> (kstop + (u64 \<times> ('z) vm_state_scheme)) option" where
  "find_contiguous_pages c pagemap count s = find_pages_from c pagemap count 0 s"

primrec map_pages_up ::
  "cpu_ctx \<Rightarrow> pagemap_t \<Rightarrow> u64 \<Rightarrow> u64 \<Rightarrow> u64 \<Rightarrow> nat \<Rightarrow> ('z) vm_state_scheme \<Rightarrow> kstop + (bool \<times> ('z) vm_state_scheme)" where
  "map_pages_up c pagemap virt_addr phys_addr flags 0 s = Inr (True, s)"
| "map_pages_up c pagemap virt_addr phys_addr flags (Suc n) s =
     bindR (map_page c pagemap virt_addr phys_addr flags s) (\<lambda>(ok, s1).
       if \<not> ok then Inl (Panic ''Kernel bug: implement rewind of partially mapped regions'')
       else map_pages_up c pagemap (virt_addr + 1) (phys_addr + 1) flags n s1)"

definition map_contiguous_pages ::
  "cpu_ctx \<Rightarrow> pagemap_t \<Rightarrow> u64 \<Rightarrow> u64 \<Rightarrow> u64 \<Rightarrow> u64 \<Rightarrow> ('z) vm_state_scheme \<Rightarrow> kstop + (bool \<times> ('z) vm_state_scheme)" where
  "map_contiguous_pages c pagemap virt_addr phys_addr flags count s =
     map_pages_up c pagemap virt_addr phys_addr flags (unat count) s"

section \<open>Boot mappings\<close>

abbreviation FOUR_GIGS :: u64 where "FOUR_GIGS \<equiv> 0x100000000"

definition map_or_panic ::
  "cpu_ctx \<Rightarrow> string \<Rightarrow> u64 \<Rightarrow> u64 \<Rightarrow> ('z) vm_state_scheme \<Rightarrow> kstop + ('z) vm_state_scheme" where
  "map_or_panic c msg virt phys s =
     bindR (map_page c (g_kernel_pagemap s) virt phys 3 s) (\<lambda>(ok, s1). if \<not> ok then Inl (Panic msg) else Inr s1)"

abbreviation (input) vmm_panic :: string where "vmm_panic \<equiv> ''vmm init failed: unable to map kernel page''"

primrec init_levels :: "cpu_ctx \<Rightarrow> nat \<Rightarrow> ('z) vm_state_scheme \<Rightarrow> kstop + ('z) vm_state_scheme" where
  "init_levels c 0 s = Inr s"
| "init_levels c (Suc n) s =
     bindR (get_next_level c (top_level (g_kernel_pagemap s)) (512 - of_nat (Suc n)) True s) (\<lambda>(p, s1).
       if p = 0 then Inl (Panic ''vmm init failure'') else init_levels c n s1)"

function map_kernel :: "cpu_ctx \<Rightarrow> u64 \<Rightarrow> u64 \<Rightarrow> nat \<Rightarrow> nat \<Rightarrow> ('z) vm_state_scheme \<Rightarrow> kstop + ('z) vm_state_scheme" where
  "map_kernel c virt phys len i s =
     (if i < len
      then bindR (map_or_panic c vmm_panic (virt + of_nat i) (phys + of_nat i) s) (map_kernel c virt phys len (i + 0x1000))
      else Inr s)"
  by pat_completeness auto
termination by (relation "measure (\<lambda>(c, virt, phys, len, i, s). len - i)") auto

text \<open>The body the last two loops share: page \<open>j\<close> at its own address and in the higher half.\<close>

definition map_both :: "cpu_ctx \<Rightarrow> u64 \<Rightarrow> ('z) vm_state_scheme \<Rightarrow> kstop + ('z) vm_state_scheme" where
  "map_both c j s = bindR (map_or_panic c vmm_panic j j s) (map_or_panic c vmm_panic (j + HIGHER_HALF) j)"

function map_low :: "cpu_ctx \<Rightarrow> nat \<Rightarrow> ('z) vm_state_scheme \<Rightarrow> kstop + ('z) vm_state_scheme" where
  "map_low c i s = (if i < 0x100000000 then bindR (map_both c (of_nat i) s) (map_low c (i + 0x1000)) else Inr s)"
  by pat_completeness auto
termination by (relation "measure (\<lambda>(c, i, s). 0x100000000 - i)") auto

function map_entry :: "cpu_ctx \<Rightarrow> nat \<Rightarrow> nat \<Rightarrow> ('z) vm_state_scheme \<Rightarrow> kstop + ('z) vm_state_scheme" where
  "map_entry c hi j s =
     (if j < hi
      then bindR (if j < 0x100000000 then Inr s else map_both c (of_nat j) s) (map_entry c hi (j + 0x1000))
      else Inr s)"
  by pat_completeness auto
termination by (relation "measure (\<lambda>(c, hi, j, s). hi - j)") auto

declare map_kernel.simps [simp del] map_low.simps [simp del] map_entry.simps [simp del]

primrec map_entries :: "cpu_ctx \<Rightarrow> memmap_entry list \<Rightarrow> ('z) vm_state_scheme \<Rightarrow> kstop + ('z) vm_state_scheme" where
  "map_entries c [] s = Inr s"
| "map_entries c (e # es) s =
     (let base = align_down (mm_base e) PAGE_SIZE; hi = align_up (mm_base e + mm_length e) PAGE_SIZE
      in bindR (if hi \<le> FOUR_GIGS then Inr s else map_entry c (unat hi) (unat base) s) (map_entries c es))"

text \<open>The address the linker script gives \<^verbatim>\<open>KERNEL_END_SYMBOL\<close> is the argument \<open>kernel_end\<close>.\<close>

definition vmm_init ::
  "cpu_ctx \<Rightarrow> u64 \<Rightarrow> u64 \<Rightarrow> u64 \<Rightarrow> memmap_entry list \<Rightarrow> ('z) vm_state_scheme \<Rightarrow> kstop + ('z) vm_state_scheme" where
  "vmm_init c kernel_end kernel_base_physical kernel_base_virtual memmap s =
     bindR (pmm_alloc c 1 s) (\<lambda>(top, s1).
       let s2 = s1\<lparr>g_kernel_pagemap := \<lparr>pm_lock = LOCK_INITIALIZER None, top_level = top, mmap_ranges = 0,
             mmap_range_count = 0\<rparr>\<rparr>
       in if top = 0 then Inl (Panic ''vmm_init: allocation failed'')
          else bindR (init_levels c 256 s2) (\<lambda>s3.
            let len = align_up kernel_end PAGE_SIZE - kernel_base_virtual
            in bindR (map_kernel c kernel_base_virtual kernel_base_physical (unat len) 0 s3) (\<lambda>s4.
              bindR (map_or_panic c ''vmm init failed: unable to map page 0'' HIGHER_HALF 0 s4) (\<lambda>s5.
                bindR (map_low c 0x1000 s5) (\<lambda>s6.
                  bindR (map_entries c memmap s6) (\<lambda>s7. Inr (switch_pagemap (g_kernel_pagemap s7) s7)))))))"

section \<open>Table entries\<close>

definition pt_entry :: "('z) pmm_state_scheme \<Rightarrow> nat \<Rightarrow> nat \<Rightarrow> u64" where
  "pt_entry s f i = load64 (mem s) (in_frame f (8 * i))"

lemma pml_entry_bits: "k \<le> 55 \<Longrightarrow> pml_entry k v = take_bit 9 (drop_bit k v)"
proof -
  assume k: "k \<le> 55"
  have m: "(0x1FF :: u64) = mask 9" by (simp add: mask_eq_exp_minus_1)
  show ?thesis unfolding pml_entry_def m by (rule bit_eqI) (use k in \<open>auto simp: bit_simps\<close>)
qed

lemma pml_entry_bound: "k \<le> 55 \<Longrightarrow> unat (pml_entry k v) < 512"
  by (simp add: pml_entry_bits unsigned_take_bit_eq take_bit_nat_def)

lemma entry_addr:
  assumes "unat i < 512"
  shows "of_nat f * PAGE_SIZE + HIGHER_HALF + i * 8 = in_frame f (8 * unat i)"
    and "of_nat f * PAGE_SIZE + i * 8 + HIGHER_HALF = in_frame f (8 * unat i)"
  by (simp_all add: in_frame_def frame_addr_def algebra_simps)

lemma pt_entry_store:
  assumes "f < 2 ^ 35" and "g < 2 ^ 35" and "i < 512" and "j < 512"
  shows "pt_entry (st64 (in_frame f (8 * i)) v s) g j = (if g = f \<and> j = i then v else pt_entry s g j)"
proof (cases "g = f \<and> j = i")
  case True
  then show ?thesis by (simp add: pt_entry_def)
next
  case False
  then have "disjoint_regions (in_frame f (8 * i)) 8 (in_frame g (8 * j)) 8"
    using assms by (intro in_frame_disjoint) auto
  then show ?thesis using False by (auto simp: pt_entry_def load64_store64_disjoint)
qed

section \<open>The tree of tables\<close>

text \<open>
  \<open>T\<close> gives the frame of the table reached by a path of indices.  Tables at distinct paths are distinct
  frames, an entry is present exactly when there is a table below it, and it holds that table's address.
\<close>

type_synonym pt_tree = "nat list \<rightharpoonup> nat"

definition table_frame :: "('z) pmm_state_scheme \<Rightarrow> nat \<Rightarrow> bool" where
  "table_frame s f \<longleftrightarrow> 0 < f \<and> f < page_total s \<and> page_used s f \<and>
     disjoint_regions (frame_addr f) 0x1000 (pmm_bitmap s) (bitmap_bytes s)"

definition links :: "('z) pmm_state_scheme \<Rightarrow> pt_tree \<Rightarrow> bool" where
  "links s T \<longleftrightarrow> (\<forall>p f i. T p = Some f \<longrightarrow> length p < 3 \<longrightarrow> i < 512 \<longrightarrow>
     (case T (p @ [i]) of
        None \<Rightarrow> pt_entry s f i AND 1 = 0
      | Some g \<Rightarrow> pt_entry s f i AND 1 \<noteq> 0 \<and> pt_entry s f i AND NOT 0xFFF = of_nat g * PAGE_SIZE))"

definition tree_ok :: "pt_tree \<Rightarrow> bool" where
  "tree_ok T \<longleftrightarrow> (\<forall>p q f. T p = Some f \<longrightarrow> T q = Some f \<longrightarrow> p = q) \<and>
     (\<forall>p i. T (p @ [i]) \<noteq> None \<longrightarrow> T p \<noteq> None \<and> i < 512 \<and> length p < 3)"

definition pt_inv :: "('z) pmm_state_scheme \<Rightarrow> pt_tree \<Rightarrow> bool" where
  "pt_inv s T \<longleftrightarrow> pmm_wf s \<and> tree_ok T \<and> (\<forall>p f. T p = Some f \<longrightarrow> table_frame s f) \<and> links s T"

definition pt_abs :: "('z) pmm_state_scheme \<Rightarrow> pt_tree \<Rightarrow> nat \<times> nat \<times> nat \<times> nat \<Rightarrow> u64" where
  "pt_abs s T = (\<lambda>(i4, i3, i2, i1). case T [i4, i3, i2] of None \<Rightarrow> 0 | Some f \<Rightarrow> if i1 < 512 then pt_entry s f i1 else 0)"

definition vpage :: "u64 \<Rightarrow> nat \<times> nat \<times> nat \<times> nat" where
  "vpage v = (unat (pml_entry 39 v), unat (pml_entry 30 v), unat (pml_entry 21 v), unat (pml_entry 12 v))"

text \<open>Two addresses have the same entry exactly when they agree in bits 12 to 47.\<close>

lemma vpage_eq_iff: "vpage v = vpage w \<longleftrightarrow> take_bit 36 (drop_bit 12 v) = take_bit 36 (drop_bit 12 w)"
proof
  assume eq: "vpage v = vpage w"
  have lv: "take_bit 9 (drop_bit k v) = take_bit 9 (drop_bit k w)" if "k \<in> {12, 21, 30, 39}" for k
    using eq that by (auto simp: vpage_def unat_inject pml_entry_bits)
  have "bit v (12 + n) = bit w (12 + n)" if n: "n < 36" for n
  proof -
    have "\<exists>k m. k \<in> {12, 21, 30, 39} \<and> m < 9 \<and> 12 + n = k + m"
    proof (intro exI conjI)
      have "n div 9 = 0 \<or> n div 9 = 1 \<or> n div 9 = 2 \<or> n div 9 = 3" using n by presburger
      then show "12 + 9 * (n div 9) \<in> {12, 21, 30, 39}" by auto
      show "12 + n = 12 + 9 * (n div 9) + n mod 9" by simp
    qed simp
    then obtain k m where km: "k \<in> {12, 21, 30, 39}" "m < 9" "12 + n = k + m" by blast
    then have "bit (take_bit 9 (drop_bit k v)) m = bit (take_bit 9 (drop_bit k w)) m" using lv by simp
    then show ?thesis using km by (simp add: bit_take_bit_iff bit_drop_bit_eq)
  qed
  then show "take_bit 36 (drop_bit 12 v) = take_bit 36 (drop_bit 12 w)"
    by (intro bit_eqI) (auto simp: bit_simps)
next
  assume eq: "take_bit 36 (drop_bit 12 v) = take_bit 36 (drop_bit 12 w)"
  have b: "bit v m = bit w m" if "12 \<le> m" "m < 48" for m
  proof -
    have "m - 12 < 36" using that by linarith
    then show ?thesis using arg_cong [OF eq, of "\<lambda>x. bit x (m - 12)"] that(1) by (simp add: bit_simps)
  qed
  have "take_bit 9 (drop_bit k v) = take_bit 9 (drop_bit k w)" if "12 \<le> k" "k \<le> 39" for k
    using b that by (intro bit_eqI) (auto simp: bit_simps)
  then show "vpage v = vpage w" by (simp add: vpage_def pml_entry_bits)
qed

lemma pt_invD:
  assumes "pt_inv s T" and "T p = Some f"
  shows "table_frame s f" and "f < 2 ^ 35" and "bitmap_ok s" and "pmm_wf s"
    and "length p < 3 \<Longrightarrow> i < 512 \<Longrightarrow> T (p @ [i]) = None \<Longrightarrow> pt_entry s f i AND 1 = 0"
    and "length p < 3 \<Longrightarrow> i < 512 \<Longrightarrow> T (p @ [i]) = Some g \<Longrightarrow>
      pt_entry s f i AND 1 \<noteq> 0 \<and> pt_entry s f i AND NOT 0xFFF = of_nat g * PAGE_SIZE"
    and "T q = Some f \<Longrightarrow> q = p"
proof -
  show f: "table_frame s f" using assms by (simp add: pt_inv_def)
  show "bitmap_ok s" "pmm_wf s" using assms(1) by (simp_all add: pt_inv_def pmm_wf_def pmm_inv_def)
  then show "f < 2 ^ 35" using f by (simp add: table_frame_def bitmap_ok_def)
  show "T q = Some f \<Longrightarrow> q = p" using assms unfolding pt_inv_def tree_ok_def by blast
  have l: "case T (p @ [i]) of None \<Rightarrow> pt_entry s f i AND 1 = 0
      | Some g \<Rightarrow> pt_entry s f i AND 1 \<noteq> 0 \<and> pt_entry s f i AND NOT 0xFFF = of_nat g * PAGE_SIZE"
    if "length p < 3" "i < 512" for i
    using assms that unfolding pt_inv_def links_def by blast
  show "pt_entry s f i AND 1 = 0" if "length p < 3" "i < 512" "T (p @ [i]) = None" using l [OF that(1,2)] that(3) by simp
  show "pt_entry s f i AND 1 \<noteq> 0 \<and> pt_entry s f i AND NOT 0xFFF = of_nat g * PAGE_SIZE"
    if "length p < 3" "i < 512" "T (p @ [i]) = Some g" using l [OF that(1,2)] that(3) by simp
qed

text \<open>Writing one table entry: the allocator's state and all other entries stay.\<close>

lemma entry_store:
  assumes "pmm_wf s" and "table_frame s f" and "i < 512" and "s' = st64 (in_frame f (8 * i)) v s"
  shows "pmm_wf s'" and "table_frame s' g = table_frame s g"
    and "g < 2 ^ 35 \<Longrightarrow> j < 512 \<Longrightarrow> pt_entry s' g j = (if g = f \<and> j = i then v else pt_entry s g j)"
    and "pmm_state.more s' = pmm_state.more s" and "free_frames s' = free_frames s"
proof -
  have ok: "bitmap_ok s" and inv: "pmm_inv s" using assms(1) by (simp_all add: pmm_wf_def pmm_inv_def)
  have f35: "f < 2 ^ 35" using assms(2) ok by (simp add: table_frame_def bitmap_ok_def)
  have out: "mem s' x = mem s x" if "\<not> in_range (frame_addr f) 0x1000 x" for x
    using in_frame_range [OF f35, of "8 * i" 8 x] that assms(3) unfolding assms(4) st64_simps by (intro store64_outside) auto
  have same: "page_total s' = page_total s" "pmm_bitmap s' = pmm_bitmap s" "bitmap_bytes s' = bitmap_bytes s" "bitmap_ok s' = bitmap_ok s"
    "last_used_index s' = last_used_index s" "pmm_lock s' = pmm_lock s"
    by (simp_all add: assms(4) st64_def page_total_def bitmap_bytes_def bitmap_ok_def)
  have used: "page_used s' j = page_used s j" if "j < page_total s" for j
    using assms(2) by (intro page_used_cong [OF ok that same(2)] out) (auto simp: table_frame_def disjoint_regions_def)
  show "pmm_wf s'" using assms(1) inv used by (simp add: pmm_wf_def pmm_inv_def same)
  show "table_frame s' g = table_frame s g" using used by (auto simp: table_frame_def same)
  show "pt_entry s' g j = (if g = f \<and> j = i then v else pt_entry s g j)" if "g < 2 ^ 35" "j < 512"
    unfolding assms(4) by (rule pt_entry_store [OF f35 that(1) assms(3) that(2)])
  show "pmm_state.more s' = pmm_state.more s" by (simp add: assms(4) st64_def)
  show "free_frames s' = free_frames s" using used by (auto simp: free_frames_def same)
qed

lemma get_next_level_present:
  assumes "pt_inv s T" and "T p = Some f" and "length p < 3" and "unat i < 512" and "T (p @ [unat i]) = Some g"
  shows "get_next_level c (of_nat f * PAGE_SIZE) i alloc s = Inr (of_nat g * PAGE_SIZE, s)"
  using pt_invD(6) [OF assms(1-4,5)] by (simp add: get_next_level_def Let_def entry_addr [OF assms(4)] pt_entry_def ld64_def)

lemma get_next_level_absent:
  assumes "pt_inv s T" and "T p = Some f" and "length p < 3" and "unat i < 512" and "T (p @ [unat i]) = None"
  shows "get_next_level c (of_nat f * PAGE_SIZE) i False s = Inr (0, s)"
  using pt_invD(5) [OF assms(1-4,5)] by (simp add: get_next_level_def Let_def entry_addr [OF assms(4)] pt_entry_def ld64_def)

lemma page_entry_bits:
  "(of_nat a * PAGE_SIZE OR 7) AND 1 \<noteq> (0 :: u64)" "(of_nat a * PAGE_SIZE OR 7) AND NOT 0xFFF = (of_nat a * PAGE_SIZE :: u64)"
proof -
  have p: "of_nat a * PAGE_SIZE = push_bit 12 (of_nat a :: u64)" by (simp add: push_bit_eq_mult)
  have m: "(7 :: u64) = mask 3" "(0xFFF :: u64) = mask 12" "(1 :: u64) = mask 1" by (simp_all add: mask_eq_exp_minus_1)
  show "(of_nat a * PAGE_SIZE OR 7) AND NOT 0xFFF = (of_nat a * PAGE_SIZE :: u64)"
    unfolding p m by (rule bit_eqI) (auto simp: bit_simps)
  have "bit ((push_bit 12 (of_nat a) OR mask 3) AND mask 1 :: u64) 0" by (simp add: bit_simps)
  then show "(of_nat a * PAGE_SIZE OR 7) AND 1 \<noteq> (0 :: u64)" unfolding p m by auto
qed

text \<open>A fresh frame from the allocator leaves the tree as it is and holds an empty table.\<close>

lemma alloc_keeps_tree:
  assumes "pt_inv s T" and "pmm_alloc_post s a 1 s1" and "pmm_wf s1"
  shows "pt_inv s1 T" and "pt_abs s1 T = pt_abs s T" and "a \<notin> ran T" and "table_frame s1 a"
    and "j < 512 \<Longrightarrow> pt_entry s1 a j = 0" and "T p = Some f \<Longrightarrow> j < 512 \<Longrightarrow> pt_entry s1 f j = pt_entry s f j"
proof -
  have wf: "pmm_wf s" "pmm_inv s" "bitmap_ok s" using assms(1) by (simp_all add: pt_inv_def pmm_wf_def pmm_inv_def)
  have a: "0 < a" "a < page_total s" "\<not> page_used s a" and tot: "page_total s1 = page_total s" "pmm_bitmap s1 = pmm_bitmap s"
    "bitmap_bytes s1 = bitmap_bytes s"
    using assms(2) by (auto simp: pmm_alloc_post_def run_free_def bitmap_bytes_def)
  have a35: "a < 2 ^ 35" using a(2) wf(3) by (simp add: bitmap_ok_def)
  show "table_frame s1 a" using pmm_alloc_post_freeable [OF assms(2) wf(2)] by (simp add: freeable_def table_frame_def)
  have tf: "table_frame s1 f" and ne: "f \<noteq> a" if "T p = Some f" for p f
    using pt_invD(1) [OF assms(1) that] assms(2) a(3) tot by (auto simp: table_frame_def pmm_alloc_post_def)
  show "a \<notin> ran T" using ne by (auto simp: ran_def)
  show z: "pt_entry s1 a j = 0" if "j < 512" for j
  proof -
    have "mem s1 (in_frame a (8 * j) + of_nat k) = 0" if "k < 8" for k
    proof -
      have "in_range (in_frame a (8 * j)) 8 (in_frame a (8 * j) + of_nat k)" using that by (intro in_range_offset) simp_all
      then have "in_range (frame_addr a) 0x1000 (in_frame a (8 * j) + of_nat k)"
        using in_frame_range [OF a35, of "8 * j" 8] \<open>j < 512\<close> by auto
      then show ?thesis using assms(2) by (simp add: pmm_alloc_post_def)
    qed
    then have "pt_entry s1 a j = load64 (\<lambda>_. 0) (in_frame a (8 * j))" unfolding pt_entry_def by (intro load64_cong) simp
    then show ?thesis by (simp add: load64_def load_bytes_def le_word_replicate_zero map_replicate_const)
  qed
  show e: "pt_entry s1 f j = pt_entry s f j" if f: "T p = Some f" and j: "j < 512" for p f j
    unfolding pt_entry_def
  proof (rule load64_cong)
    fix k :: nat assume "k < 8"
    let ?x = "in_frame f (8 * j) + of_nat k"
    note inv = pt_invD [OF assms(1) f]
    have "in_range (in_frame f (8 * j)) 8 ?x" using \<open>k < 8\<close> by (intro in_range_offset) simp_all
    then have x: "in_range (frame_addr f) 0x1000 ?x" using in_frame_range [OF inv(2), of "8 * j" 8] j by auto
    have "\<not> in_range (frame_addr a) (1 * 0x1000) ?x" using frame_unique [OF inv(2) a35 x] ne [OF f] by auto
    moreover have "\<not> in_range (pmm_bitmap s) (bitmap_bytes s) ?x"
      using inv(1) x unfolding table_frame_def disjoint_regions_def by blast
    ultimately show "mem s1 ?x = mem s ?x" using assms(2) by (simp add: pmm_alloc_post_def)
  qed
  have "links s1 T" using assms(1) e unfolding pt_inv_def links_def by (simp cong: option.case_cong)
  then show "pt_inv s1 T" using assms(1,3) tf by (simp add: pt_inv_def)
  show "pt_abs s1 T = pt_abs s T" using e by (auto simp: pt_abs_def fun_eq_iff split: option.split)
qed

lemma snoc_eq_iff: "p @ [i] = q @ [j] \<longleftrightarrow> p = q \<and> i = j"
  by auto

text \<open>Hanging a fresh empty table below entry \<open>i\<close> of the table at \<open>p\<close>.\<close>

lemma add_table:
  assumes inv1: "pt_inv s T" and p: "T p = Some f" "length p < 3" "i < 512" "T (p @ [i]) = None"
    and a: "table_frame s a" "a \<notin> ran T" "\<And>j. j < 512 \<Longrightarrow> pt_entry s a j = 0"
    and s': "s' = st64 (in_frame f (8 * i)) (of_nat a * PAGE_SIZE OR 7) s" and T': "T' = T(p @ [i] \<mapsto> a)"
  shows "pt_inv s' T'" and "pt_abs s' T' = pt_abs s T" and "free_frames s' = free_frames s"
proof -
  note st = entry_store [OF pt_invD(4,1) [OF inv1 p(1)] p(3) s']
  have a35: "a < 2 ^ 35" using a(1) pt_invD(3) [OF inv1 p(1)] by (simp add: table_frame_def bitmap_ok_def)
  have f35: "f < 2 ^ 35" by (rule pt_invD(2) [OF inv1 p(1)])
  have fa: "f \<noteq> a" using a(2) p(1) by (auto simp: ran_def)
  have ok: "tree_ok T" using inv1 by (simp add: pt_inv_def)
  have below: "T (p @ [i] @ [j]) = None" for j
    using ok p(4) unfolding tree_ok_def by (metis append.assoc)
  have empty: "pt_entry s' a j = 0" if "j < 512" for j using st(3) [OF a35 that] a(3) [OF that] fa by simp
  have old: "pt_entry s' h j = pt_entry s h j" if "T q = Some h" "j < 512" "q \<noteq> p \<or> j \<noteq> i" for q h j
    using st(3) [OF pt_invD(2) [OF inv1 that(1)] that(2)] pt_invD(7) [OF inv1 p(1)] that by auto
  have "tree_ok T'" unfolding T' tree_ok_def
  proof (intro conjI allI impI)
    fix q r g assume "(T(p @ [i] \<mapsto> a)) q = Some g" "(T(p @ [i] \<mapsto> a)) r = Some g"
    then show "q = r" using ok a(2) unfolding tree_ok_def by (auto simp: ran_def split: if_splits)
  next
    fix q j assume "(T(p @ [i] \<mapsto> a)) (q @ [j]) \<noteq> None"
    then show "(T(p @ [i] \<mapsto> a)) q \<noteq> None" "j < 512" "length q < 3"
      using ok p(1-3) unfolding tree_ok_def by (auto split: if_splits simp: snoc_eq_iff)
  qed
  moreover have "links s' T'" unfolding links_def
  proof (intro allI impI)
    fix q :: "nat list" and h j :: nat assume q: "T' q = Some h" "length q < 3" "j < 512"
    consider (new) "q = p @ [i]" "h = a" | (here) "q = p" "j = i" "h = f" | (other) "T q = Some h" "q @ [j] \<noteq> p @ [i]" "q \<noteq> p @ [i]"
    proof (cases "q = p @ [i]")
      case True
      then show thesis using that(1) q(1) by (simp add: T')
    next
      case False
      then have "T q = Some h" using q(1) by (simp add: T')
      then show thesis using that(2,3) False p(1) by (cases "q = p \<and> j = i") (auto simp: snoc_eq_iff)
    qed
    then show "case T' (q @ [j]) of None \<Rightarrow> pt_entry s' h j AND 1 = 0
      | Some g \<Rightarrow> pt_entry s' h j AND 1 \<noteq> 0 \<and> pt_entry s' h j AND NOT 0xFFF = of_nat g * PAGE_SIZE"
    proof cases
      case new
      then show ?thesis using empty [OF q(3)] below [of j] by (simp add: T')
    next
      case here
      then show ?thesis using st(3) [OF f35 p(3)] page_entry_bits [of a] by (simp add: T')
    next
      case other
      then have e1: "pt_entry s' h j = pt_entry s h j" using old q(3) by (auto simp: snoc_eq_iff)
      have e2: "T' (q @ [j]) = T (q @ [j])" using other(2) unfolding T' by (rule fun_upd_other)
      have "links s T" using inv1 by (simp add: pt_inv_def)
      then show ?thesis unfolding e1 e2 using other(1) q(2,3) unfolding links_def by blast
    qed
  qed
  moreover have "table_frame s' g" if "T' q = Some g" for q g
    using that st(2) a(1) pt_invD(1) [OF inv1] by (auto simp: T' split: if_splits)
  ultimately show "pt_inv s' T'" using st(1) by (simp add: pt_inv_def)
  show "free_frames s' = free_frames s" by (rule st(5))
  show "pt_abs s' T' = pt_abs s T"
  proof (rule ext, clarify)
    fix i4 i3 i2 i1 :: nat
    let ?q = "[i4, i3, i2]"
    show "pt_abs s' T' (i4, i3, i2, i1) = pt_abs s T (i4, i3, i2, i1)"
    proof (cases "?q = p @ [i]")
      case True
      have "T ?q = None" "T' ?q = Some a" unfolding True using p(4) by (simp_all add: T')
      then show ?thesis using empty [of i1] by (simp add: pt_abs_def)
    next
      case False
      then have "T' ?q = T ?q" "?q \<noteq> p" using p(2) by (auto simp: T')
      then show ?thesis using old [of ?q _ i1] by (auto simp: pt_abs_def split: option.split)
    qed
  qed
qed

lemma get_next_level_alloc:
  assumes inv0: "pt_inv s T" and p: "T p = Some f" "length p < 3" "unat i < 512"
  shows "case get_next_level c (of_nat f * PAGE_SIZE) i True s of
      Inl e \<Rightarrow> e = Panic ''Kernel OOM'' \<and> free_frames s = {}
    | Inr (r, s') \<Rightarrow> \<exists>g T'. r = of_nat g * PAGE_SIZE \<and> r \<noteq> 0 \<and> T \<subseteq>\<^sub>m T' \<and> T' (p @ [unat i]) = Some g \<and>
        pt_inv s' T' \<and> pt_abs s' T' = pt_abs s T \<and> pmm_state.more s' = pmm_state.more s \<and>
        card (free_frames s) \<le> Suc (card (free_frames s'))"
proof (cases "T (p @ [unat i])")
  case (Some g)
  have g: "table_frame s g" "g < 2 ^ 35" using pt_invD(1,2) [OF inv0 Some] by simp_all
  then have "of_nat g * PAGE_SIZE \<noteq> (0 :: u64)" using frame_number [of g] by (auto simp: table_frame_def)
  then show ?thesis using get_next_level_present [OF inv0 p Some, of c] inv0 Some
    by (auto intro!: exI [of _ g] exI [of _ T])
next
  case None
  note inv = pt_invD [OF inv0 p(1)]
  have pres: "ld64 s (in_frame f (8 * unat i)) AND 1 = 0" using inv(5) [OF p(2,3) None] by (simp add: pt_entry_def ld64_def)
  have cur: "unat (last_used_index s) \<le> page_total s" using inv(4) by (simp add: pmm_wf_def pmm_inv_def)
  note al = pmm_alloc_spec [OF inv(4), of 1 c]
  show ?thesis
  proof (cases "next_fit 1 s")
    case None
    then show ?thesis using al pres next_fit_one [OF cur] by (simp add: get_next_level_def Let_def entry_addr [OF p(3)])
  next
    case (Some a)
    then obtain s1 where s1: "pmm_alloc c 1 s = Inr (of_nat a * PAGE_SIZE, s1)" "pmm_alloc_post s a 1 s1" "pmm_wf s1"
      using al by auto
    note k = alloc_keeps_tree [OF inv0 s1(2,3)]
    define s' where "s' = st64 (in_frame f (8 * unat i)) (of_nat a * PAGE_SIZE OR 7) s1"
    note t = add_table [OF k(1) p None k(4,3,5) s'_def refl]
    have a: "0 < a" "a < 2 ^ 35" using s1(2) inv(3) by (auto simp: pmm_alloc_post_def bitmap_ok_def)
    have "free_frames s \<subseteq> insert a (free_frames s')" using s1(2) t(3) by (auto simp: pmm_alloc_post_def free_frames_def)
    then have "card (free_frames s) \<le> card (insert a (free_frames s'))" by (rule card_mono [rotated]) (simp add: free_frames_def)
    also have "\<dots> \<le> Suc (card (free_frames s'))" by (rule card_insert_le_m1) simp_all
    finally have cnt: "card (free_frames s) \<le> Suc (card (free_frames s'))" .
    from a have "of_nat a * PAGE_SIZE \<noteq> (0 :: u64)" using frame_number [of a] by auto
    then have "get_next_level c (of_nat f * PAGE_SIZE) i True s = Inr (of_nat a * PAGE_SIZE, s')"
      using s1(1) pres by (simp add: get_next_level_def Let_def entry_addr [OF p(3)] s'_def)
    moreover have "pmm_state.more s' = pmm_state.more s" using s1(2) by (simp add: s'_def st64_def pmm_alloc_post_def)
    moreover have "T \<subseteq>\<^sub>m T(p @ [unat i] \<mapsto> a)" using None by (auto simp: map_le_def)
    ultimately show ?thesis using t(1,2) k(2) cnt \<open>of_nat a * PAGE_SIZE \<noteq> 0\<close>
      by (auto intro!: exI [of _ a] exI [of _ "T(p @ [unat i] \<mapsto> a)"])
  qed
qed

section \<open>Mapping a page\<close>

lemma leaf_store:
  assumes inv0: "pt_inv s T" and q: "T [i4, i3, i2] = Some f" "i < 512" and s': "s' = st64 (in_frame f (8 * i)) v s"
  shows "pt_inv s' T" and "pt_abs s' T = (pt_abs s T)((i4, i3, i2, i) := v)"
proof -
  note st = entry_store [OF pt_invD(4,1) [OF inv0 q(1)] q(2) s']
  have same: "pt_entry s' h j = pt_entry s h j" if "T p = Some h" "j < 512" "p \<noteq> [i4, i3, i2] \<or> j \<noteq> i" for p h j
    using st(3) [OF pt_invD(2) [OF inv0 that(1)] that(2)] pt_invD(7) [OF inv0 q(1)] that by auto
  have "pt_entry s' f i = v" using st(3) [OF pt_invD(2) [OF inv0 q(1)] q(2)] by simp
  then show "pt_abs s' T = (pt_abs s T)((i4, i3, i2, i) := v)"
    using same q by (auto simp: pt_abs_def fun_eq_iff split: option.split)
  have "links s' T" unfolding links_def
  proof (intro allI impI)
    fix p :: "nat list" and h j :: nat assume p: "T p = Some h" "length p < 3" "j < 512"
    have "p \<noteq> [i4, i3, i2]" using p(2) by auto
    then have e: "pt_entry s' h j = pt_entry s h j" using same [OF p(1,3)] by blast
    have "links s T" using inv0 by (simp add: pt_inv_def)
    then show "case T (p @ [j]) of None \<Rightarrow> pt_entry s' h j AND 1 = 0
      | Some g \<Rightarrow> pt_entry s' h j AND 1 \<noteq> 0 \<and> pt_entry s' h j AND NOT 0xFFF = of_nat g * PAGE_SIZE"
      unfolding e using p unfolding links_def by blast
  qed
  then show "pt_inv s' T" using inv0 st(1,2) by (simp add: pt_inv_def)
qed

definition pt_root :: "pagemap_t \<Rightarrow> pt_tree \<Rightarrow> bool" where
  "pt_root pagemap T \<longleftrightarrow> (\<exists>t. T [] = Some t \<and> top_level pagemap = of_nat t * PAGE_SIZE)"

lemma pt_root_mono: "pt_root pm T \<Longrightarrow> T \<subseteq>\<^sub>m T' \<Longrightarrow> pt_root pm T'"
  by (auto simp: pt_root_def map_le_def dom_def)

lemma map_page_spec:
  assumes inv0: "pt_inv s T" and root: "pt_root pagemap T"
  shows "case map_page c pagemap virt phys flags s of
      Inl e \<Rightarrow> e = Panic ''Kernel OOM'' \<and> card (free_frames s) < 3
    | Inr (ok, s') \<Rightarrow> ok \<and> (\<exists>T'. T \<subseteq>\<^sub>m T' \<and> pt_inv s' T' \<and> pt_abs s' T' = (pt_abs s T)(vpage virt := phys OR flags)) \<and>
        pmm_state.more s' = pmm_state.more s"
proof -
  obtain t where t: "T [] = Some t" "top_level pagemap = of_nat t * PAGE_SIZE" using root by (auto simp: pt_root_def)
  let ?i4 = "pml_entry 39 virt" and ?i3 = "pml_entry 30 virt" and ?i2 = "pml_entry 21 virt" and ?i1 = "pml_entry 12 virt"
  have b: "unat ?i4 < 512" "unat ?i3 < 512" "unat ?i2 < 512" "unat ?i1 < 512" by (simp_all add: pml_entry_bound)
  note l4 = get_next_level_alloc [OF inv0 t(1) _ b(1), of c]
  show ?thesis
  proof (cases "get_next_level c (of_nat t * PAGE_SIZE) ?i4 True s")
    case (Inl e)
    then show ?thesis using l4 by (simp add: map_page_def t(2))
  next
    case (Inr r)
    then obtain g3 s1 T1 where r4: "get_next_level c (of_nat t * PAGE_SIZE) ?i4 True s = Inr (of_nat g3 * PAGE_SIZE, s1)"
      "of_nat g3 * PAGE_SIZE \<noteq> (0 :: u64)" "T \<subseteq>\<^sub>m T1" "T1 [unat ?i4] = Some g3" "pt_inv s1 T1" "pt_abs s1 T1 = pt_abs s T"
      "pmm_state.more s1 = pmm_state.more s" "card (free_frames s) \<le> Suc (card (free_frames s1))" using l4 by (cases r) auto
    note l3 = get_next_level_alloc [OF r4(5,4) _ b(2), of c]
    show ?thesis
    proof (cases "get_next_level c (of_nat g3 * PAGE_SIZE) ?i3 True s1")
      case (Inl e)
      then show ?thesis using l3 r4 by (simp add: map_page_def t(2))
    next
      case (Inr r)
      then obtain g2 s2 T2 where r3: "get_next_level c (of_nat g3 * PAGE_SIZE) ?i3 True s1 = Inr (of_nat g2 * PAGE_SIZE, s2)"
        "of_nat g2 * PAGE_SIZE \<noteq> (0 :: u64)" "T1 \<subseteq>\<^sub>m T2" "T2 [unat ?i4, unat ?i3] = Some g2" "pt_inv s2 T2"
        "pt_abs s2 T2 = pt_abs s1 T1" "pmm_state.more s2 = pmm_state.more s1" "card (free_frames s1) \<le> Suc (card (free_frames s2))" using l3 by (cases r) auto
      note l2 = get_next_level_alloc [OF r3(5,4) _ b(3), of c]
      show ?thesis
      proof (cases "get_next_level c (of_nat g2 * PAGE_SIZE) ?i2 True s2")
        case (Inl e)
        then show ?thesis using l2 r4 r3 by (simp add: map_page_def t(2))
      next
        case (Inr r)
        then obtain g1 s3 T3 where r2: "get_next_level c (of_nat g2 * PAGE_SIZE) ?i2 True s2 = Inr (of_nat g1 * PAGE_SIZE, s3)"
          "of_nat g1 * PAGE_SIZE \<noteq> (0 :: u64)" "T2 \<subseteq>\<^sub>m T3" "T3 [unat ?i4, unat ?i3, unat ?i2] = Some g1" "pt_inv s3 T3"
          "pt_abs s3 T3 = pt_abs s2 T2" "pmm_state.more s3 = pmm_state.more s2" using l2 by (cases r) auto
        define s' where "s' = st64 (in_frame g1 (8 * unat ?i1)) (phys OR flags) s3"
        note w = leaf_store [OF r2(5,4) b(4) s'_def]
        have "map_page c pagemap virt phys flags s = Inr (True, s')"
          using r4(1,2) r3(1,2) r2(1,2) by (simp add: map_page_def t(2) entry_addr [OF b(4)] s'_def)
        moreover have "pmm_state.more s' = pmm_state.more s" using r4(7) r3(7) r2(7) by (simp add: s'_def st64_def)
        moreover have "T \<subseteq>\<^sub>m T3" using r4(3) r3(3) r2(3) by (meson map_le_trans)
        ultimately show ?thesis using w r4(6) r3(6) r2(6) by (auto simp: vpage_def)
      qed
    qed
  qed
qed

section \<open>Looking up a page\<close>

definition leaf_table :: "pt_tree \<Rightarrow> u64 \<Rightarrow> nat option" where
  "leaf_table T virt = T [unat (pml_entry 39 virt), unat (pml_entry 30 virt), unat (pml_entry 21 virt)]"

lemma tree_prefix: "tree_ok T \<Longrightarrow> T (p @ [i]) = Some f \<Longrightarrow> \<exists>g. T p = Some g"
  unfolding tree_ok_def by (metis not_None_eq)

lemma table_phys_nonzero:
  assumes "pt_inv s T" and "T p = Some f"
  shows "of_nat f * PAGE_SIZE \<noteq> (0 :: u64)"
  using frame_number [OF pt_invD(2) [OF assms]] pt_invD(1) [OF assms] by (auto simp: table_frame_def)

lemma virt2pte_spec:
  assumes inv0: "pt_inv s T" and root: "pt_root pagemap T"
  shows "virt2pte c pagemap virt False s =
    Inr (case leaf_table T virt of None \<Rightarrow> 0 | Some f \<Rightarrow> in_frame f (8 * unat (pml_entry 12 virt)), s)"
proof -
  obtain t where t: "T [] = Some t" "top_level pagemap = of_nat t * PAGE_SIZE" using root by (auto simp: pt_root_def)
  let ?i4 = "pml_entry 39 virt" and ?i3 = "pml_entry 30 virt" and ?i2 = "pml_entry 21 virt" and ?i1 = "pml_entry 12 virt"
  have b: "unat ?i4 < 512" "unat ?i3 < 512" "unat ?i2 < 512" "unat ?i1 < 512" by (simp_all add: pml_entry_bound)
  have ok: "tree_ok T" using inv0 by (simp add: pt_inv_def)
  have pre: "\<exists>g. T [unat ?i4, unat ?i3] = Some g" if "T [unat ?i4, unat ?i3, unat ?i2] = Some f" for f
    using tree_prefix [OF ok, of "[unat ?i4, unat ?i3]"] that by simp
  have pre2: "\<exists>g. T [unat ?i4] = Some g" if "T [unat ?i4, unat ?i3] = Some f" for f
    using tree_prefix [OF ok, of "[unat ?i4]"] that by simp
  note ab = get_next_level_absent [OF inv0] and pr = get_next_level_present [OF inv0]
  show ?thesis
  proof (cases "T [unat ?i4]")
    case None
    then have "leaf_table T virt = None" using pre pre2 by (metis leaf_table_def not_None_eq)
    then show ?thesis using ab [OF t(1) _ b(1), of c] None by (simp add: virt2pte_def t(2))
  next
    case (Some g3)
    note s4 = pr [OF t(1) _ b(1), of g3 c False] table_phys_nonzero [OF inv0 Some]
    show ?thesis
    proof (cases "T [unat ?i4, unat ?i3]")
      case None
      then have "leaf_table T virt = None" using pre by (metis leaf_table_def not_None_eq)
      then show ?thesis using ab [OF Some _ b(2), of c] s4 None Some by (simp add: virt2pte_def t(2))
    next
      case g2: (Some g2)
      note s3 = pr [OF Some _ b(2), of g2 c False] table_phys_nonzero [OF inv0 g2]
      show ?thesis
      proof (cases "T [unat ?i4, unat ?i3, unat ?i2]")
        case None
        then show ?thesis using ab [OF g2 _ b(3), of c] s4 s3 g2 Some by (simp add: virt2pte_def t(2) leaf_table_def)
      next
        case g1: (Some g1)
        note s2 = pr [OF g2 _ b(3), of g1 c False] table_phys_nonzero [OF inv0 g1]
        show ?thesis using s4 s3 s2 Some g2 g1 by (simp add: virt2pte_def t(2) leaf_table_def entry_addr [OF b(4)])
      qed
    qed
  qed
qed

lemma pte_nonzero:
  assumes "pt_inv s T" and "leaf_table T virt = Some f"
  shows "in_frame f (8 * unat (pml_entry 12 virt)) \<noteq> 0" and "ld64 s (in_frame f (8 * unat (pml_entry 12 virt))) = pt_abs s T (vpage virt)"
proof -
  have b: "unat (pml_entry 12 virt) < 512" by (simp add: pml_entry_bound)
  have "f < 2 ^ 35" using pt_invD(2) [OF assms(1)] assms(2) by (simp add: leaf_table_def)
  then show "in_frame f (8 * unat (pml_entry 12 virt)) \<noteq> 0" using b by (intro in_frame_nonzero) simp_all
  show "ld64 s (in_frame f (8 * unat (pml_entry 12 virt))) = pt_abs s T (vpage virt)"
    using assms(2) b by (simp add: pt_abs_def vpage_def leaf_table_def pt_entry_def ld64_def)
qed

lemma virt2phys_spec:
  assumes "pt_inv s T" and "pt_root pagemap T"
  shows "virt2phys c pagemap virt s =
    (if leaf_table T virt = None then Inl (PageFault 0)
     else Inr (if pt_abs s T (vpage virt) AND 1 = 0 then None else Some (pt_abs s T (vpage virt) AND NOT 0xFFF), s))"
  using virt2pte_spec [OF assms, of c virt] pte_nonzero [OF assms(1), of virt]
  by (cases "leaf_table T virt") (auto simp: virt2phys_def deref_def)

text \<open>The fields beyond the frame allocator's do not matter to the tables.\<close>

lemma pt_cong:
  assumes "mem s' = mem s" "pmm_page_count s' = pmm_page_count s" "pmm_bitmap s' = pmm_bitmap s"
    "last_used_index s' = last_used_index s" "pmm_lock s' = pmm_lock s"
  shows "pt_inv s' T = pt_inv s T" and "pt_abs s' T = pt_abs s T"
proof -
  have e: "pt_entry s' = pt_entry s" "page_used s' = page_used s" "page_total s' = page_total s" "bitmap_bytes s' = bitmap_bytes s"
    by (simp_all add: fun_eq_iff pt_entry_def page_used_def bitmap_testbit_def bitmap_word_def page_total_def bitmap_bytes_def assms)
  show "pt_abs s' T = pt_abs s T" unfolding pt_abs_def e ..
  show "pt_inv s' T = pt_inv s T"
    unfolding pt_inv_def pmm_wf_def pmm_inv_def bitmap_ok_def table_frame_def links_def e assms ..
qed

lemma pt_fields [simp]:
  fixes s :: "('z) vm_state_scheme"
  shows "pt_inv (s\<lparr>invlpgs := l\<rparr>) T = pt_inv s T" "pt_abs (s\<lparr>invlpgs := l\<rparr>) T = pt_abs s T"
    and "pt_inv (s\<lparr>cr3 := r\<rparr>) T = pt_inv s T" "pt_abs (s\<lparr>cr3 := r\<rparr>) T = pt_abs s T"
    and "pt_inv (s\<lparr>g_kernel_pagemap := k\<rparr>) T = pt_inv s T" "pt_abs (s\<lparr>g_kernel_pagemap := k\<rparr>) T = pt_abs s T"
  by (rule pt_cong; simp)+

lemma st64_fields [simp]:
  "cr3 (st64 a v s) = cr3 s" "invlpgs (st64 a v s) = invlpgs s" "g_kernel_pagemap (st64 a v s) = g_kernel_pagemap s"
  by (simp_all add: st64_def)

lemma leaf_write:
  assumes "pt_inv s T" and "leaf_table T virt = Some f"
  shows "pt_inv (st64 (in_frame f (8 * unat (pml_entry 12 virt))) v s) T"
    and "pt_abs (st64 (in_frame f (8 * unat (pml_entry 12 virt))) v s) T = (pt_abs s T)(vpage virt := v)"
  using leaf_store [OF assms(1) _ pml_entry_bound refl, of _ _ _ f 12 virt v] assms(2)
  by (simp_all add: leaf_table_def vpage_def)

lemma unmap_page_spec:
  assumes "pt_inv s T" and "pt_root pagemap T"
  shows "if leaf_table T virt = None then unmap_page c pagemap virt s = Inr (False, s)
    else \<exists>s'. unmap_page c pagemap virt s = Inr (True, s') \<and> pt_inv s' T \<and> pt_abs s' T = (pt_abs s T)(vpage virt := 0) \<and>
      invlpgs s' = (if cr3 s = top_level pagemap then virt # invlpgs s else invlpgs s)"
proof (cases "leaf_table T virt")
  case None
  then show ?thesis using virt2pte_spec [OF assms, of c virt] by (simp add: unmap_page_def)
next
  case (Some f)
  then show ?thesis using virt2pte_spec [OF assms, of c virt] pte_nonzero(1) [OF assms(1) Some] leaf_write [OF assms(1) Some, of 0]
    by (simp add: unmap_page_def Let_def invlpg_def)
qed

lemma flag_page_spec:
  assumes "pt_inv s T" and "pt_root pagemap T"
  shows "if leaf_table T virt = None then flag_page c pagemap virt flags s = Inr (False, s)
    else \<exists>s'. flag_page c pagemap virt flags s = Inr (True, s') \<and> pt_inv s' T \<and>
      pt_abs s' T = (pt_abs s T)(vpage virt := (pt_abs s T (vpage virt) AND NOT 0xFFF) OR flags) \<and>
      invlpgs s' = (if cr3 s = top_level pagemap then virt # invlpgs s else invlpgs s)"
proof (cases "leaf_table T virt")
  case None
  then show ?thesis using virt2pte_spec [OF assms, of c virt] by (simp add: flag_page_def)
next
  case (Some f)
  note w = leaf_write [OF assms(1) Some]
  note w2 = leaf_write [OF w(1) Some]
  show ?thesis
    using virt2pte_spec [OF assms, of c virt] pte_nonzero [OF assms(1) Some] Some w2
    by (simp add: flag_page_def Let_def invlpg_def w)
qed

section \<open>Properties of the mapping operations\<close>

lemma or_mask_bits:
  fixes x y m :: u64
  assumes "x AND m = 0" and "y AND NOT m = 0"
  shows "(x OR y) AND NOT m = x"
proof (rule bit_eqI)
  fix n assume "possible_bit TYPE(u64) n"
  then show "bit ((x OR y) AND NOT m) n = bit x n"
    using arg_cong [OF assms(1), of "\<lambda>z. bit z n"] arg_cong [OF assms(2), of "\<lambda>z. bit z n"]
    by (auto simp: bit_and_iff bit_or_iff bit_not_iff)
qed

lemma page_flag_bits:
  fixes phys flags :: u64
  assumes "phys AND 0xFFF = 0" and "flags AND NOT 0xFFF = 0" and "flags AND 1 = 1"
  shows "(phys OR flags) AND 1 \<noteq> 0" and "(phys OR flags) AND NOT 0xFFF = phys"
proof -
  have "(phys OR flags) AND 1 = (phys AND 1) OR 1" using assms(3) by (simp only: bit.conj_disj_distrib2)
  then show "(phys OR flags) AND 1 \<noteq> 0" by (metis or_eq_0_iff zero_neq_one)
  show "(phys OR flags) AND NOT 0xFFF = phys" by (rule or_mask_bits [OF assms(1,2)])
qed

text \<open>
  C11: \<^verbatim>\<open>map_page\<close> refines an update of the abstract page map: whatever intermediate tables it has to
  allocate, exactly the entry of the given virtual page changes, to the physical address with the
  flags, and every other page keeps its entry.  It fails only when fewer than three frames are free.
\<close>

theorem map_page_refines_update:
  assumes "pt_inv s T" and "pt_root pagemap T"
  shows "case map_page c pagemap virt phys flags s of
      Inl e \<Rightarrow> e = Panic ''Kernel OOM'' \<and> card (free_frames s) < 3
    | Inr (ok, s') \<Rightarrow> ok \<and> (\<exists>T'. pt_inv s' T' \<and> pt_root pagemap T' \<and> pt_abs s' T' = (pt_abs s T)(vpage virt := phys OR flags))"
proof (cases "map_page c pagemap virt phys flags s")
  case (Inl e)
  then show ?thesis using map_page_spec [OF assms, where c = c and virt = virt and phys = phys and flags = flags] by simp
next
  case (Inr r)
  then show ?thesis using map_page_spec [OF assms, where c = c and virt = virt and phys = phys and flags = flags] pt_root_mono [OF assms(2)] by (cases r) auto
qed

text \<open>
  C12: After \<^verbatim>\<open>map_page\<close> with the present flag, \<^verbatim>\<open>virt2phys\<close> of the page returns the physical page; every
  other page that translated before translates as before; after \<^verbatim>\<open>unmap_page\<close> the page does not
  translate any more, and the other pages still do as before.
\<close>

theorem map_translate_unmap:
  assumes "pt_inv s T" and "pt_root pagemap T" and "map_page c pagemap virt phys flags s = Inr (ok, s1)"
    and "phys AND 0xFFF = 0" and "flags AND NOT 0xFFF = 0" and "flags AND 1 = 1"
  shows "virt2phys c pagemap virt s1 = Inr (Some phys, s1) \<and>
    (\<exists>s2. unmap_page c pagemap virt s1 = Inr (True, s2) \<and> virt2phys c pagemap virt s2 = Inr (None, s2) \<and>
      (\<forall>w r. vpage w \<noteq> vpage virt \<longrightarrow> virt2phys c pagemap w s = Inr (r, s) \<longrightarrow>
         virt2phys c pagemap w s1 = Inr (r, s1) \<and> virt2phys c pagemap w s2 = Inr (r, s2)))"
proof -
  obtain T1 where t: "T \<subseteq>\<^sub>m T1" "pt_inv s1 T1" "pt_abs s1 T1 = (pt_abs s T)(vpage virt := phys OR flags)"
    using map_page_spec [OF assms(1,2), where c = c and virt = virt and phys = phys and flags = flags] assms(3) by auto
  note root = pt_root_mono [OF assms(2) t(1)]
  note pte = page_flag_bits [OF assms(4-6)]
  have "pt_abs s1 T1 (vpage virt) \<noteq> 0" using t(3) pte(1) by auto
  then have leaf: "leaf_table T1 virt \<noteq> None" by (auto simp: pt_abs_def vpage_def leaf_table_def split: option.splits)
  have "virt2phys c pagemap virt s1 = Inr (Some phys, s1)"
    using virt2phys_spec [OF t(2) root, of c virt] leaf t(3) pte by simp
  moreover obtain s2 where s2: "unmap_page c pagemap virt s1 = Inr (True, s2)" "pt_inv s2 T1"
    "pt_abs s2 T1 = (pt_abs s1 T1)(vpage virt := 0)"
    using unmap_page_spec [OF t(2) root, of virt c] leaf by auto
  moreover have "virt2phys c pagemap virt s2 = Inr (None, s2)"
    using virt2phys_spec [OF s2(2) root, of c virt] leaf s2(3) by simp
  moreover have "virt2phys c pagemap w s1 = Inr (r, s1) \<and> virt2phys c pagemap w s2 = Inr (r, s2)"
    if w: "vpage w \<noteq> vpage virt" "virt2phys c pagemap w s = Inr (r, s)" for w r
  proof -
    have "leaf_table T w \<noteq> None" using virt2phys_spec [OF assms(1,2), of c w] w(2) by (auto split: if_splits)
    then have "leaf_table T1 w \<noteq> None" using t(1) unfolding leaf_table_def map_le_def dom_def by (metis mem_Collect_eq)
    then show ?thesis
      using virt2phys_spec [OF assms(1,2), of c w] virt2phys_spec [OF t(2) root, of c w] virt2phys_spec [OF s2(2) root, of c w]
        w t(3) s2(3) by (auto split: if_splits)
  qed
  ultimately show ?thesis by blast
qed

section \<open>The kernel's page map after boot\<close>

definition kernel_pt :: "('z) vm_state_scheme \<Rightarrow> pt_tree \<Rightarrow> bool" where
  "kernel_pt s T \<longleftrightarrow> pt_inv s T \<and> pt_root (g_kernel_pagemap s) T"

text \<open>The effect of a sequence of \<^verbatim>\<open>map_page\<close> calls with flags 3 on the abstract page map.\<close>

definition boot_update :: "(nat \<times> nat \<times> nat \<times> nat \<Rightarrow> u64) \<Rightarrow> (u64 \<times> u64) list \<Rightarrow> nat \<times> nat \<times> nat \<times> nat \<Rightarrow> u64" where
  "boot_update = foldl (\<lambda>m (v, p). m(vpage v := p OR 3))"

definition vm_maps :: "('z) vm_state_scheme \<Rightarrow> (u64 \<times> u64) list \<Rightarrow> ('z) vm_state_scheme \<Rightarrow> bool" where
  "vm_maps s V s' \<longleftrightarrow> pmm_state.more s' = pmm_state.more s \<and>
     (\<forall>T. kernel_pt s T \<longrightarrow> (\<exists>T'. kernel_pt s' T' \<and> pt_abs s' T' = boot_update (pt_abs s T) V))"

lemma vm_fields_more:
  fixes s s' :: "('z) vm_state_scheme"
  assumes "pmm_state.more s' = pmm_state.more s"
  shows "g_kernel_pagemap s' = g_kernel_pagemap s" and "cr3 s' = cr3 s" and "invlpgs s' = invlpgs s"
  using assms by (cases s; cases s'; simp)+

lemma boot_update_simps [simp]:
  "boot_update m [] = m" "boot_update m ((v, p) # V) = boot_update (m(vpage v := p OR 3)) V"
  "boot_update m (V @ W) = boot_update (boot_update m V) W"
  by (simp_all add: boot_update_def)

lemma vm_maps_refl [simp]: "vm_maps s [] s"
  by (auto simp: vm_maps_def)

lemma vm_maps_trans: "vm_maps s V s1 \<Longrightarrow> vm_maps s1 W s2 \<Longrightarrow> vm_maps s (V @ W) s2"
  unfolding vm_maps_def by (metis boot_update_simps(3))

definition boots :: "('z) vm_state_scheme \<Rightarrow> (u64 \<times> u64) list \<Rightarrow> kstop + ('z) vm_state_scheme \<Rightarrow> bool" where
  "boots s V r \<longleftrightarrow> (case r of Inl e \<Rightarrow> e = Panic ''Kernel OOM'' | Inr s' \<Rightarrow> vm_maps s V s' \<and> (\<exists>T. kernel_pt s' T))"

lemma boots_bind:
  assumes "boots s V r" and "\<And>s1 T. kernel_pt s1 T \<Longrightarrow> boots s1 W (f s1)"
  shows "boots s (V @ W) (bindR r f)"
proof (cases r)
  case (Inl e)
  then show ?thesis using assms(1) by (simp add: boots_def)
next
  case (Inr s1)
  then obtain T where "vm_maps s V s1" "kernel_pt s1 T" using assms(1) by (auto simp: boots_def)
  then show ?thesis using assms(2) [of s1 T] vm_maps_trans Inr unfolding boots_def by (auto split: sum.splits)
qed

lemma boots_done: "kernel_pt s T \<Longrightarrow> boots s [] (Inr s)"
  by (auto simp: boots_def)

lemma map_or_panic_boots:
  assumes "kernel_pt s T"
  shows "boots s [(virt, phys)] (map_or_panic c msg virt phys s)"
proof (cases "map_page c (g_kernel_pagemap s) virt phys 3 s")
  case (Inl e)
  then show ?thesis using assms map_page_spec [of s T "g_kernel_pagemap s" virt phys 3 c]
    by (simp add: boots_def map_or_panic_def kernel_pt_def)
next
  case (Inr r)
  have ex: "\<exists>T'. kernel_pt s' T' \<and> pt_abs s' T' = (pt_abs s T)(vpage virt := phys OR 3)"
    if "kernel_pt s T" "map_page c (g_kernel_pagemap s) virt phys 3 s = Inr (ok, s')" for T ok s'
    using map_page_spec [of s T "g_kernel_pagemap s" virt phys 3 c] that vm_fields_more(1) [of s' s]
      pt_root_mono [of "g_kernel_pagemap s" T] by (auto simp: kernel_pt_def)
  obtain s' where r: "r = (True, s')" "pmm_state.more s' = pmm_state.more s"
    using map_page_spec [of s T "g_kernel_pagemap s" virt phys 3 c] assms Inr by (cases r) (auto simp: kernel_pt_def)
  then have "vm_maps s [(virt, phys)] s'" "\<exists>T. kernel_pt s' T" using ex Inr assms by (auto simp: vm_maps_def)
  then show ?thesis using Inr r by (simp add: boots_def map_or_panic_def)
qed

text \<open>The values a loop variable takes from \<open>lo\<close> to \<open>hi\<close> in steps of a page.\<close>

definition page_steps :: "nat \<Rightarrow> nat \<Rightarrow> nat list" where
  "page_steps lo hi = map (\<lambda>n. lo + 0x1000 * n) [0..<(hi - lo + 0xFFF) div 0x1000]"

lemma page_steps_unfold: "page_steps lo hi = (if lo < hi then lo # page_steps (lo + 0x1000) hi else [])"
proof (cases "lo < hi")
  case True
  have "(hi - lo + 0xFFF) div 0x1000 = Suc ((hi - (lo + 0x1000) + 0xFFF) div 0x1000)"
  proof (cases "hi - lo < 0x1000")
    case False
    then have e: "hi - lo + 0xFFF = (hi - (lo + 0x1000) + 0xFFF) + 0x1000" by simp
    show ?thesis unfolding e by (subst div_add_self2) simp_all
  next
    case small: True
    then have "(hi - lo + 0xFFF) div 0x1000 = 1" using True by (intro div_nat_eqI) simp_all
    then show ?thesis using small by simp
  qed
  then show ?thesis using True
    by (simp add: page_steps_def upt_conv_Cons map_Suc_upt [symmetric] add.assoc del: upt_Suc)
qed (simp add: page_steps_def)

lemma set_page_steps: "x \<in> set (page_steps lo hi) \<longleftrightarrow> (\<exists>n. x = lo + 0x1000 * n \<and> x < hi)"
proof -
  have "x \<in> set (page_steps lo hi) \<longleftrightarrow> (\<exists>n. n < (hi - lo + 0xFFF) div 0x1000 \<and> x = lo + 0x1000 * n)"
    by (auto simp: page_steps_def)
  moreover have "n < (hi - lo + 0xFFF) div 0x1000 \<longleftrightarrow> lo + 0x1000 * n < hi" for n
  proof -
    have "n < (hi - lo + 0xFFF) div 0x1000 \<longleftrightarrow> Suc n * 0x1000 \<le> hi - lo + 0xFFF"
      by (simp only: Suc_le_eq [symmetric] less_eq_div_iff_mult_less_eq zero_less_numeral)
    then show ?thesis by auto
  qed
  ultimately show ?thesis by metis
qed

definition both_maps :: "nat \<Rightarrow> (u64 \<times> u64) list" where
  "both_maps j = [(of_nat j, of_nat j), (of_nat j + HIGHER_HALF, of_nat j)]"

lemma map_both_boots: "kernel_pt s T \<Longrightarrow> boots s (both_maps j) (map_both c (of_nat j) s)"
  unfolding map_both_def both_maps_def
  by (rule boots_bind [where V = "[_]" and W = "[_]", simplified]) (blast intro: map_or_panic_boots)+

lemma map_kernel_boots:
  "kernel_pt s T \<Longrightarrow>
     boots s (map (\<lambda>i. (virt + of_nat i, phys + of_nat i)) (page_steps i len)) (map_kernel c virt phys len i s)"
proof (induction "len - i" arbitrary: i s T rule: less_induct)
  case less
  show ?case
  proof (cases "i < len")
    case True
    have "boots s ([(virt + of_nat i, phys + of_nat i)] @
        map (\<lambda>i. (virt + of_nat i, phys + of_nat i)) (page_steps (i + 0x1000) len)) (map_kernel c virt phys len i s)"
      unfolding map_kernel.simps [of c virt phys len i s] if_P [OF True]
      by (rule boots_bind [OF map_or_panic_boots [OF less.prems]]) (use True in \<open>auto intro: less.hyps\<close>)
    then show ?thesis using True by (subst page_steps_unfold) simp
  next
    case False
    then show ?thesis using boots_done [OF less.prems] by (subst page_steps_unfold, subst map_kernel.simps) simp
  qed
qed

lemma map_low_boots: "kernel_pt s T \<Longrightarrow> boots s (concat (map both_maps (page_steps i 0x100000000))) (map_low c i s)"
proof (induction "0x100000000 - i" arbitrary: i s T rule: less_induct)
  case less
  show ?case
  proof (cases "i < 0x100000000")
    case True
    have "boots s (both_maps i @ concat (map both_maps (page_steps (i + 0x1000) 0x100000000))) (map_low c i s)"
      unfolding map_low.simps [of c i s] if_P [OF True]
      by (rule boots_bind [OF map_both_boots [OF less.prems]]) (use True in \<open>auto intro: less.hyps\<close>)
    then show ?thesis using True by (subst page_steps_unfold) simp
  next
    case False
    then show ?thesis using boots_done [OF less.prems] by (subst page_steps_unfold, subst map_low.simps) simp
  qed
qed

definition high_maps :: "nat \<Rightarrow> (u64 \<times> u64) list" where
  "high_maps j = (if j < 0x100000000 then [] else both_maps j)"

lemma map_entry_boots: "kernel_pt s T \<Longrightarrow> boots s (concat (map high_maps (page_steps j hi))) (map_entry c hi j s)"
proof (induction "hi - j" arbitrary: j s T rule: less_induct)
  case less
  show ?case
  proof (cases "j < hi")
    case True
    have "boots s (high_maps j) (if j < 0x100000000 then Inr s else map_both c (of_nat j) s)"
      using boots_done [OF less.prems] map_both_boots [OF less.prems] by (simp add: high_maps_def)
    then have "boots s (high_maps j @ concat (map high_maps (page_steps (j + 0x1000) hi))) (map_entry c hi j s)"
      unfolding map_entry.simps [of c hi j s] if_P [OF True]
      by (rule boots_bind) (use True in \<open>auto intro: less.hyps\<close>)
    then show ?thesis using True by (subst page_steps_unfold) simp
  next
    case False
    then show ?thesis using boots_done [OF less.prems] by (subst page_steps_unfold, subst map_entry.simps) simp
  qed
qed

definition entry_maps :: "memmap_entry \<Rightarrow> (u64 \<times> u64) list" where
  "entry_maps e = (let hi = align_up (mm_base e + mm_length e) PAGE_SIZE
     in if hi \<le> FOUR_GIGS then [] else concat (map high_maps (page_steps (unat (align_down (mm_base e) PAGE_SIZE)) (unat hi))))"

lemma map_entries_boots: "kernel_pt s T \<Longrightarrow> boots s (concat (map entry_maps es)) (map_entries c es s)"
proof (induction es arbitrary: s T)
  case (Cons e es)
  have "boots s (entry_maps e) (if align_up (mm_base e + mm_length e) PAGE_SIZE \<le> FOUR_GIGS then Inr s
      else map_entry c (unat (align_up (mm_base e + mm_length e) PAGE_SIZE)) (unat (align_down (mm_base e) PAGE_SIZE)) s)"
    using boots_done [OF Cons.prems] map_entry_boots [OF Cons.prems] by (simp add: entry_maps_def Let_def)
  then have "boots s (entry_maps e @ concat (map entry_maps es)) (map_entries c (e # es) s)"
    unfolding map_entries.simps Let_def by (rule boots_bind) (rule Cons.IH)
  then show ?case by simp
qed (simp add: boots_done)

lemma init_levels_boots: "kernel_pt s T \<Longrightarrow> n \<le> 256 \<Longrightarrow> boots s [] (init_levels c n s)"
proof (induction n arbitrary: s T)
  case (Suc n)
  let ?i = "512 - of_nat (Suc n) :: u64"
  have i: "unat ?i < 512"
  proof -
    have n: "unat (of_nat (Suc n) :: u64) = Suc n" using Suc.prems(2) by (intro unat_of_nat_u64) simp
    then have "unat ?i = 512 - Suc n" using Suc.prems(2) by (subst unat_sub_small) simp_all
    then show ?thesis by simp
  qed
  define r where "r = get_next_level c (top_level (g_kernel_pagemap s)) ?i True s"
  have step: "case r of Inl e \<Rightarrow> e = Panic ''Kernel OOM'' | Inr (p, s1) \<Rightarrow> p \<noteq> 0 \<and> pmm_state.more s1 = pmm_state.more s \<and>
      (\<exists>T'. kernel_pt s1 T' \<and> pt_abs s1 T' = pt_abs s T)" if k: "kernel_pt s T" for T
  proof -
    obtain t where t: "T [] = Some t" "top_level (g_kernel_pagemap s) = of_nat t * PAGE_SIZE"
      using k by (auto simp: kernel_pt_def pt_root_def)
    have "pt_inv s T" using k by (simp add: kernel_pt_def)
    note g = get_next_level_alloc [OF this t(1) _ i, of c]
    show ?thesis
    proof (cases r)
      case (Inl e)
      then show ?thesis using g by (simp add: r_def t(2))
    next
      case (Inr a)
      then obtain p s1 T' where a: "r = Inr (p, s1)" "p \<noteq> 0" "T \<subseteq>\<^sub>m T'" "pt_inv s1 T'" "pt_abs s1 T' = pt_abs s T"
        "pmm_state.more s1 = pmm_state.more s" using g by (cases a) (auto simp: r_def t(2))
      moreover have "pt_root (g_kernel_pagemap s1) T'"
        using pt_root_mono [OF _ a(3)] k vm_fields_more(1) [OF a(6)] by (simp add: kernel_pt_def)
      ultimately show ?thesis by (auto simp: kernel_pt_def)
    qed
  qed
  show ?case
  proof (cases r)
    case (Inl e)
    then show ?thesis using step [OF Suc.prems(1)] by (simp add: boots_def r_def)
  next
    case (Inr a)
    then obtain p s1 where a: "r = Inr (p, s1)" by (cases a) auto
    note st = step [unfolded a sum.case prod.case]
    have m: "vm_maps s [] s1" using st Suc.prems(1) unfolding vm_maps_def by simp
    obtain T' where T': "kernel_pt s1 T'" using st [OF Suc.prems(1)] by blast
    have "boots s1 [] (init_levels c n s1)" using Suc.IH [OF T'] Suc.prems(2) by simp
    moreover have "init_levels c (Suc n) s = init_levels c n s1" using a st [OF Suc.prems(1)] by (simp add: r_def)
    ultimately show ?thesis using vm_maps_trans [OF m, of "[]"] unfolding boots_def by (auto split: sum.splits)
  qed
qed (simp add: boots_done)

lemma fresh_tree:
  assumes "pmm_wf s" and "pmm_alloc_post s a 1 s1" and "pmm_wf s1"
  shows "pt_inv s1 [[] \<mapsto> a]" and "pt_abs s1 [[] \<mapsto> a] = (\<lambda>_. 0)"
proof -
  have "pt_inv s Map.empty" using assms(1) by (simp add: pt_inv_def tree_ok_def links_def)
  note k = alloc_keeps_tree [OF this assms(2,3)]
  show "pt_inv s1 [[] \<mapsto> a]" using assms(3) k(4,5) by (simp add: pt_inv_def tree_ok_def links_def)
  show "pt_abs s1 [[] \<mapsto> a] = (\<lambda>_. 0)" by (simp add: pt_abs_def fun_eq_iff)
qed

definition vmm_maps :: "u64 \<Rightarrow> u64 \<Rightarrow> u64 \<Rightarrow> memmap_entry list \<Rightarrow> (u64 \<times> u64) list" where
  "vmm_maps kend kphys kvirt es =
     map (\<lambda>i. (kvirt + of_nat i, kphys + of_nat i)) (page_steps 0 (unat (align_up kend PAGE_SIZE - kvirt))) @
     [(HIGHER_HALF, 0)] @ concat (map both_maps (page_steps 0x1000 0x100000000)) @ concat (map entry_maps es)"

lemma vmm_init_spec:
  assumes "pmm_wf s"
  shows "case vmm_init c kend kphys kvirt es s of
      Inl e \<Rightarrow> e = Panic ''Kernel OOM''
    | Inr s' \<Rightarrow> \<exists>T. kernel_pt s' T \<and> cr3 s' = top_level (g_kernel_pagemap s') \<and>
        pt_abs s' T = boot_update (\<lambda>_. 0) (vmm_maps kend kphys kvirt es)"
proof (cases "next_fit 1 s")
  case None
  then show ?thesis using pmm_alloc_spec [OF assms, of 1 c] by (simp add: vmm_init_def)
next
  case (Some a)
  then obtain s1 where s1: "pmm_alloc c 1 s = Inr (of_nat a * PAGE_SIZE, s1)" "pmm_alloc_post s a 1 s1" "pmm_wf s1"
    using pmm_alloc_spec [OF assms, of 1 c] by auto
  note t = fresh_tree [OF assms s1(2,3)]
  define s2 where "s2 = s1\<lparr>g_kernel_pagemap := \<lparr>pm_lock = LOCK_INITIALIZER None, top_level = of_nat a * PAGE_SIZE,
    mmap_ranges = 0, mmap_range_count = 0\<rparr>\<rparr>"
  have k: "kernel_pt s2 [[] \<mapsto> a]" using t(1) by (simp add: kernel_pt_def s2_def pt_root_def)
  define r where "r = bindR (init_levels c 256 s2) (\<lambda>s3.
      bindR (map_kernel c kvirt kphys (unat (align_up kend PAGE_SIZE - kvirt)) 0 s3) (\<lambda>s4.
        bindR (map_or_panic c ''vmm init failed: unable to map page 0'' HIGHER_HALF 0 s4) (\<lambda>s5.
          bindR (map_low c 0x1000 s5) (\<lambda>s6. map_entries c es s6))))"
  have "boots s2 ([] @ vmm_maps kend kphys kvirt es) r" unfolding r_def vmm_maps_def
    by (rule boots_bind [OF init_levels_boots [OF k]], simp)
      (rule boots_bind [OF map_kernel_boots], assumption, rule boots_bind [OF map_or_panic_boots], assumption,
        rule boots_bind [OF map_low_boots], assumption, erule map_entries_boots)
  moreover have "vmm_init c kend kphys kvirt es s = bindR r (\<lambda>s7. Inr (switch_pagemap (g_kernel_pagemap s7) s7))"
    using s1(1) table_phys_nonzero [OF t(1), of "[]" a]
    by (simp add: vmm_init_def r_def s2_def Let_def bindR_assoc)
  moreover have "\<exists>T. kernel_pt s7 T \<and> pt_abs s7 T = boot_update (\<lambda>_. 0) (vmm_maps kend kphys kvirt es)"
    if "vm_maps s2 (vmm_maps kend kphys kvirt es) s7" for s7
    using that k t(2) unfolding vm_maps_def by (metis pt_fields(6) s2_def)
  ultimately show ?thesis by (cases r) (auto simp: boots_def switch_pagemap_def kernel_pt_def)
qed

lemma boot_update_snoc: "boot_update m (V @ [(w, q)]) x = (if vpage w = x then q OR 3 else boot_update m V x)"
  by simp

lemma boot_update_none: "(\<And>w q. (w, q) \<in> set V \<Longrightarrow> vpage w \<noteq> x) \<Longrightarrow> boot_update m V x = m x"
proof (induction V rule: rev_induct)
  case (snoc vp V)
  obtain v p where "vp = (v, p)" by fastforce
  then show ?case using snoc by (auto simp: boot_update_snoc simp del: boot_update_simps(3))
qed simp

lemma boot_update_lookup:
  assumes "(v, p) \<in> set V" and "\<And>w q. (w, q) \<in> set V \<Longrightarrow> vpage w = vpage v \<Longrightarrow> q OR 3 = p OR 3"
  shows "boot_update m V (vpage v) = p OR 3"
  using assms
proof (induction V rule: rev_induct)
  case (snoc wq V)
  obtain w q where wq: "wq = (w, q)" by fastforce
  show ?case
  proof (cases "vpage w = vpage v")
    case True
    then show ?thesis using snoc.prems(2) [of w q] by (simp add: wq boot_update_snoc del: boot_update_simps(3))
  next
    case False
    then have "(v, p) \<in> set V" using snoc.prems(1) wq by auto
    then have "boot_update m V (vpage v) = p OR 3" by (rule snoc.IH) (use snoc.prems(2) in auto)
    then show ?thesis using False by (simp add: wq boot_update_snoc del: boot_update_simps(3))
  qed
qed simp

text \<open>Page numbers: bits 12 to 47 of an address as a number.\<close>

lemma vpage_eq_num: "vpage v = vpage w \<longleftrightarrow> unat v div 0x1000 mod 2 ^ 36 = unat w div 0x1000 mod 2 ^ 36"
proof -
  have "unat (take_bit 36 (drop_bit 12 u) :: u64) = unat u div 0x1000 mod 2 ^ 36" for u :: u64
    using unat_u64_bound [of u] by (simp add: unsigned_take_bit_eq unsigned_drop_bit_eq take_bit_nat_def drop_bit_nat_def min_def)
  then show ?thesis unfolding vpage_eq_iff by (metis unat_inject)
qed

lemma low_page_number: "k < 2 ^ 46 \<Longrightarrow> unat (of_nat k :: u64) div 0x1000 mod 2 ^ 36 = k div 0x1000"
  by (simp add: unat_of_nat_u64)

lemma window_page_number:
  assumes "k < 2 ^ 46"
  shows "unat (of_nat k + HIGHER_HALF) div 0x1000 mod 2 ^ 36 = 2 ^ 35 + k div 0x1000"
proof -
  have "unat (of_nat k + HIGHER_HALF) = k + 0xFFFF800000000 * 0x1000"
    using assms by (subst unat_add_small) (simp_all add: unat_of_nat_u64)
  then have "unat (of_nat k + HIGHER_HALF) div 0x1000 = k div 0x1000 + 0xFFFF800000000" by simp
  also have "\<dots> = (2 ^ 35 + k div 0x1000) + 0xFFFF * 2 ^ 36" by simp
  finally have "unat (of_nat k + HIGHER_HALF) div 0x1000 mod 2 ^ 36 = (2 ^ 35 + k div 0x1000) mod 2 ^ 36" by (simp only: mod_mult_self1)
  then show ?thesis using assms by simp
qed

lemma image_page_number:
  assumes "0xFFFFC00000000000 \<le> unat (v :: u64)"
  shows "unat v div 0x1000 mod 2 ^ 36 = unat v div 0x1000 - 0xFFFF000000000" and "2 ^ 35 + 2 ^ 34 \<le> unat v div 0x1000 mod 2 ^ 36"
proof -
  have "0xFFFFC00000000 \<le> unat v div 0x1000" "unat v div 0x1000 < 0x10000000000000"
    using assms unat_u64_bound [of v] by simp_all
  then have "unat v div 0x1000 = (unat v div 0x1000 - 0xFFFF000000000) + 0xFFFF * 2 ^ 36" "unat v div 0x1000 - 0xFFFF000000000 < 2 ^ 36"
    by simp_all
  then show "unat v div 0x1000 mod 2 ^ 36 = unat v div 0x1000 - 0xFFFF000000000" by (metis mod_less mod_mult_self1)
  then show "2 ^ 35 + 2 ^ 34 \<le> unat v div 0x1000 mod 2 ^ 36" using \<open>0xFFFFC00000000 \<le> unat v div 0x1000\<close> by simp
qed

text \<open>Where the mappings of \<^verbatim>\<open>vmm_init\<close> come from.\<close>

lemma vmm_maps_cases:
  assumes "(w, q) \<in> set (vmm_maps kend kphys kvirt es)"
    and "\<forall>e\<in>set es. unat (align_up (mm_base e + mm_length e) PAGE_SIZE) \<le> 2 ^ 46"
  obtains (image) i where "w = kvirt + of_nat i" "q = kphys + of_nat i" "i < unat (align_up kend PAGE_SIZE - kvirt)" "0x1000 dvd i"
    | (low) k where "w = of_nat k" "q = of_nat k" "k < 2 ^ 46" "0x1000 \<le> k" "0x1000 dvd k"
    | (window) k where "w = of_nat k + HIGHER_HALF" "q = of_nat k" "k < 2 ^ 46" "0x1000 dvd k"
proof -
  have dvd: "0x1000 dvd unat (align_down b PAGE_SIZE)" for b by (simp add: unat_align_down)
  have both: thesis if "(w, q) \<in> set (both_maps k)" "k < 2 ^ 46" "0x1000 \<le> k" "0x1000 dvd k" for k
    using that low [of k] window [of k] by (auto simp: both_maps_def)
  from assms(1) consider (a) i where "i \<in> set (page_steps 0 (unat (align_up kend PAGE_SIZE - kvirt)))" "w = kvirt + of_nat i" "q = kphys + of_nat i"
    | (b) "w = HIGHER_HALF" "q = 0" | (c) k where "k \<in> set (page_steps 0x1000 0x100000000)" "(w, q) \<in> set (both_maps k)"
    | (d) e k where "e \<in> set es" "k \<in> set (page_steps (unat (align_down (mm_base e) PAGE_SIZE)) (unat (align_up (mm_base e + mm_length e) PAGE_SIZE)))"
      "(w, q) \<in> set (high_maps k)"
    by (auto simp: vmm_maps_def entry_maps_def Let_def split: if_splits)
  then show thesis
  proof cases
    case a
    then show thesis using image [of i] by (auto simp: set_page_steps)
  next
    case b
    then show thesis using window [of 0] by simp
  next
    case c
    then show thesis using both [of k] by (auto simp: set_page_steps)
  next
    case d
    then have "k < 2 ^ 46" "0x1000 dvd k" using assms(2) dvd [of "mm_base e"] by (auto simp: set_page_steps)
    then show thesis using both [of k] d(3) by (auto simp: high_maps_def split: if_splits)
  qed
qed

text \<open>Equal page numbers inside one zone are equal pages, and the three zones are apart.\<close>

lemma image_addr:
  assumes "kvirt \<le> align_up kend PAGE_SIZE" and "i < unat (align_up kend PAGE_SIZE - kvirt)"
  shows "unat (kvirt + of_nat i) = unat kvirt + i"
proof -
  have "unat (align_up kend PAGE_SIZE - kvirt) = unat (align_up kend PAGE_SIZE) - unat kvirt"
    using assms(1) by (intro unat_sub_small) (simp add: word_le_nat_alt)
  then have "unat kvirt + i < 2 ^ 64" using assms(2) unat_u64_bound [of "align_up kend PAGE_SIZE"] by linarith
  then show ?thesis by (rule unat_add_of_nat)
qed

lemma dvd_div_inject: "(0x1000 :: nat) dvd a \<Longrightarrow> 0x1000 dvd b \<Longrightarrow> a div 0x1000 = b div 0x1000 \<Longrightarrow> a = b"
  by (metis dvd_div_mult_self)

lemma vmm_maps_functional:
  assumes es: "\<forall>e\<in>set es. unat (align_up (mm_base e + mm_length e) PAGE_SIZE) \<le> 2 ^ 46"
    and k: "0xFFFFC00000000000 \<le> unat kvirt" "kvirt \<le> align_up kend PAGE_SIZE" "0x1000 dvd unat kvirt"
    and v: "(v, p) \<in> set (vmm_maps kend kphys kvirt es)" and w: "(w, q) \<in> set (vmm_maps kend kphys kvirt es)"
    and eq: "vpage w = vpage v"
  shows "q = p"
proof -
  note num = eq [unfolded vpage_eq_num]
  have small: "m div 0x1000 < 2 ^ 34" if "m < 2 ^ 46" for m :: nat using that by simp
  have img: "unat (kvirt + of_nat i) div 0x1000 mod 2 ^ 36 = (unat kvirt + i) div 0x1000 - 0xFFFF000000000"
    "2 ^ 35 + 2 ^ 34 \<le> unat (kvirt + of_nat i) div 0x1000 mod 2 ^ 36" "0xFFFFC00000000 \<le> (unat kvirt + i) div 0x1000"
    if "i < unat (align_up kend PAGE_SIZE - kvirt)" for i
    using image_page_number [of "kvirt + of_nat i"] image_addr [OF k(2) that] k(1) by simp_all
  from v es show ?thesis
  proof (cases rule: vmm_maps_cases)
    case v: (image i)
    from w es show ?thesis
    proof (cases rule: vmm_maps_cases)
      case (image j)
      have "(unat kvirt + i) div 0x1000 = (unat kvirt + j) div 0x1000"
        using num img [OF v(3)] img [OF image(3)] unfolding v(1) image(1) by linarith
      from dvd_div_inject [OF dvd_add [OF k(3) v(4)] dvd_add [OF k(3) image(4)] this] have "i = j" by simp
      then show ?thesis using v(2) image(2) by simp
    next
      case (low m)
      then show ?thesis using num img(2) [OF v(3)] small [OF low(3)] low_page_number [OF low(3)] unfolding v(1) by simp
    next
      case (window m)
      then show ?thesis using num img(2) [OF v(3)] small [OF window(3)] window_page_number [OF window(3)] unfolding v(1) by simp
    qed
  next
    case v: (low i)
    from w es show ?thesis
    proof (cases rule: vmm_maps_cases)
      case (image j)
      then show ?thesis using num img(2) [OF image(3)] small [OF v(3)] low_page_number [OF v(3)] unfolding v(1) by simp
    next
      case (low m)
      have "i div 0x1000 = m div 0x1000"
        using num low_page_number [OF v(3)] low_page_number [OF low(3)] unfolding v(1) low(1) by simp
      from dvd_div_inject [OF v(5) low(5) this] show ?thesis using v(2) low(2) by simp
    next
      case (window m)
      then show ?thesis using num small [OF v(3)] low_page_number [OF v(3)] window_page_number [OF window(3)] unfolding v(1) by simp
    qed
  next
    case v: (window i)
    from w es show ?thesis
    proof (cases rule: vmm_maps_cases)
      case (image j)
      then show ?thesis using num img(2) [OF image(3)] small [OF v(3)] window_page_number [OF v(3)] unfolding v(1) by simp
    next
      case (low m)
      then show ?thesis using num small [OF low(3)] low_page_number [OF low(3)] window_page_number [OF v(3)] unfolding v(1) by simp
    next
      case (window m)
      have "i div 0x1000 = m div 0x1000"
        using num window_page_number [OF v(3)] window_page_number [OF window(3)] unfolding v(1) window(1) by simp
      from dvd_div_inject [OF v(4) window(4) this] show ?thesis using v(2) window(2) by simp
    qed
  qed
qed

section \<open>New page maps\<close>

lemma zero_lower_spec:
  assumes "pmm_wf s" and "table_frame s f" and "n \<le> 256" and "\<forall>j<512. pt_entry s f j = 0"
  shows "pmm_wf (zero_lower (frame_addr f) n s)" and "table_frame (zero_lower (frame_addr f) n s) g = table_frame s g"
    and "g < 2 ^ 35 \<Longrightarrow> j < 512 \<Longrightarrow> pt_entry (zero_lower (frame_addr f) n s) g j = pt_entry s g j"
    and "pmm_state.more (zero_lower (frame_addr f) n s) = pmm_state.more s"
proof -
  let ?P = "\<lambda>s'. pmm_wf s' \<and> (\<forall>g. table_frame s' g = table_frame s g) \<and>
    (\<forall>g j. g < 2 ^ 35 \<longrightarrow> j < 512 \<longrightarrow> pt_entry s' g j = pt_entry s g j) \<and> pmm_state.more s' = pmm_state.more s"
  have "?P (zero_lower (frame_addr f) n s)" using assms(3)
  proof (induction n)
    case (Suc n)
    then have IH: "?P (zero_lower (frame_addr f) n s)" by simp
    have a: "frame_addr f + of_nat n * 8 = in_frame f (8 * n)" by (simp add: in_frame_def mult.commute)
    have i: "n < 512" using Suc.prems by simp
    have tf: "pmm_wf (zero_lower (frame_addr f) n s)" "table_frame (zero_lower (frame_addr f) n s) f" using IH assms(2) by simp_all
    note st = entry_store [OF tf i refl, where v = 0]
    show ?case unfolding zero_lower.simps Let_def a using IH st assms(4) by simp
  qed (use assms(1) in simp)
  then show "pmm_wf (zero_lower (frame_addr f) n s)" "table_frame (zero_lower (frame_addr f) n s) g = table_frame s g"
    "g < 2 ^ 35 \<Longrightarrow> j < 512 \<Longrightarrow> pt_entry (zero_lower (frame_addr f) n s) g j = pt_entry s g j"
    "pmm_state.more (zero_lower (frame_addr f) n s) = pmm_state.more s" by blast+
qed

lemma copy_higher_spec:
  assumes "pmm_wf s" and "table_frame s f" and "table_frame s t" and "f \<noteq> t" and "n \<le> 256"
  shows "pmm_wf (copy_higher (frame_addr f) (frame_addr t) n s)"
    and "table_frame (copy_higher (frame_addr f) (frame_addr t) n s) g = table_frame s g"
    and "g < 2 ^ 35 \<Longrightarrow> j < 512 \<Longrightarrow> pt_entry (copy_higher (frame_addr f) (frame_addr t) n s) g j =
      (if g = f \<and> 256 \<le> j \<and> j < 256 + n then pt_entry s t j else pt_entry s g j)"
    and "pmm_state.more (copy_higher (frame_addr f) (frame_addr t) n s) = pmm_state.more s"
proof -
  have t35: "t < 2 ^ 35" using assms(1,3) by (simp add: table_frame_def pmm_wf_def pmm_inv_def bitmap_ok_def)
  let ?P = "\<lambda>n s'. pmm_wf s' \<and> (\<forall>g. table_frame s' g = table_frame s g) \<and>
    (\<forall>g j. g < 2 ^ 35 \<longrightarrow> j < 512 \<longrightarrow> pt_entry s' g j = (if g = f \<and> 256 \<le> j \<and> j < 256 + n then pt_entry s t j else pt_entry s g j)) \<and>
    pmm_state.more s' = pmm_state.more s"
  have "?P n (copy_higher (frame_addr f) (frame_addr t) n s)" using assms(5)
  proof (induction n)
    case (Suc n)
    let ?s = "copy_higher (frame_addr f) (frame_addr t) n s"
    have IH: "?P n ?s" using Suc by simp
    have a: "frame_addr g + of_nat (256 + n) * 8 = in_frame g (8 * (256 + n))" for g
      by (simp add: in_frame_def algebra_simps)
    have i: "256 + n < 512" using Suc.prems by simp
    have tf: "pmm_wf ?s" "table_frame ?s f" using IH assms(2) by simp_all
    have v: "ld64 ?s (in_frame t (8 * (256 + n))) = pt_entry s t (256 + n)"
    proof -
      have "pt_entry ?s t (256 + n) = pt_entry s t (256 + n)" using IH t35 i assms(4) by auto
      then show ?thesis by (simp only: pt_entry_def ld64_def)
    qed
    note st = entry_store [OF tf i refl, where v = "pt_entry s t (256 + n)"]
    show ?case unfolding copy_higher.simps Let_def a v using IH st by (auto simp: less_Suc_eq)
  qed (use assms(1) in auto)
  then show "pmm_wf (copy_higher (frame_addr f) (frame_addr t) n s)"
    "table_frame (copy_higher (frame_addr f) (frame_addr t) n s) g = table_frame s g"
    "g < 2 ^ 35 \<Longrightarrow> j < 512 \<Longrightarrow> pt_entry (copy_higher (frame_addr f) (frame_addr t) n s) g j =
      (if g = f \<and> 256 \<le> j \<and> j < 256 + n then pt_entry s t j else pt_entry s g j)"
    "pmm_state.more (copy_higher (frame_addr f) (frame_addr t) n s) = pmm_state.more s" by blast+
qed

text \<open>The tree of a new page map: its own top-level table over the kernel's subtrees of the higher half.\<close>

definition share_tree :: "nat \<Rightarrow> pt_tree \<Rightarrow> pt_tree" where
  "share_tree a K p = (case p of [] \<Rightarrow> Some a | i # r \<Rightarrow> if 256 \<le> i then K p else None)"

lemma share_tree_ok:
  assumes "tree_ok K" and "a \<notin> ran K"
  shows "tree_ok (share_tree a K)"
  unfolding tree_ok_def
proof (intro conjI allI impI)
  fix p q f assume "share_tree a K p = Some f" "share_tree a K q = Some f"
  then show "p = q" using assms unfolding tree_ok_def
    by (auto simp: share_tree_def ran_def split: list.splits if_splits)
next
  fix p :: "nat list" and i :: nat assume "share_tree a K (p @ [i]) \<noteq> None"
  then have K: "K (p @ [i]) \<noteq> None" "p = [] \<or> 256 \<le> hd p"
    by (cases p; auto simp: share_tree_def split: if_splits)+
  then have k: "K p \<noteq> None \<and> i < 512 \<and> length p < 3" using assms(1) unfolding tree_ok_def by blast
  then show "i < 512" "length p < 3" by blast+
  show "share_tree a K p \<noteq> None" using k K(2) by (auto simp: share_tree_def split: list.split)
qed

lemma new_pagemap_spec:
  assumes k: "kernel_pt s K" and r: "new_pagemap c s = Inr (pagemap, s')"
  shows "\<exists>a. pt_inv s' (share_tree a K) \<and> pt_root pagemap (share_tree a K) \<and> kernel_pt s' K \<and> pt_abs s' K = pt_abs s K \<and>
    pt_abs s' (share_tree a K) = (\<lambda>(i4, i3, i2, i1). if i4 < 256 then 0 else pt_abs s K (i4, i3, i2, i1)) \<and>
    pm_lock pagemap = LOCK_INITIALIZER (Some ''pagemap->lock'') \<and> mmap_ranges pagemap = 0 \<and> mmap_range_count pagemap = 0"
proof -
  obtain t where t: "K [] = Some t" "top_level (g_kernel_pagemap s) = of_nat t * PAGE_SIZE" and inv0: "pt_inv s K"
    using k by (auto simp: kernel_pt_def pt_root_def)
  have wf: "pmm_wf s" using inv0 by (simp add: pt_inv_def)
  obtain a s1 where s1: "pmm_alloc c 1 s = Inr (of_nat a * PAGE_SIZE, s1)" "pmm_alloc_post s a 1 s1" "pmm_wf s1"
    using pmm_alloc_spec [OF wf, of 1 c] r by (cases "next_fit 1 s") (auto simp: new_pagemap_def)
  note al = alloc_keeps_tree [OF inv0 s1(2,3)]
  have more: "g_kernel_pagemap s1 = g_kernel_pagemap s" using s1(2) vm_fields_more(1) [of s1 s] by (simp add: pmm_alloc_post_def)
  have at: "a \<noteq> t" and tt: "table_frame s1 t" using al(3) t(1) pt_invD(1) [OF al(1) t(1)] by (auto simp: ran_def)
  define s2 where "s2 = zero_lower (frame_addr a) 256 s1"
  define s3 where "s3 = copy_higher (frame_addr a) (frame_addr t) 256 s2"
  have "\<forall>j<512. pt_entry s1 a j = 0" using al(5) by blast
  note z = zero_lower_spec [OF s1(3) al(4) le_refl this, folded s2_def]
  have tf2: "table_frame s2 a" "table_frame s2 t" using z(2) al(4) tt by simp_all
  note cp = copy_higher_spec [OF z(1) tf2 at le_refl, folded s3_def]
  have res: "pagemap = \<lparr>pm_lock = LOCK_INITIALIZER (Some ''pagemap->lock''), top_level = of_nat a * PAGE_SIZE, mmap_ranges = 0,
      mmap_range_count = 0\<rparr>" "s' = s3"
    using r s1(1) by (auto simp: new_pagemap_def Let_def phys_frame more t(2) s2_def s3_def split: if_splits)
  have old: "pt_entry s3 g j = pt_entry s g j" if "K p = Some g" "j < 512" for p g j
    using cp(3) [OF pt_invD(2) [OF inv0 that(1)] that(2)] z(3) [OF pt_invD(2) [OF inv0 that(1)] that(2)] al(3,6) that
    by (auto simp: ran_def)
  have a35: "a < 2 ^ 35" using al(4) s1(3) by (simp add: table_frame_def pmm_wf_def pmm_inv_def bitmap_ok_def)
  have new: "pt_entry s3 a j = (if 256 \<le> j then pt_entry s t j else 0)" if "j < 512" for j
    using cp(3) [OF a35 that] z(3) [OF a35 that] z(3) [OF pt_invD(2) [OF inv0 t(1)] that] al(5) [OF that] al(6) [OF t(1) that] that
    by auto
  have tf: "table_frame s3 g" if "K p = Some g" for p g using cp(2) z(2) pt_invD(1) [OF al(1) that] by simp
  have "links s3 K" using inv0 old unfolding pt_inv_def links_def by (simp cong: option.case_cong)
  then have "pt_inv s3 K" using cp(1) tf inv0 by (simp add: pt_inv_def)
  moreover have "g_kernel_pagemap s3 = g_kernel_pagemap s" using cp(4) z(4) vm_fields_more(1) more by metis
  ultimately have "kernel_pt s3 K" using k by (simp add: kernel_pt_def)
  moreover have "pt_abs s3 K = pt_abs s K" using old by (auto simp: pt_abs_def fun_eq_iff split: option.split)
  moreover have "pt_inv s3 (share_tree a K)"
  proof -
    have ok: "tree_ok K" and l: "links s K" using inv0 by (simp_all add: pt_inv_def)
    have "tree_ok (share_tree a K)" by (rule share_tree_ok [OF ok al(3)])
    moreover have "table_frame s3 g" if "share_tree a K p = Some g" for p g
      using that tf al(4) cp(2) z(2) by (auto simp: share_tree_def split: list.splits if_splits)
    moreover have "links s3 (share_tree a K)" unfolding links_def
    proof (intro allI impI)
      fix p :: "nat list" and f i :: nat assume p: "share_tree a K p = Some f" "length p < 3" "i < 512"
      show "case share_tree a K (p @ [i]) of None \<Rightarrow> pt_entry s3 f i AND 1 = 0
        | Some g \<Rightarrow> pt_entry s3 f i AND 1 \<noteq> 0 \<and> pt_entry s3 f i AND NOT 0xFFF = of_nat g * PAGE_SIZE"
      proof (cases p)
        case Nil
        have "case K ([] @ [i]) of None \<Rightarrow> pt_entry s t i AND 1 = 0
            | Some g \<Rightarrow> pt_entry s t i AND 1 \<noteq> 0 \<and> pt_entry s t i AND NOT 0xFFF = of_nat g * PAGE_SIZE"
          using l t(1) p(3) unfolding links_def by (metis list.size(3) zero_less_numeral)
        then show ?thesis using Nil p(1) new [OF p(3)] by (auto simp: share_tree_def split: option.splits)
      next
        case (Cons h r)
        then have K: "K p = Some f" "share_tree a K (p @ [i]) = K (p @ [i])" using p(1) by (auto simp: share_tree_def split: if_splits)
        show ?thesis unfolding K(2) old [OF K(1) p(3)] using l K(1) p(2,3) unfolding links_def by blast
      qed
    qed
    ultimately show ?thesis using cp(1) by (simp add: pt_inv_def)
  qed
  moreover have "pt_abs s3 (share_tree a K) = (\<lambda>(i4, i3, i2, i1). if i4 < 256 then 0 else pt_abs s K (i4, i3, i2, i1))"
    using old by (auto simp: pt_abs_def share_tree_def fun_eq_iff split: option.split)
  moreover have "pt_root pagemap (share_tree a K)" by (simp add: res pt_root_def share_tree_def)
  ultimately show ?thesis using res by auto
qed

text \<open>
  C14: A new page map has an empty lower half and the kernel's mappings in the higher half, its lock is free
  and it has no ranges; the kernel's own page map is unchanged.
\<close>

theorem new_pagemap_shares_kernel:
  assumes "kernel_pt s K" and "new_pagemap c s = Inr (pagemap, s')"
  shows "\<exists>T. pt_inv s' T \<and> pt_root pagemap T \<and> kernel_pt s' K \<and> pt_abs s' K = pt_abs s K \<and>
    pt_abs s' T = (\<lambda>(i4, i3, i2, i1). if i4 < 256 then 0 else pt_abs s K (i4, i3, i2, i1)) \<and>
    lock_idle (pm_lock pagemap) \<and> mmap_range_count pagemap = 0"
  using new_pagemap_spec [OF assms] by (auto simp: LOCK_INITIALIZER_def lock_idle_def)

section \<open>What boot maps\<close>

lemma page_steps_member: "lo \<le> k \<Longrightarrow> k < hi \<Longrightarrow> 0x1000 dvd lo \<Longrightarrow> 0x1000 dvd k \<Longrightarrow> k \<in> set (page_steps lo hi)"
  unfolding set_page_steps by (metis dvd_def dvd_diff_nat le_add_diff_inverse)

text \<open>The physical pages the boot code promises to reach: the first four gibibytes and all entries of the memory map.\<close>

definition boot_phys :: "memmap_entry list \<Rightarrow> nat \<Rightarrow> bool" where
  "boot_phys es k \<longleftrightarrow> 0x1000 dvd k \<and> (k < 0x100000000 \<or> (\<exists>e\<in>set es. unat (align_down (mm_base e) PAGE_SIZE) \<le> k \<and>
     k < unat (align_up (mm_base e + mm_length e) PAGE_SIZE)))"

lemma vmm_maps_members:
  shows "i < unat (align_up kend PAGE_SIZE - kvirt) \<Longrightarrow> 0x1000 dvd i \<Longrightarrow>
      (kvirt + of_nat i, kphys + of_nat i) \<in> set (vmm_maps kend kphys kvirt es)"
    and "boot_phys es k \<Longrightarrow> (of_nat k + HIGHER_HALF, of_nat k) \<in> set (vmm_maps kend kphys kvirt es)"
    and "boot_phys es k \<Longrightarrow> 0 < k \<Longrightarrow> (of_nat k, of_nat k) \<in> set (vmm_maps kend kphys kvirt es)"
proof -
  show "(kvirt + of_nat i, kphys + of_nat i) \<in> set (vmm_maps kend kphys kvirt es)"
    if "i < unat (align_up kend PAGE_SIZE - kvirt)" "0x1000 dvd i"
    using page_steps_member [of 0 i] that by (auto simp: vmm_maps_def)
  have low: "set (both_maps k) \<subseteq> set (vmm_maps kend kphys kvirt es)" if k: "k < 0x100000000" "0x1000 dvd k" "0 < k"
  proof -
    have "k \<in> set (page_steps 0x1000 0x100000000)" using k dvd_imp_le [OF k(2,3)] by (intro page_steps_member) simp_all
    then show ?thesis unfolding vmm_maps_def by auto
  qed
  have both: "set (both_maps k) \<subseteq> set (vmm_maps kend kphys kvirt es)" if k: "boot_phys es k" "0 < k"
  proof (cases "k < 0x100000000")
    case True
    then show ?thesis using low k by (simp add: boot_phys_def)
  next
    case False
    then obtain e where e: "e \<in> set es" "unat (align_down (mm_base e) PAGE_SIZE) \<le> k"
      "k < unat (align_up (mm_base e + mm_length e) PAGE_SIZE)" "0x1000 dvd k" using k by (auto simp: boot_phys_def)
    have dvd: "0x1000 dvd unat (align_down (mm_base e) PAGE_SIZE)" by (simp add: unat_align_down)
    have "\<not> align_up (mm_base e + mm_length e) PAGE_SIZE \<le> FOUR_GIGS" using e(3) False by (simp add: word_le_nat_alt)
    moreover have "k \<in> set (page_steps (unat (align_down (mm_base e) PAGE_SIZE)) (unat (align_up (mm_base e + mm_length e) PAGE_SIZE)))"
      by (rule page_steps_member [OF e(2,3) dvd e(4)])
    moreover have "high_maps k = both_maps k" using False by (simp add: high_maps_def)
    ultimately have "set (both_maps k) \<subseteq> set (entry_maps e)" by (force simp: entry_maps_def Let_def)
    then show ?thesis using e(1) by (auto simp: vmm_maps_def)
  qed
  show "(of_nat k + HIGHER_HALF, of_nat k) \<in> set (vmm_maps kend kphys kvirt es)" if "boot_phys es k"
  proof (cases "k = 0")
    case True
    then show ?thesis by (simp add: vmm_maps_def)
  next
    case False
    then show ?thesis using both [OF that] by (simp add: both_maps_def)
  qed
  show "(of_nat k, of_nat k) \<in> set (vmm_maps kend kphys kvirt es)" if "boot_phys es k" "0 < k"
    using both [OF that] by (simp add: both_maps_def)
qed


section \<open>The contiguous-page helpers\<close>

text \<open>
  The inner loop clears the low bits of the entry before it tests the present bit, so the test never
  succeeds: page 0 is always reported free, and the return value 0 also means failure.
\<close>

lemma masked_not_present: "(x AND NOT 0xFFF) AND 1 = (0 :: u64)"
proof -
  have m: "(0xFFF :: u64) = mask 12" "(1 :: u64) = mask 1" by (simp_all add: mask_eq_exp_minus_1)
  show ?thesis unfolding m by (rule bit_eqI) (auto simp: bit_simps)
qed

lemma probe_pages_found: "probe_pages c pagemap i n s = Inr (found, s') \<Longrightarrow> found"
  by (induction n arbitrary: s) (auto simp: Let_def masked_not_present [simplified] split: if_splits)

theorem find_contiguous_pages_useless:
  "case find_contiguous_pages c pagemap count s of
     None \<Rightarrow> False | Some (Inl e) \<Rightarrow> True | Some (Inr (p, s')) \<Rightarrow> p = 0"
proof -
  have "find_pages_from c pagemap count 0 s =
      (case probe_pages c pagemap 0 (unat count) s of Inl e \<Rightarrow> Some (Inl e) | Inr (found, s1) \<Rightarrow> Some (Inr (0, s1)))"
    using probe_pages_found [of c pagemap 0 "unat count" s]
    by (subst find_pages_from.simps) (auto split: sum.split)
  then show ?thesis by (auto simp: find_contiguous_pages_def split: sum.split)
qed

text \<open>
  The loop advances by single bytes, so up to 4096 \<open>contiguous pages\<close> from a page boundary all map the
  same page, and its entry ends up at the last byte's address.
\<close>

lemma same_page:
  assumes "virt AND 0xFFF = (0 :: u64)" and "n < 0x1000"
  shows "vpage (virt + of_nat n) = vpage virt"
proof -
  have "take_bit 12 virt = 0" using assms(1) by (simp add: take_bit_eq_mask mask_eq_exp_minus_1)
  then have "unat (take_bit 12 virt) = 0" by simp
  then have "unat virt mod 0x1000 = 0" by (simp add: unsigned_take_bit_eq take_bit_nat_def)
  then obtain k where k: "unat virt = 0x1000 * k" by (metis dvd_def mod_0_imp_dvd)
  have "k < 2 ^ 52" using k unat_u64_bound [of virt] by simp
  then have "unat (virt + of_nat n) = n + k * 0x1000" using assms(2) k by (subst unat_add_of_nat) simp_all
  then have "unat (virt + of_nat n) div 0x1000 = k" using assms(2) by simp
  then show ?thesis unfolding vpage_eq_num using k by simp
qed

lemma map_pages_up_one_page:
  assumes "pt_inv s T" and "pt_root pagemap T" and "virt AND 0xFFF = 0" and "k + Suc n \<le> 0x1000"
    and "map_pages_up c pagemap (virt + of_nat k) (phys + of_nat k) flags (Suc n) s = Inr (ok, s')"
  shows "\<exists>T'. pt_inv s' T' \<and> pt_root pagemap T' \<and> pt_abs s' T' = (pt_abs s T)(vpage virt := (phys + of_nat (k + n)) OR flags)"
  using assms(1,2,4,5)
proof (induction n arbitrary: k s T)
  case 0
  then have "map_page c pagemap (virt + of_nat k) (phys + of_nat k) flags s = Inr (True, s')" by (auto split: if_splits)
  then obtain T1 where "T \<subseteq>\<^sub>m T1" "pt_inv s' T1" "pt_abs s' T1 = (pt_abs s T)(vpage virt := (phys + of_nat k) OR flags)"
    using map_page_spec [OF 0(1,2), of "virt + of_nat k" "phys + of_nat k" flags c] same_page [OF assms(3), of k] 0(3) by auto
  then show ?case using pt_root_mono [OF 0(2)] by auto
next
  case (Suc n)
  obtain s1 where m: "map_page c pagemap (virt + of_nat k) (phys + of_nat k) flags s = Inr (True, s1)"
    "map_pages_up c pagemap (virt + of_nat (Suc k)) (phys + of_nat (Suc k)) flags (Suc n) s1 = Inr (ok, s')"
    using Suc.prems(4) by (auto simp: add.commute add.left_commute split: if_splits)
  obtain T1 where t: "T \<subseteq>\<^sub>m T1" "pt_inv s1 T1" "pt_abs s1 T1 = (pt_abs s T)(vpage virt := (phys + of_nat k) OR flags)"
    using map_page_spec [OF Suc.prems(1,2), of "virt + of_nat k" "phys + of_nat k" flags c] same_page [OF assms(3), of k] Suc.prems(3) m(1)
    by auto
  have "Suc k + Suc n \<le> 0x1000" using Suc.prems(3) by simp
  from Suc.IH [OF t(2) pt_root_mono [OF Suc.prems(2) t(1)] this m(2)] show ?case unfolding t(3) fun_upd_upd add_Suc_shift .
qed

theorem map_contiguous_pages_one_page:
  assumes "pt_inv s T" and "pt_root pagemap T" and "virt AND 0xFFF = 0" and "0 < count" and "unat count \<le> 0x1000"
    and "map_contiguous_pages c pagemap virt phys flags count s = Inr (ok, s')"
  shows "\<exists>T'. pt_inv s' T' \<and> pt_abs s' T' = (pt_abs s T)(vpage virt := (phys + (count - 1)) OR flags)"
proof -
  obtain n where n: "unat count = Suc n" using assms(4) by (cases "unat count") (auto simp: unat_eq_0 word_less_nat_alt)
  then have "(of_nat n :: u64) = count - 1" by (metis add_diff_cancel_left' of_nat_Suc of_nat_unat ucast_id)
  then show ?thesis using map_pages_up_one_page [OF assms(1-3), of 0 n c phys flags ok s'] assms(5,6) n
    by (auto simp: map_contiguous_pages_def)
qed

section \<open>A concrete page map\<close>

definition demo_vm :: vm_state where
  "demo_vm = \<lparr>mem = store64 (\<lambda>_. 0) 0xFFFF800000001000 3, pmm_page_count = 8, pmm_bitmap = 0xFFFF800000001000,
     free_pages = 6, last_used_index = 0, pmm_lock = LOCK_INITIALIZER None, slabs = 0, slab_lock = LOCK_INITIALIZER None,
     have_malloc = True, cr3 = 0, invlpgs = [],
     g_kernel_pagemap = \<lparr>pm_lock = LOCK_INITIALIZER None, top_level = 0x2000, mmap_ranges = 0, mmap_range_count = 0\<rparr>\<rparr>"

lemma demo_vm_wf: "pmm_wf demo_vm"
proof -
  have "pmm_wf (demo_pmm 3 0 6)" by (rule demo_pmm_wf) (simp_all add: bit_0 bit_Suc)
  then have "pt_inv (demo_pmm 3 0 6) Map.empty" by (simp add: pt_inv_def tree_ok_def links_def)
  then have "pt_inv demo_vm Map.empty" by (subst pt_cong(1)) (simp_all add: demo_vm_def demo_pmm_def)
  then show ?thesis by (simp add: pt_inv_def)
qed

lemma demo_vm_free: "free_frames demo_vm = {2..<8}"
proof -
  have "page_used demo_vm i \<longleftrightarrow> i < 2" if i: "i < 8" for i
  proof -
    have "page_used demo_vm i = bit (3 :: u64) i"
      using demo_page_used [OF i, of 3 0 6] by (simp add: page_used_def bitmap_testbit_def bitmap_word_def demo_vm_def demo_pmm_def)
    moreover have "(3 :: u64) = mask 2" by (simp add: mask_eq_exp_minus_1)
    ultimately show ?thesis using i by (simp only: bit_mask_iff) simp
  qed
  moreover have "page_total demo_vm = 8" by (simp add: demo_vm_def page_total_def)
  ultimately show ?thesis by (auto simp: free_frames_def)
qed

definition demo_top :: "addr \<Rightarrow> pagemap_t" where
  "demo_top t = \<lparr>pm_lock = LOCK_INITIALIZER None, top_level = t, mmap_ranges = 0, mmap_range_count = 0\<rparr>"

text \<open>An empty page map with five frames left.\<close>

lemma demo_tree:
  obtains t s T where "pmm_alloc (debug_cpu 0) 1 demo_vm = Inr (t, s)" and "pt_inv s T" and "pt_root (demo_top t) T"
    and "3 \<le> card (free_frames s)" and "pt_abs s T = (\<lambda>_. 0)"
proof -
  have "unat (last_used_index demo_vm) \<le> page_total demo_vm" by (simp add: demo_vm_def page_total_def)
  then have "next_fit 1 demo_vm \<noteq> None" using next_fit_one demo_vm_free by fastforce
  then obtain a s where s: "pmm_alloc (debug_cpu 0) 1 demo_vm = Inr (of_nat a * PAGE_SIZE, s)" "pmm_alloc_post demo_vm a 1 s" "pmm_wf s"
    using pmm_alloc_spec [OF demo_vm_wf, of 1 "debug_cpu 0"] by auto
  note t = fresh_tree [OF demo_vm_wf s(2,3)]
  have "free_frames s = {2..<8} - {a}"
    using s(2) unfolding demo_vm_free [symmetric] by (auto simp: pmm_alloc_post_def free_frames_def)
  then have "5 \<le> card (free_frames s)" using card_Diff_singleton_if [of "{2..<8}" a] by simp
  then show thesis using that s(1) t by (simp add: pt_root_def demo_top_def)
qed

theorem map_page_refines_update_witness:
  "\<exists>t s s' T'. pmm_alloc (debug_cpu 0) 1 demo_vm = Inr (t, s) \<and>
     map_page (debug_cpu 0) (demo_top t) 0x400000 0x5000 3 s = Inr (True, s') \<and> pt_inv s' T' \<and>
     pt_abs s' T' (vpage 0x400000) = 0x5003"
proof -
  obtain t s T where d: "pmm_alloc (debug_cpu 0) 1 demo_vm = Inr (t, s)" "pt_inv s T" "pt_root (demo_top t) T" "3 \<le> card (free_frames s)"
    by (rule demo_tree)
  note m = map_page_refines_update [OF d(2,3), of "0x400000" "0x5000" 3 "debug_cpu 0"]
  obtain s' where s': "map_page (debug_cpu 0) (demo_top t) 0x400000 0x5000 3 s = Inr (True, s')"
    using m d(4) by (cases "map_page (debug_cpu 0) (demo_top t) 0x400000 0x5000 3 s") auto
  then obtain T' where T': "pt_inv s' T'" "pt_abs s' T' = (pt_abs s T)(vpage 0x400000 := 0x5000 OR 3)" using m by auto
  have "pt_abs s' T' (vpage 0x400000) = 0x5003" unfolding T'(2) fun_upd_same by simp
  then show ?thesis using d(1) s' T'(1) by blast
qed

theorem map_translate_unmap_witness:
  "\<exists>t s s1. pmm_alloc (debug_cpu 0) 1 demo_vm = Inr (t, s) \<and>
     map_page (debug_cpu 0) (demo_top t) 0x400000 0x5000 3 s = Inr (True, s1) \<and>
     virt2phys (debug_cpu 0) (demo_top t) 0x400000 s1 = Inr (Some 0x5000, s1)"
proof -
  obtain t s T where d: "pmm_alloc (debug_cpu 0) 1 demo_vm = Inr (t, s)" "pt_inv s T" "pt_root (demo_top t) T" "3 \<le> card (free_frames s)"
    by (rule demo_tree)
  obtain s1 where m: "map_page (debug_cpu 0) (demo_top t) 0x400000 0x5000 3 s = Inr (True, s1)"
    using map_page_spec [OF d(2,3), of "0x400000" "0x5000" 3 "debug_cpu 0"] d(4)
    by (cases "map_page (debug_cpu 0) (demo_top t) 0x400000 0x5000 3 s") auto
  have "(0x5000 :: u64) AND 0xFFF = 0" "(3 :: u64) AND NOT 0xFFF = 0" "(3 :: u64) AND 1 = 1" by simp_all
  from map_translate_unmap [OF d(2,3) m this] d(1) m show ?thesis by blast
qed

theorem new_pagemap_shares_kernel_witness:
  "\<exists>t s pagemap s' T. pmm_alloc (debug_cpu 0) 1 demo_vm = Inr (t, s) \<and>
     new_pagemap (debug_cpu 0) (s\<lparr>g_kernel_pagemap := demo_top t\<rparr>) = Inr (pagemap, s') \<and> pt_inv s' T \<and> pt_root pagemap T"
proof -
  obtain t s T where d: "pmm_alloc (debug_cpu 0) 1 demo_vm = Inr (t, s)" "pt_inv s T" "pt_root (demo_top t) T" "3 \<le> card (free_frames s)"
    by (rule demo_tree)
  let ?s = "s\<lparr>g_kernel_pagemap := demo_top t\<rparr>"
  have k: "kernel_pt ?s T" using d(2,3) by (simp add: kernel_pt_def)
  have wf: "pmm_wf ?s" using k by (simp add: kernel_pt_def pt_inv_def)
  have ff: "free_frames ?s = free_frames s" by (simp add: free_frames_def page_total_def page_used_def bitmap_testbit_def bitmap_word_def)
  have "unat (last_used_index ?s) \<le> page_total ?s" using wf by (simp add: pmm_wf_def pmm_inv_def)
  then have "next_fit 1 ?s \<noteq> None" using next_fit_one d(4) ff by fastforce
  then obtain a s1 where "pmm_alloc (debug_cpu 0) 1 ?s = Inr (of_nat a * PAGE_SIZE, s1)" "pmm_alloc_post ?s a 1 s1"
    using pmm_alloc_spec [OF wf, of 1 "debug_cpu 0"] by auto
  moreover from this have "of_nat a * PAGE_SIZE \<noteq> (0 :: u64)"
    using frame_number [of a] wf by (auto simp: pmm_alloc_post_def pmm_wf_def pmm_inv_def bitmap_ok_def)
  ultimately obtain pagemap s' where r: "new_pagemap (debug_cpu 0) ?s = Inr (pagemap, s')" by (simp add: new_pagemap_def Let_def)
  from new_pagemap_shares_kernel [OF k r] d(1) r show ?thesis by blast
qed


end
