(* ===== verification/Tables.thy ===== *)
theory Tables
  imports Prelude "HOL-Library.Multiset"
begin

text \<open>
  Two data structures that the kernel writes out by hand again and again, each with the contract its
  clients rely on.

  A bounded ring is an array of \<^verbatim>\<open>n\<close> slots with a head and a tail index, of which one slot always stays
  empty: the wait queue of a semaphore, the receive queue of a socket.  The locale
  \<^verbatim>\<open>bounded_fifo\<close> states that such a structure is a first-in first-out queue of limited capacity.

  A slot table is an array in which an insertion takes the first free entry: the run queue, the
  process table, the routing table.  The locale \<^verbatim>\<open>slot_table\<close> states what an insertion changes.
\<close>

section \<open>The first index that satisfies a test\<close>

definition first_index :: "('a \<Rightarrow> bool) \<Rightarrow> 'a list \<Rightarrow> nat option" where
  "first_index P xs = List.find (\<lambda>i. P (xs ! i)) [0..<length xs]"

lemma first_index_Some:
  "first_index P xs = Some i \<longleftrightarrow> i < length xs \<and> P (xs ! i) \<and> (\<forall>j<i. \<not> P (xs ! j))"
  unfolding first_index_def find_Some_iff
  by (auto simp: nth_append)

lemma first_index_None: "first_index P xs = None \<longleftrightarrow> (\<forall>x\<in>set xs. \<not> P x)"
  unfolding first_index_def find_None_iff by (metis atLeastLessThan_iff in_set_conv_nth set_upt zero_le)

lemma first_index_bound: "first_index P xs = Some i \<Longrightarrow> i < length xs"
  by (simp add: first_index_Some)

section \<open>Rings\<close>

definition ring_count :: "nat \<Rightarrow> nat \<Rightarrow> nat \<Rightarrow> nat" where
  "ring_count n h t = (t + n - h) mod n"

definition ring_list :: "'a list \<Rightarrow> nat \<Rightarrow> nat \<Rightarrow> 'a list" where
  "ring_list xs h t = map (\<lambda>k. xs ! ((h + k) mod length xs)) [0..<ring_count (length xs) h t]"

lemma ring_count_alt:
  "h < n \<Longrightarrow> t < n \<Longrightarrow> ring_count n h t = (if h \<le> t then t - h else t + n - h)"
  by (auto simp: ring_count_def mod_if)

lemma length_ring_list [simp]: "length (ring_list xs h t) = ring_count (length xs) h t"
  by (simp add: ring_list_def)

lemma ring_count_less: "h < n \<Longrightarrow> t < n \<Longrightarrow> ring_count n h t < n"
  by (auto simp: ring_count_alt)

lemma ring_count_0: "h < n \<Longrightarrow> t < n \<Longrightarrow> ring_count n h t = 0 \<longleftrightarrow> h = t"
  by (auto simp: ring_count_alt)

lemma ring_list_Nil: "h < length xs \<Longrightarrow> t < length xs \<Longrightarrow> ring_list xs h t = [] \<longleftrightarrow> h = t"
  using ring_count_0 length_ring_list by (metis length_0_conv)

lemma Suc_mod_if: "t < n \<Longrightarrow> Suc t mod n = (if Suc t = n then 0 else Suc t)"
  by auto

lemma ring_full:
  "h < n \<Longrightarrow> t < n \<Longrightarrow> Suc t mod n = h \<longleftrightarrow> ring_count n h t = n - 1"
  by (auto simp: Suc_mod_if ring_count_alt split: if_splits)

lemma ring_count_push:
  assumes "h < n" "t < n" "Suc t mod n \<noteq> h"
  shows "ring_count n h (Suc t mod n) = Suc (ring_count n h t)"
  using assms by (auto simp: Suc_mod_if ring_count_alt split: if_splits)

lemma ring_count_pop:
  assumes "h < n" "t < n" "h \<noteq> t"
  shows "ring_count n h t = Suc (ring_count n (Suc h mod n) t)"
  using assms by (auto simp: Suc_mod_if ring_count_alt split: if_splits)

lemma ring_position:
  assumes "h < n" "t < n"
  shows "(h + ring_count n h t) mod n = t"
  using assms by (auto simp: ring_count_alt)

lemma ring_position_neq:
  assumes "h < n" "t < n" "k < ring_count n h t"
  shows "t \<noteq> (h + k) mod n"
proof -
  have "(h + k) mod n = (if h + k < n then h + k else h + k - n)"
    using assms ring_count_less [OF assms(1,2)] by (simp add: le_mod_geq)
  then show ?thesis
    using assms by (auto simp: ring_count_alt split: if_splits)
qed

lemma ring_push:
  assumes "h < length xs" "t < length xs" "Suc t mod length xs \<noteq> h"
  shows "ring_list (xs[t := x]) h (Suc t mod length xs) = ring_list xs h t @ [x]"
proof -
  have "map (\<lambda>k. xs[t := x] ! ((h + k) mod length xs)) [0..<ring_count (length xs) h t] = ring_list xs h t"
    unfolding ring_list_def using ring_position_neq [OF assms(1,2)] by (intro map_cong) auto
  then show ?thesis
    using assms ring_position [OF assms(1,2)] by (simp add: ring_list_def ring_count_push)
qed

lemma ring_pop:
  assumes "h < length xs" "t < length xs" "h \<noteq> t"
  shows "ring_list xs h t = xs ! h # ring_list xs (Suc h mod length xs) t"
  using assms
  by (simp add: ring_list_def ring_count_pop [OF assms] upt_conv_Cons map_Suc_upt [symmetric]
        mod_simps del: upt_Suc map_Suc_upt)

lemma ring_push_other:
  assumes "h < length xs" "t < length xs"
  shows "ring_list (xs[t := x]) h t = ring_list xs h t"
  unfolding ring_list_def length_list_update using ring_position_neq [OF assms] by (intro map_cong) auto

section \<open>The contract of a bounded queue\<close>

fun push_all :: "('a \<Rightarrow> 's \<Rightarrow> 's option) \<Rightarrow> 'a list \<Rightarrow> 's \<Rightarrow> 's option" where
  "push_all push [] s = Some s"
| "push_all push (x # xs) s = Option.bind (push x s) (push_all push xs)"

fun pop_all :: "('s \<Rightarrow> ('a \<times> 's) option) \<Rightarrow> nat \<Rightarrow> 's \<Rightarrow> ('a list \<times> 's) option" where
  "pop_all pop 0 s = Some ([], s)"
| "pop_all pop (Suc n) s =
     (case pop s of None \<Rightarrow> None
      | Some (x, s') \<Rightarrow> map_option (\<lambda>(xs, s''). (x # xs, s'')) (pop_all pop n s'))"

locale bounded_fifo =
  fixes inv :: "'s \<Rightarrow> bool"
    and queue :: "'s \<Rightarrow> 'a list"
    and capacity :: nat
    and push :: "'a \<Rightarrow> 's \<Rightarrow> 's option"
    and pop :: "'s \<Rightarrow> ('a \<times> 's) option"
  assumes push_room:
      "inv s \<Longrightarrow> length (queue s) < capacity \<Longrightarrow>
         \<exists>s'. push x s = Some s' \<and> inv s' \<and> queue s' = queue s @ [x]"
    and push_full: "inv s \<Longrightarrow> capacity \<le> length (queue s) \<Longrightarrow> push x s = None"
    and pop_first: "inv s \<Longrightarrow> queue s = x # xs \<Longrightarrow> \<exists>s'. pop s = Some (x, s') \<and> inv s' \<and> queue s' = xs"
    and pop_empty: "inv s \<Longrightarrow> queue s = [] \<Longrightarrow> pop s = None"
begin

lemma push_succeeds_iff: "inv s \<Longrightarrow> push x s \<noteq> None \<longleftrightarrow> length (queue s) < capacity"
  using push_room [of s x] push_full [of s x] by force

lemma push_all_room:
  "inv s \<Longrightarrow> length (queue s) + length ys \<le> capacity \<Longrightarrow>
     \<exists>s'. push_all push ys s = Some s' \<and> inv s' \<and> queue s' = queue s @ ys"
proof (induction ys arbitrary: s)
  case (Cons y ys)
  then have "length (queue s) < capacity"
    by simp
  then obtain s1 where "push y s = Some s1" "inv s1" "queue s1 = queue s @ [y]"
    using push_room Cons.prems(1) by blast
  then show ?case
    using Cons.IH [of s1] Cons.prems(2) by simp
qed simp

lemma pop_all_prefix:
  "inv s \<Longrightarrow> n \<le> length (queue s) \<Longrightarrow>
     \<exists>s'. pop_all pop n s = Some (take n (queue s), s') \<and> inv s' \<and> queue s' = drop n (queue s)"
proof (induction n arbitrary: s)
  case (Suc n)
  then obtain x xs where q: "queue s = x # xs"
    by (cases "queue s") auto
  then obtain s1 where "pop s = Some (x, s1)" "inv s1" "queue s1 = xs"
    using pop_first Suc.prems(1) by blast
  then show ?case
    using Suc.IH [of s1] Suc.prems(2) q by auto
qed simp

text \<open>What is put into an empty queue comes out again, in the order in which it went in.\<close>

lemma fifo_order:
  assumes "inv s" "queue s = []" "length ys \<le> capacity"
  shows "\<exists>s1 s2. push_all push ys s = Some s1 \<and> pop_all pop (length ys) s1 = Some (ys, s2) \<and>
           inv s2 \<and> queue s2 = []"
proof -
  obtain s1 where s1: "push_all push ys s = Some s1" "inv s1" "queue s1 = ys"
    using push_all_room [of s ys] assms by auto
  obtain s2 where "pop_all pop (length ys) s1 = Some (ys, s2)" "inv s2" "queue s2 = []"
    using pop_all_prefix [of s1 "length ys"] s1 by auto
  with s1 show ?thesis
    by blast
qed

end

section \<open>The contract of a table with a first-free insertion\<close>

locale slot_table =
  fixes slots :: "'s \<Rightarrow> 'e list"
    and free :: "'e \<Rightarrow> bool"
    and put :: "'e \<Rightarrow> 's \<Rightarrow> nat option \<times> 's"
  assumes put_slot:
      "\<not> free e \<Longrightarrow> first_index free (slots s) = Some i \<Longrightarrow>
         fst (put e s) = Some i \<and> slots (snd (put e s)) = (slots s)[i := e]"
    and put_full:
      "\<not> free e \<Longrightarrow> first_index free (slots s) = None \<Longrightarrow> fst (put e s) = None \<and> slots (snd (put e s)) = slots s"
begin

lemma put_outcome:
  assumes "\<not> free e"
  shows "fst (put e s) = first_index free (slots s)"
  using put_slot put_full assms by (cases "first_index free (slots s)") auto

lemma put_none_iff:
  assumes "\<not> free e"
  shows "fst (put e s) = None \<longleftrightarrow> (\<forall>x\<in>set (slots s). \<not> free x)"
  using put_outcome first_index_None assms by metis

lemma put_some:
  assumes "\<not> free e" "fst (put e s) = Some i"
  shows "i < length (slots s)" "free (slots s ! i)" "slots (snd (put e s)) = (slots s)[i := e]"
proof -
  have i: "first_index free (slots s) = Some i"
    using put_outcome [OF assms(1), of s] assms(2) by simp
  then show "i < length (slots s)" "free (slots s ! i)"
    by (simp_all add: first_index_Some)
  show "slots (snd (put e s)) = (slots s)[i := e]"
    using put_slot [OF assms(1) i] by simp
qed

lemma put_length: "\<not> free e \<Longrightarrow> length (slots (snd (put e s))) = length (slots s)"
  using put_some put_full put_outcome by (cases "fst (put e s)") auto

lemma put_entries:
  assumes "\<not> free e" "fst (put e s) = Some i"
  shows "mset (filter (\<lambda>x. \<not> free x) (slots (snd (put e s)))) =
           add_mset e (mset (filter (\<lambda>x. \<not> free x) (slots s)))"
proof -
  note facts = put_some [OF assms]
  have "mset (slots (snd (put e s))) = add_mset e (mset (slots s) - {# slots s ! i #})"
    using facts by (simp add: mset_update)
  then show ?thesis
    using facts assms(1) by (simp add: mset_filter)
qed

end

end
