(* ===== verification/Kio.thy ===== *)
theory Kio
  imports Lock
begin

text \<open>
  Device access: the memory-mapped reads and writes of \<^verbatim>\<open>kernel/include/cpu/kio.h\<close> and the port
  instructions of \<^verbatim>\<open>kernel/include/io/io.h\<close>.

  The devices are not part of the program.  A device is a function from the accesses so far to the
  value that the last one, a read, returns; it is a field of the state, so that every statement
  about a driver holds for every device.  The log keeps the accesses in order, oldest first.
\<close>

datatype bus_access =
    MmIn nat addr
  | MmOut nat addr u64
  | PortIn nat u16
  | PortOut nat u16 u64

record io_state =
  io_log :: "bus_access list"
  io_device :: "bus_access list \<Rightarrow> u64"

definition bus_read :: "bus_access \<Rightarrow> 'a io_state_scheme \<Rightarrow> u64 \<times> 'a io_state_scheme" where
  "bus_read a s = (let log = io_log s @ [a] in (io_device s log, s\<lparr>io_log := log\<rparr>))"

definition bus_write :: "bus_access \<Rightarrow> 'a io_state_scheme \<Rightarrow> 'a io_state_scheme" where
  "bus_write a s = s\<lparr>io_log := io_log s @ [a]\<rparr>"

section \<open>Memory-mapped registers\<close>

definition mmin64 :: "addr \<Rightarrow> 'a io_state_scheme \<Rightarrow> u64 \<times> 'a io_state_scheme" where
  "mmin64 a s = bus_read (MmIn 64 a) s"

definition mmin32 :: "addr \<Rightarrow> 'a io_state_scheme \<Rightarrow> u32 \<times> 'a io_state_scheme" where
  "mmin32 a s = apfst ucast (bus_read (MmIn 32 a) s)"

definition mmin16 :: "addr \<Rightarrow> 'a io_state_scheme \<Rightarrow> u16 \<times> 'a io_state_scheme" where
  "mmin16 a s = apfst ucast (bus_read (MmIn 16 a) s)"

definition mmin8 :: "addr \<Rightarrow> 'a io_state_scheme \<Rightarrow> u8 \<times> 'a io_state_scheme" where
  "mmin8 a s = apfst ucast (bus_read (MmIn 8 a) s)"

definition mmout64 :: "addr \<Rightarrow> u64 \<Rightarrow> 'a io_state_scheme \<Rightarrow> 'a io_state_scheme" where
  "mmout64 a v s = bus_write (MmOut 64 a v) s"

definition mmout32 :: "addr \<Rightarrow> u32 \<Rightarrow> 'a io_state_scheme \<Rightarrow> 'a io_state_scheme" where
  "mmout32 a v s = bus_write (MmOut 32 a (ucast v)) s"

definition mmout16 :: "addr \<Rightarrow> u16 \<Rightarrow> 'a io_state_scheme \<Rightarrow> 'a io_state_scheme" where
  "mmout16 a v s = bus_write (MmOut 16 a (ucast v)) s"

definition mmout8 :: "addr \<Rightarrow> u8 \<Rightarrow> 'a io_state_scheme \<Rightarrow> 'a io_state_scheme" where
  "mmout8 a v s = bus_write (MmOut 8 a (ucast v)) s"

section \<open>Ports\<close>

definition inb :: "u16 \<Rightarrow> 'a io_state_scheme \<Rightarrow> u8 \<times> 'a io_state_scheme" where
  "inb p s = apfst ucast (bus_read (PortIn 8 p) s)"

definition inw :: "u16 \<Rightarrow> 'a io_state_scheme \<Rightarrow> u16 \<times> 'a io_state_scheme" where
  "inw p s = apfst ucast (bus_read (PortIn 16 p) s)"

definition ind :: "u16 \<Rightarrow> 'a io_state_scheme \<Rightarrow> u32 \<times> 'a io_state_scheme" where
  "ind p s = apfst ucast (bus_read (PortIn 32 p) s)"

definition outb :: "u16 \<Rightarrow> u8 \<Rightarrow> 'a io_state_scheme \<Rightarrow> 'a io_state_scheme" where
  "outb p v s = bus_write (PortOut 8 p (ucast v)) s"

definition outw :: "u16 \<Rightarrow> u16 \<Rightarrow> 'a io_state_scheme \<Rightarrow> 'a io_state_scheme" where
  "outw p v s = bus_write (PortOut 16 p (ucast v)) s"

definition outd :: "u16 \<Rightarrow> u32 \<Rightarrow> 'a io_state_scheme \<Rightarrow> 'a io_state_scheme" where
  "outd p v s = bus_write (PortOut 32 p (ucast v)) s"

definition io_wait :: "'a io_state_scheme \<Rightarrow> 'a io_state_scheme" where
  "io_wait s = outb 0x80 0 s"

section \<open>Rules\<close>

named_theorems io_defs \<open>the bus accesses of the device primitives\<close>

lemmas [io_defs] =
  bus_read_def bus_write_def mmin64_def mmin32_def mmin16_def mmin8_def
  mmout64_def mmout32_def mmout16_def mmout8_def
  inb_def inw_def ind_def outb_def outw_def outd_def io_wait_def

text \<open>No access changes the devices' behaviour as a function of the history, nor anything else of the state.\<close>

lemma io_device_bus [simp]:
  "io_device (bus_write a s) = io_device s" "io_device (snd (bus_read a s)) = io_device s"
  "io_state.more (bus_write a s) = io_state.more s" "io_state.more (snd (bus_read a s)) = io_state.more s"
  by (simp_all add: bus_write_def bus_read_def Let_def)

lemma io_log_bus [simp]:
  "io_log (bus_write a s) = io_log s @ [a]" "io_log (snd (bus_read a s)) = io_log s @ [a]"
  "fst (bus_read a s) = io_device s (io_log s @ [a])"
  by (simp_all add: bus_write_def bus_read_def Let_def)

end
