(* ===== verification/Gdt.thy ===== *)
theory Gdt
  imports Kio
begin

text \<open>
  The segment descriptors of \<^verbatim>\<open>kernel/src/gdt/gdt.c\<close>: the table that \<^verbatim>\<open>gdt_init\<close> writes, the task
  state segment that each processor adds to it, and what the processor's own decoding of the bytes
  makes of them.
\<close>

section \<open>Descriptors\<close>

record gdt_entry_t =
  gdt_limit :: u16
  base_low_w :: u16
  base_mid_b :: u8
  gdt_access :: u8
  granularity :: u8
  base_high_b :: u8

record gdt_state =
  gdt_entries :: "gdt_entry_t list"
  gdt_pointer_size :: u16
  gdt_lock :: lock_t
  seg_cs :: u64
  seg_ds :: u64
  seg_es :: u64
  seg_ss :: u64
  seg_fs :: u64
  seg_gs :: u64
  task_register :: u64

definition KERNEL_CODE_SEGMENT :: u64 where "KERNEL_CODE_SEGMENT = 0x28"
definition KERNEL_DATA_SEGMENT :: u64 where "KERNEL_DATA_SEGMENT = 0x30"
definition USER_CODE_SEGMENT :: u64 where "USER_CODE_SEGMENT = 0x43"
definition USER_DATA_SEGMENT :: u64 where "USER_DATA_SEGMENT = 0x3b"
definition TSS_SEGMENT :: u64 where "TSS_SEGMENT = 0x48"

definition GDT_ACCESS_PRESENT :: u8 where "GDT_ACCESS_PRESENT = push_bit 7 1"
definition GDT_ACCESS_RING0 :: u8 where "GDT_ACCESS_RING0 = push_bit 5 0"
definition GDT_ACCESS_RING3 :: u8 where "GDT_ACCESS_RING3 = push_bit 5 3"
definition GDT_ACCESS_DESCRIPTOR_TYPE_TSS :: u8 where "GDT_ACCESS_DESCRIPTOR_TYPE_TSS = push_bit 4 0"
definition GDT_ACCESS_DESCRIPTOR_TYPE_CODE_OR_DATA :: u8 where
  "GDT_ACCESS_DESCRIPTOR_TYPE_CODE_OR_DATA = push_bit 4 1"
definition GDT_ACCESS_EXECUTABLE :: u8 where "GDT_ACCESS_EXECUTABLE = push_bit 3 1"
definition GDT_ACCESS_RW_ENABLE :: u8 where "GDT_ACCESS_RW_ENABLE = push_bit 1 1"
definition GDT_ACCESS_ACCESSED :: u8 where "GDT_ACCESS_ACCESSED = push_bit 0 1"
definition GDT_GRANULARITY_LIMIT_PAGES :: u8 where "GDT_GRANULARITY_LIMIT_PAGES = push_bit 7 1"
definition GDT_GRANULARITY_32BIT :: u8 where "GDT_GRANULARITY_32BIT = push_bit 6 1"
definition GDT_GRANULARITY_64BIT_CODE :: u8 where "GDT_GRANULARITY_64BIT_CODE = push_bit 5 1"
definition GDT_GRANULARITY_LIMIT_HI :: u8 where "GDT_GRANULARITY_LIMIT_HI = 0xF"

lemmas gdt_constants =
  KERNEL_CODE_SEGMENT_def KERNEL_DATA_SEGMENT_def USER_CODE_SEGMENT_def USER_DATA_SEGMENT_def TSS_SEGMENT_def
  GDT_ACCESS_PRESENT_def GDT_ACCESS_RING0_def GDT_ACCESS_RING3_def GDT_ACCESS_DESCRIPTOR_TYPE_TSS_def
  GDT_ACCESS_DESCRIPTOR_TYPE_CODE_OR_DATA_def GDT_ACCESS_EXECUTABLE_def GDT_ACCESS_RW_ENABLE_def
  GDT_ACCESS_ACCESSED_def GDT_GRANULARITY_LIMIT_PAGES_def GDT_GRANULARITY_32BIT_def
  GDT_GRANULARITY_64BIT_CODE_def GDT_GRANULARITY_LIMIT_HI_def

section \<open>The operations\<close>

text \<open>A descriptor with a zero base, from the three fields in which the entries of the table differ.\<close>

definition flat_entry :: "u16 \<Rightarrow> u8 \<Rightarrow> u8 \<Rightarrow> gdt_entry_t" where
  "flat_entry lim acc gran =
     \<lparr>gdt_limit = lim, base_low_w = 0, base_mid_b = 0, gdt_access = acc, granularity = gran, base_high_b = 0\<rparr>"

definition gdt_reload :: "gdt_state \<Rightarrow> gdt_state" where
  "gdt_reload g =
     g\<lparr>gdt_pointer_size := 8 * 13 - 1, seg_cs := KERNEL_CODE_SEGMENT, seg_ds := KERNEL_DATA_SEGMENT,
       seg_es := KERNEL_DATA_SEGMENT, seg_ss := KERNEL_DATA_SEGMENT, seg_fs := USER_DATA_SEGMENT,
       seg_gs := USER_DATA_SEGMENT\<rparr>"

definition gdt_init :: "gdt_state \<Rightarrow> gdt_state" where
  "gdt_init g =
     (let code = GDT_ACCESS_PRESENT OR GDT_ACCESS_RING0 OR GDT_ACCESS_DESCRIPTOR_TYPE_CODE_OR_DATA OR
                 GDT_ACCESS_EXECUTABLE OR GDT_ACCESS_RW_ENABLE;
          data = GDT_ACCESS_PRESENT OR GDT_ACCESS_RING0 OR GDT_ACCESS_DESCRIPTOR_TYPE_CODE_OR_DATA OR
                 GDT_ACCESS_RW_ENABLE;
          udata = GDT_ACCESS_PRESENT OR GDT_ACCESS_RING3 OR GDT_ACCESS_DESCRIPTOR_TYPE_CODE_OR_DATA OR
                  GDT_ACCESS_RW_ENABLE;
          ucode = GDT_ACCESS_PRESENT OR GDT_ACCESS_RING3 OR GDT_ACCESS_EXECUTABLE OR
                  GDT_ACCESS_DESCRIPTOR_TYPE_CODE_OR_DATA OR GDT_ACCESS_RW_ENABLE;
          gran32 = GDT_GRANULARITY_32BIT OR GDT_GRANULARITY_LIMIT_PAGES OR GDT_GRANULARITY_LIMIT_HI;
          es = (gdt_entries g)
                 [0 := flat_entry 0 0 0,
                  1 := flat_entry 0xffff code 0,
                  2 := flat_entry 0xffff data 0,
                  3 := flat_entry 0xffff code gran32,
                  4 := flat_entry 0xffff data gran32,
                  5 := flat_entry 0 code GDT_GRANULARITY_64BIT_CODE,
                  6 := flat_entry 0 data 0,
                  7 := flat_entry 0 udata 0,
                  8 := flat_entry 0 ucode GDT_GRANULARITY_64BIT_CODE]
      in gdt_reload (g\<lparr>gdt_entries := es\<rparr>))"

definition gdt_load_tss :: "cpu_ctx \<Rightarrow> addr \<Rightarrow> gdt_state \<Rightarrow> kstop + gdt_state" where
  "gdt_load_tss c a g =
     bindR (lock_acquire c ''gdt_load_tss'' (gdt_lock g)) (\<lambda>l.
       (let es = (gdt_entries g)
              [9 := \<lparr>gdt_limit = 103, base_low_w = ucast a, base_mid_b = ucast (drop_bit 16 a),
                     gdt_access = GDT_ACCESS_PRESENT OR GDT_ACCESS_RING0 OR GDT_ACCESS_DESCRIPTOR_TYPE_TSS OR
                                  GDT_ACCESS_EXECUTABLE OR GDT_ACCESS_ACCESSED,
                     granularity = 0, base_high_b = ucast (drop_bit 24 a)\<rparr>,
               10 := \<lparr>gdt_limit = ucast (drop_bit 32 a), base_low_w = ucast (drop_bit 48 a),
                      base_mid_b = 0, gdt_access = 0, granularity = 0, base_high_b = 0\<rparr>]
        in bindR (lock_release c l) (\<lambda>l'.
             Inr (g\<lparr>gdt_entries := es, task_register := TSS_SEGMENT, gdt_lock := l'\<rparr>))))"

section \<open>What the processor reads\<close>

text \<open>
  The eight bytes of a descriptor as the little-endian quadword that the processor decodes, and the
  fields the architecture defines on it.  A task state segment descriptor takes two table slots; the
  low half of the second is the upper half of its base.
\<close>

definition raw_descriptor :: "gdt_entry_t \<Rightarrow> u64" where
  "raw_descriptor e =
     ucast (gdt_limit e) OR push_bit 16 (ucast (base_low_w e)) OR push_bit 32 (ucast (base_mid_b e)) OR
     push_bit 40 (ucast (gdt_access e)) OR push_bit 48 (ucast (granularity e)) OR
     push_bit 56 (ucast (base_high_b e))"

datatype segment = NotPresent | Code64 u64 | DataSegment u64 | Tss64 u64 | OtherSegment

definition classify :: "u64 \<Rightarrow> segment" where
  "classify d =
     (let dpl = drop_bit 45 d AND 3
      in if \<not> bit d 47 then NotPresent
         else if \<not> bit d 44 then (if drop_bit 40 d AND 15 = 9 then Tss64 dpl else OtherSegment)
         else if bit d 43 then (if bit d 53 \<and> \<not> bit d 54 then Code64 dpl else OtherSegment)
         else if bit d 41 then DataSegment dpl else OtherSegment)"

definition desc_base :: "u64 \<Rightarrow> u64" where
  "desc_base d = (drop_bit 16 d AND mask 24) OR push_bit 24 (drop_bit 56 d)"

definition system_desc_base :: "u64 \<Rightarrow> u64 \<Rightarrow> u64" where
  "system_desc_base lo hi = desc_base lo OR push_bit 32 (hi AND mask 32)"

definition selector_index :: "u64 \<Rightarrow> nat" where "selector_index sel = unat (drop_bit 3 sel)"
definition selector_rpl :: "u64 \<Rightarrow> u64" where "selector_rpl sel = sel AND 3"

definition selected :: "gdt_state \<Rightarrow> u64 \<Rightarrow> u64" where
  "selected g sel = raw_descriptor (gdt_entries g ! selector_index sel)"

section \<open>Properties\<close>

lemma gdt_init_entries:
  assumes "length (gdt_entries g) = 11"
  shows "length (gdt_entries (gdt_init g)) = 11"
    and "gdt_entries (gdt_init g) ! 5 = flat_entry 0 0x9a 0x20"
    and "gdt_entries (gdt_init g) ! 6 = flat_entry 0 0x92 0"
    and "gdt_entries (gdt_init g) ! 7 = flat_entry 0 0xf2 0"
    and "gdt_entries (gdt_init g) ! 8 = flat_entry 0 0xfa 0x20"
  using assms by (simp_all add: gdt_init_def gdt_reload_def Let_def gdt_constants)

lemma not_bit_beyond: "LENGTH('a) \<le> n \<Longrightarrow> \<not> bit (w :: 'a::len word) n"
  using bit_imp_le_length by fastforce

lemma bit_raw_descriptor:
  "bit (raw_descriptor e) n \<longleftrightarrow>
     (if n < 16 then bit (gdt_limit e) n
      else if n < 32 then bit (base_low_w e) (n - 16)
      else if n < 40 then bit (base_mid_b e) (n - 32)
      else if n < 48 then bit (gdt_access e) (n - 40)
      else if n < 56 then bit (granularity e) (n - 48)
      else n < 64 \<and> bit (base_high_b e) (n - 56))"
proof -
  consider "n < 16" | "16 \<le> n" "n < 32" | "32 \<le> n" "n < 40" | "40 \<le> n" "n < 48" | "48 \<le> n" "n < 56"
    | "56 \<le> n" "n < 64" | "64 \<le> n"
    by linarith
  then show ?thesis
    by cases (auto simp: raw_descriptor_def bit_simps not_bit_beyond)
qed

lemma raw_access_fields:
  "drop_bit 40 (raw_descriptor e) AND 15 = ucast (gdt_access e AND 15)"
  "drop_bit 45 (raw_descriptor e) AND 3 = ucast (drop_bit 5 (gdt_access e) AND 3)"
proof -
  have m: "(15 :: u64) = mask 4" "(15 :: u8) = mask 4" "(3 :: u64) = mask 2" "(3 :: u8) = mask 2"
    by (simp_all add: mask_eq_exp_minus_1)
  show "drop_bit 40 (raw_descriptor e) AND 15 = ucast (gdt_access e AND 15)"
    "drop_bit 45 (raw_descriptor e) AND 3 = ucast (drop_bit 5 (gdt_access e) AND 3)"
    unfolding m by (rule bit_eqI; auto simp: bit_simps bit_raw_descriptor)+
qed

lemma tss_base_bits:
  fixes a :: u64
  assumes "base_low_w lo = ucast a" "base_mid_b lo = ucast (drop_bit 16 a)"
    and "base_high_b lo = ucast (drop_bit 24 a)"
    and "gdt_limit hi = ucast (drop_bit 32 a)" "base_low_w hi = ucast (drop_bit 48 a)"
  shows "system_desc_base (raw_descriptor lo) (raw_descriptor hi) = a"
proof (rule bit_eqI)
  fix n
  assume "possible_bit TYPE(64 word) n"
  then have "n < 64"
    by (simp add: possible_bit_word)
  then consider "n < 16" | "16 \<le> n" "n < 24" | "24 \<le> n" "n < 32" | "32 \<le> n" "n < 48" | "48 \<le> n" "n < 64"
    by linarith
  then show "bit (system_desc_base (raw_descriptor lo) (raw_descriptor hi)) n = bit a n"
    by cases (auto simp: system_desc_base_def desc_base_def bit_simps bit_raw_descriptor assms)
qed

text \<open>The value that \<^verbatim>\<open>cpu_init\<close> writes to the STAR register (\<^verbatim>\<open>kernel/src/cpu/smp.c\<close>).\<close>

definition star_value :: u64 where
  "star_value = 0x0033002800000000"

definition sysret_cs :: u64 where
  "sysret_cs = (drop_bit 48 star_value + 16) OR 3"

definition sysret_ss :: u64 where
  "sysret_ss = (drop_bit 48 star_value + 8) OR 3"

definition syscall_cs :: u64 where
  "syscall_cs = drop_bit 32 star_value AND 0xffff"

lemma gdt_load_tss_runs:
  assumes "length (gdt_entries g) = 11" "lock_idle (gdt_lock g)"
  obtains g' where "gdt_load_tss c a g = Inr g'" "length (gdt_entries g') = 11"
    "system_desc_base (raw_descriptor (gdt_entries g' ! 9)) (raw_descriptor (gdt_entries g' ! 10)) = a"
    "classify (raw_descriptor (gdt_entries g' ! 9)) = Tss64 0"
    "take 9 (gdt_entries g') = take 9 (gdt_entries g)" "task_register g' = TSS_SEGMENT"
    "lock_idle (gdt_lock g')"
proof -
  obtain l1 l2 where l: "lock_acquire c ''gdt_load_tss'' (gdt_lock g) = Inr l1"
    "lock_release c l1 = Inr l2" "lock_idle l2"
    using spinlock.section_runs [OF assms(2)] by blast
  obtain g' where g': "gdt_load_tss c a g = Inr g'"
    by (simp add: gdt_load_tss_def l)
  then show ?thesis
    using assms(1) l
    by (intro that [OF g'] tss_base_bits)
      (auto simp: gdt_load_tss_def gdt_constants classify_def bit_raw_descriptor raw_access_fields Let_def)
qed

text \<open>
  C38: The table is what the rest of the kernel takes it to be.  After \<^verbatim>\<open>gdt_init\<close> and \<^verbatim>\<open>gdt_load_tss\<close> the
  selectors the kernel uses name the segments it means: 64-bit code and writable data for ring 0, the
  same for ring 3 with the selectors' own privilege, and an available 64-bit task state segment whose
  base, reassembled from the four fields it is split over, is the address that was passed in.  The
  code and stack selectors that a system call and its return load, which the processor computes from
  the STAR value, are those same selectors.
\<close>

theorem gdt_segments:
  assumes "length (gdt_entries g) = 11" "lock_idle (gdt_lock g)"
  shows "\<exists>g'. gdt_load_tss c a (gdt_init g) = Inr g' \<and>
           classify (selected g' KERNEL_CODE_SEGMENT) = Code64 0 \<and>
           classify (selected g' KERNEL_DATA_SEGMENT) = DataSegment 0 \<and>
           classify (selected g' USER_CODE_SEGMENT) = Code64 (selector_rpl USER_CODE_SEGMENT) \<and>
           classify (selected g' USER_DATA_SEGMENT) = DataSegment (selector_rpl USER_DATA_SEGMENT) \<and>
           classify (selected g' TSS_SEGMENT) = Tss64 0 \<and>
           system_desc_base (selected g' TSS_SEGMENT)
             (raw_descriptor (gdt_entries g' ! Suc (selector_index TSS_SEGMENT))) = a \<and>
           syscall_cs = KERNEL_CODE_SEGMENT \<and> sysret_cs = USER_CODE_SEGMENT \<and> sysret_ss = USER_DATA_SEGMENT"
proof -
  have idle: "lock_idle (gdt_lock (gdt_init g))"
    using assms(2) by (simp add: gdt_init_def gdt_reload_def Let_def)
  obtain g' where g': "gdt_load_tss c a (gdt_init g) = Inr g'" "length (gdt_entries g') = 11"
    "system_desc_base (raw_descriptor (gdt_entries g' ! 9)) (raw_descriptor (gdt_entries g' ! 10)) = a"
    "classify (raw_descriptor (gdt_entries g' ! 9)) = Tss64 0"
    "take 9 (gdt_entries g') = take 9 (gdt_entries (gdt_init g))" "task_register g' = TSS_SEGMENT"
    by (rule gdt_load_tss_runs [OF gdt_init_entries(1) [OF assms(1)] idle])
  have same: "gdt_entries g' ! i = gdt_entries (gdt_init g) ! i" if "i < 9" for i
    using g'(5) that by (metis nth_take)
  show ?thesis
    using g' gdt_init_entries [OF assms(1)]
    by (intro exI [of _ g'])
      (simp add: same selected_def selector_index_def selector_rpl_def gdt_constants flat_entry_def classify_def
        raw_descriptor_def syscall_cs_def sysret_cs_def sysret_ss_def star_value_def)
qed

definition demo_gdt :: gdt_state where
  "demo_gdt =
     \<lparr>gdt_entries = replicate 11 (flat_entry 0 0 0), gdt_pointer_size = 0, gdt_lock = LOCK_INITIALIZER None,
      seg_cs = 0, seg_ds = 0, seg_es = 0, seg_ss = 0, seg_fs = 0, seg_gs = 0, task_register = 0\<rparr>"

theorem gdt_segments_witness:
  "\<exists>g'. gdt_load_tss (debug_cpu 0) 0xFFFF800000123456 (gdt_init demo_gdt) = Inr g' \<and>
     system_desc_base (selected g' TSS_SEGMENT)
       (raw_descriptor (gdt_entries g' ! Suc (selector_index TSS_SEGMENT))) = 0xFFFF800000123456"
  using gdt_segments [of demo_gdt "debug_cpu 0" "0xFFFF800000123456"] by (auto simp: demo_gdt_def)

text \<open>
  The limit that \<^verbatim>\<open>gdt_reload\<close> loads covers thirteen descriptors, two more than the table has: the
  processor accepts selectors whose descriptors lie behind the array.
\<close>

lemma gdt_limit_past_table:
  assumes "length (gdt_entries g) = 11"
  shows "unat (gdt_pointer_size (gdt_init g)) + 1 = 8 * length (gdt_entries (gdt_init g)) + 16"
  using gdt_init_entries(1) [OF assms] by (simp add: gdt_init_def gdt_reload_def Let_def)

end
