(* ===== verification/Interrupts.thy ===== *)
theory Interrupts
  imports Gdt
begin

text \<open>
  Interrupt delivery: the descriptor table of \<^verbatim>\<open>kernel/src/interrupt/idt/idt.c\<close>, the handlers and the
  initialisation of \<^verbatim>\<open>kernel/src/interrupt/isr/isr.c\<close>, and the entry stub of
  \<^verbatim>\<open>kernel/src/interrupt/isr/isr.S\<close> that saves and restores the processor state around a handler.
\<close>

section \<open>The saved processor state\<close>

record cpu_status_t =
  st_ds :: u64
  st_es :: u64
  st_rax :: u64
  st_rbx :: u64
  st_rcx :: u64
  st_rdx :: u64
  st_rsi :: u64
  st_rdi :: u64
  st_rbp :: u64
  st_r8 :: u64
  st_r9 :: u64
  st_r10 :: u64
  st_r11 :: u64
  st_r12 :: u64
  st_r13 :: u64
  st_r14 :: u64
  st_r15 :: u64
  st_error_code :: u64
  st_rip :: u64
  st_cs :: u64
  st_rflags :: u64
  st_rsp :: u64
  st_ss :: u64

section \<open>The descriptor table\<close>

record interrupt_descriptor_t =
  offset_low :: u16
  idt_selector :: u16
  ist :: u8
  type_attributes :: u8
  offset_mid :: u16
  offset_high :: u32

datatype handler =
    No_handler
  | Handle_pagefault
  | Handle_exception
  | Handle_interrupt
  | Handle_abort
  | Scheduler_isr
  | Pit_handler
  | Driver_handler string

record idt_state =
  idt :: "interrupt_descriptor_t list"
  interrupt_table :: "handler list"
  idt_free_vector :: u8
  idt_lock :: lock_t
  idtd_limit :: u16
  abort_vector :: u64

definition IDT_ENTRY_COUNT :: nat where
  "IDT_ENTRY_COUNT = 256"

definition idt_allocate_vector :: "cpu_ctx \<Rightarrow> idt_state \<Rightarrow> kstop + (u8 \<times> idt_state)" where
  "idt_allocate_vector c s =
     bindR (lock_acquire c ''idt_allocate_vector'' (idt_lock s)) (\<lambda>l.
       if idt_free_vector s = 0xf0
       then bindR (lock_release c l) (\<lambda>_. Inl (Panic ''IDT exhausted''))
       else bindR (lock_release c l) (\<lambda>l'.
              Inr (idt_free_vector s, s\<lparr>idt_free_vector := idt_free_vector s + 1, idt_lock := l'\<rparr>)))"

definition idt_reload :: "idt_state \<Rightarrow> idt_state" where
  "idt_reload s = s\<lparr>idtd_limit := of_nat (16 * IDT_ENTRY_COUNT) - 1\<rparr>"

definition idt_init :: "idt_state \<Rightarrow> idt_state" where
  "idt_init s = idt_reload s"

definition set_idt_entry :: "u16 \<Rightarrow> u8 \<Rightarrow> u16 \<Rightarrow> u8 \<Rightarrow> addr \<Rightarrow> idt_state \<Rightarrow> idt_state" where
  "set_idt_entry idx flags selector i hnd s =
     s\<lparr>idt := (idt s)[unat idx :=
         (idt s ! unat idx)\<lparr>type_attributes := flags, ist := i, idt_selector := selector,
            offset_low := ucast hnd, offset_mid := ucast (drop_bit 16 hnd),
            offset_high := ucast (drop_bit 32 hnd)\<rparr>]\<rparr>"

definition set_ist :: "u16 \<Rightarrow> u8 \<Rightarrow> idt_state \<Rightarrow> idt_state" where
  "set_ist vector i s = s\<lparr>idt := (idt s)[unat vector := (idt s ! unat vector)\<lparr>ist := i\<rparr>]\<rparr>"

definition set_handler :: "nat \<Rightarrow> handler \<Rightarrow> idt_state \<Rightarrow> idt_state" where
  "set_handler i h s = s\<lparr>interrupt_table := (interrupt_table s)[i := h]\<rparr>"

section \<open>Handlers and their installation\<close>

definition exception_names :: "string list" where
  "exception_names =
     [''Divide by Zero Error'', ''Debug'', ''Non Maskable Interrupt'', ''Breakpoint'', ''Overflow'',
      ''Bound Range'', ''Invalid Opcode'', ''Device Not Available'', ''Double Fault'',
      ''Coprocessor Segment Overrun'', ''Invalid TSS'', ''Segment Not Present'', ''Stack-Segment Fault'',
      ''General Protection Fault'', ''Page Fault'', ''Reserved'', ''x87 Floating-Point Exception'',
      ''Alignment Check'', ''Machine Check'', ''SIMD Floating-Point Exception'',
      ''Reserved'', ''Reserved'', ''Reserved'', ''Reserved'', ''Reserved'', ''Reserved'', ''Reserved'',
      ''Reserved'', ''Reserved'', ''Reserved'', ''Security Exception'', ''Reserved'']"

definition handle_pagefault :: "u32 \<Rightarrow> cpu_status_t \<Rightarrow> kstop" where
  "handle_pagefault num st = Panic ''Can't handle PF properly yet''"

definition handle_exception :: "u32 \<Rightarrow> cpu_status_t \<Rightarrow> kstop" where
  "handle_exception num st =
     (if st_cs st = USER_CODE_SEGMENT then Panic ''Can't send SIGSEGV yet''
      else Panic (''Caught exception in kernel: '' @ exception_names ! unat num))"

definition handle_interrupt :: "u32 \<Rightarrow> cpu_status_t \<Rightarrow> kstop" where
  "handle_interrupt num st = Panic ''Caught interrupt %d, not handled yet''"

definition isr_gate :: "(nat \<Rightarrow> addr) \<Rightarrow> nat \<Rightarrow> idt_state \<Rightarrow> idt_state" where
  "isr_gate isrs i s =
     set_handler i
       (if i = 14 then Handle_pagefault else if i < 32 then Handle_exception else Handle_interrupt)
       (set_idt_entry (of_nat i) 0x8e (ucast KERNEL_CODE_SEGMENT) 0 (isrs i) s)"

definition isr_init :: "cpu_ctx \<Rightarrow> (nat \<Rightarrow> addr) \<Rightarrow> idt_state \<Rightarrow> kstop + idt_state" where
  "isr_init c isrs s =
     (let s1 = fold (isr_gate isrs) [0..<32] s;
          s2 = fold (isr_gate isrs) [32..<256] s1
      in bindR (idt_allocate_vector c s2) (\<lambda>(v, s3).
           Inr (set_ist (ucast v) 4 (set_handler (unat v) Handle_abort (s3\<lparr>abort_vector := ucast v\<rparr>)))))"

section \<open>The entry stub\<close>

text \<open>
  The registers the stub touches and the stack it runs on, as a list of quadwords from the stack
  pointer upwards.
\<close>

record stub_cpu =
  r_rax :: u64
  r_rbx :: u64
  r_rcx :: u64
  r_rdx :: u64
  r_rsi :: u64
  r_rdi :: u64
  r_rbp :: u64
  r_r8 :: u64
  r_r9 :: u64
  r_r10 :: u64
  r_r11 :: u64
  r_r12 :: u64
  r_r13 :: u64
  r_r14 :: u64
  r_r15 :: u64
  r_rip :: u64
  r_rflags :: u64
  r_rsp :: u64
  r_cs :: u16
  r_ds :: u16
  r_es :: u16
  r_ss :: u16
  r_gs_base :: u64
  r_kernel_gs_base :: u64
  r_stack :: "u64 list"

definition has_error_code :: "nat \<Rightarrow> bool" where
  "has_error_code num \<longleftrightarrow> num \<in> {8, 10, 11, 12, 13, 14, 17, 30}"

definition swapgs :: "stub_cpu \<Rightarrow> stub_cpu" where
  "swapgs m = m\<lparr>r_gs_base := r_kernel_gs_base m, r_kernel_gs_base := r_gs_base m\<rparr>"

definition push_q :: "u64 \<Rightarrow> stub_cpu \<Rightarrow> stub_cpu" where
  "push_q v m = m\<lparr>r_stack := v # r_stack m, r_rsp := r_rsp m - 8\<rparr>"

definition stub_entry :: "addr \<Rightarrow> nat \<Rightarrow> stub_cpu \<Rightarrow> stub_cpu" where
  "stub_entry table num m0 =
     (let m1 = (if has_error_code num then m0 else push_q 0 m0);
          m2 = (if r_stack m1 ! 2 = 0x43 then swapgs m1 else m1);
          m3 = push_q (r_rax m2) (push_q (r_rbx m2) (push_q (r_rcx m2) (push_q (r_rdx m2) (push_q (r_rsi m2)
                 (push_q (r_rdi m2) (push_q (r_rbp m2) (push_q (r_r8 m2) (push_q (r_r9 m2) (push_q (r_r10 m2)
                 (push_q (r_r11 m2) (push_q (r_r12 m2) (push_q (r_r13 m2) (push_q (r_r14 m2)
                 (push_q (r_r15 m2) m2))))))))))))));
          m4 = push_q (ucast (r_ds m3)) (push_q (ucast (r_es m3)) m3)
      in m4\<lparr>r_ds := 0x30, r_es := 0x30, r_ss := 0x30, r_rdi := of_nat num, r_rax := of_nat (num * 8),
            r_rbx := table + of_nat (num * 8), r_rsi := r_rsp m4, r_rbp := 0\<rparr>)"

text \<open>What the handler sees through the \<^verbatim>\<open>cpu_status_t\<close> pointer it is given.\<close>

definition status_of_frame :: "u64 list \<Rightarrow> cpu_status_t" where
  "status_of_frame f =
     \<lparr>st_ds = f ! 0, st_es = f ! 1, st_rax = f ! 2, st_rbx = f ! 3, st_rcx = f ! 4, st_rdx = f ! 5,
      st_rsi = f ! 6, st_rdi = f ! 7, st_rbp = f ! 8, st_r8 = f ! 9, st_r9 = f ! 10, st_r10 = f ! 11,
      st_r11 = f ! 12, st_r12 = f ! 13, st_r13 = f ! 14, st_r14 = f ! 15, st_r15 = f ! 16,
      st_error_code = f ! 17, st_rip = f ! 18, st_cs = f ! 19, st_rflags = f ! 20, st_rsp = f ! 21,
      st_ss = f ! 22\<rparr>"

definition frame_of_status :: "cpu_status_t \<Rightarrow> u64 list" where
  "frame_of_status st =
     [st_ds st, st_es st, st_rax st, st_rbx st, st_rcx st, st_rdx st, st_rsi st, st_rdi st, st_rbp st,
      st_r8 st, st_r9 st, st_r10 st, st_r11 st, st_r12 st, st_r13 st, st_r14 st, st_r15 st,
      st_error_code st, st_rip st, st_cs st, st_rflags st, st_rsp st, st_ss st]"

text \<open>
  The epilogue pops the registers in the opposite order and drops the error code; it swaps the GS
  bases back for a return to user mode and returns through the frame the processor pushed.  The
  scheduler leaves through the same pops, from the state saved in the thread it switches to, but
  without the swap.
\<close>

definition pop_registers :: "stub_cpu \<Rightarrow> stub_cpu" where
  "pop_registers m =
     (let f = r_stack m
      in m\<lparr>r_ds := ucast (f ! 0), r_es := ucast (f ! 1), r_rax := f ! 2, r_rbx := f ! 3, r_rcx := f ! 4,
           r_rdx := f ! 5, r_rsi := f ! 6, r_rdi := f ! 7, r_rbp := f ! 8, r_r8 := f ! 9, r_r9 := f ! 10,
           r_r10 := f ! 11, r_r11 := f ! 12, r_r12 := f ! 13, r_r13 := f ! 14, r_r14 := f ! 15,
           r_r15 := f ! 16, r_stack := drop 18 f\<rparr>)"

definition iretq :: "stub_cpu \<Rightarrow> stub_cpu" where
  "iretq m =
     (let f = r_stack m
      in m\<lparr>r_rip := f ! 0, r_cs := ucast (f ! 1), r_rflags := f ! 2, r_rsp := f ! 3, r_ss := ucast (f ! 4),
           r_stack := drop 5 f\<rparr>)"

definition stub_exit :: "stub_cpu \<Rightarrow> stub_cpu" where
  "stub_exit m =
     (let m1 = pop_registers m
      in iretq (if r_stack m1 ! 1 = 0x43 then swapgs m1 else m1))"

definition resume_status :: "cpu_status_t \<Rightarrow> stub_cpu \<Rightarrow> stub_cpu" where
  "resume_status st m = iretq (pop_registers (m\<lparr>r_stack := frame_of_status st\<rparr>))"

section \<open>The architecture's part\<close>

text \<open>
  Delivery pushes the interrupted context, and an error code for the vectors that have one, on the
  stack the handler will use.
\<close>

definition deliver :: "nat \<Rightarrow> u64 \<Rightarrow> u64 \<Rightarrow> u64 list \<Rightarrow> stub_cpu \<Rightarrow> stub_cpu" where
  "deliver num err rsp stk m =
     (let frame = [r_rip m, ucast (r_cs m), r_rflags m, r_rsp m, ucast (r_ss m)]
      in m\<lparr>r_stack := (if has_error_code num then [err] else []) @ frame @ stk,
           r_rsp := rsp - (if has_error_code num then 48 else 40)\<rparr>)"

definition gate_offset :: "interrupt_descriptor_t \<Rightarrow> u64" where
  "gate_offset d = ucast (offset_low d) OR push_bit 16 (ucast (offset_mid d)) OR push_bit 32 (ucast (offset_high d))"

definition gate_present :: "interrupt_descriptor_t \<Rightarrow> bool" where
  "gate_present d = bit (type_attributes d) 7"

definition gate_interrupt :: "interrupt_descriptor_t \<Rightarrow> bool" where
  "gate_interrupt d \<longleftrightarrow> type_attributes d AND 15 = 14"

section \<open>Properties\<close>

lemma status_of_frame_of_status [simp]: "status_of_frame (frame_of_status st @ rest) = st"
  by (simp add: status_of_frame_def frame_of_status_def)

lemma ucast_ucast_u16 [simp]: "ucast (ucast (x :: u16) :: u64) = x"
  by (simp add: unsigned_ucast_eq take_bit_word_eq_self)

lemma stub_entry_frame:
  "r_stack (stub_entry table num (deliver num err rsp stk m)) =
     [ucast (r_ds m), ucast (r_es m), r_rax m, r_rbx m, r_rcx m, r_rdx m, r_rsi m, r_rdi m, r_rbp m, r_r8 m,
      r_r9 m, r_r10 m, r_r11 m, r_r12 m, r_r13 m, r_r14 m, r_r15 m, (if has_error_code num then err else 0),
      r_rip m, ucast (r_cs m), r_rflags m, r_rsp m, ucast (r_ss m)] @ stk"
  by (simp add: stub_entry_def deliver_def Let_def push_q_def swapgs_def)

lemma ucast_cs_user: "(ucast (x :: u16) :: u64) = 0x43 \<longleftrightarrow> x = 0x43"
proof
  assume "(ucast x :: u64) = 0x43"
  then have "x = ucast (0x43 :: u64)"
    by (metis ucast_ucast_u16)
  then show "x = 0x43"
    by simp
qed simp

lemma stub_entry_others:
  fixes table num err rsp stk m
  defines "m' \<equiv> stub_entry table num (deliver num err rsp stk m)"
  shows "r_gs_base m' = (if r_cs m = 0x43 then r_kernel_gs_base m else r_gs_base m)"
    and "r_kernel_gs_base m' = (if r_cs m = 0x43 then r_gs_base m else r_kernel_gs_base m)"
    and "r_rsi m' = r_rsp m'" "r_rdi m' = of_nat num"
  by (simp_all add: m'_def stub_entry_def deliver_def Let_def push_q_def swapgs_def ucast_cs_user)

lemma stub_exit_of_frame:
  assumes "r_stack m' = r_stack (stub_entry table num (deliver num err rsp stk m))"
    and "r_gs_base m' = r_gs_base (stub_entry table num (deliver num err rsp stk m))"
    and "r_kernel_gs_base m' = r_kernel_gs_base (stub_entry table num (deliver num err rsp stk m))"
  shows "stub_exit m' = m\<lparr>r_stack := stk\<rparr>"
proof -
  note f = assms(1) [unfolded stub_entry_frame]
  have gs: "r_gs_base m' = (if r_cs m = 0x43 then r_kernel_gs_base m else r_gs_base m)"
    "r_kernel_gs_base m' = (if r_cs m = 0x43 then r_gs_base m else r_kernel_gs_base m)"
    using assms(2,3) by (simp_all add: stub_entry_others)
  show ?thesis
    by (cases "r_cs m = 0x43")
      (simp_all add: stub_exit_def pop_registers_def iretq_def swapgs_def Let_def f gs ucast_cs_user)
qed


definition demo_user :: stub_cpu where
  "demo_user =
     \<lparr>r_rax = 1, r_rbx = 2, r_rcx = 3, r_rdx = 4, r_rsi = 5, r_rdi = 6, r_rbp = 7, r_r8 = 8, r_r9 = 9,
      r_r10 = 10, r_r11 = 11, r_r12 = 12, r_r13 = 13, r_r14 = 14, r_r15 = 15, r_rip = 0x400000,
      r_rflags = 0x202, r_rsp = 0x70000000000, r_cs = 0x43, r_ds = 0x3b, r_es = 0x3b, r_ss = 0x3b,
      r_gs_base = 0, r_kernel_gs_base = 0xFFFF800000200000, r_stack = []\<rparr>"


text \<open>
  The scheduler's way out restores the registers of the frame it is given, and leaves the GS bases
  as the scheduler set them.
\<close>

lemma resume_status_restores:
  assumes "st_cs st = ucast (r_cs m)" "st_ss st = ucast (r_ss m)"
    and "st_ds st = ucast (r_ds m)" "st_es st = ucast (r_es m)"
  shows "r_cs (resume_status st m') = r_cs m" "r_ss (resume_status st m') = r_ss m"
    "r_ds (resume_status st m') = r_ds m" "r_es (resume_status st m') = r_es m"
    "r_rip (resume_status st m') = st_rip st" "r_rsp (resume_status st m') = st_rsp st"
    "r_rflags (resume_status st m') = st_rflags st" "r_rdi (resume_status st m') = st_rdi st"
    "r_gs_base (resume_status st m') = r_gs_base m'" "r_kernel_gs_base (resume_status st m') = r_kernel_gs_base m'"
  using assms by (simp_all add: resume_status_def iretq_def pop_registers_def frame_of_status_def Let_def)

section \<open>Gates and vectors\<close>

lemma gate_offset_split:
  fixes hnd :: u64
  assumes "offset_low d = ucast hnd" "offset_mid d = ucast (drop_bit 16 hnd)" "offset_high d = ucast (drop_bit 32 hnd)"
  shows "gate_offset d = hnd"
proof (rule bit_eqI)
  fix n
  assume "possible_bit TYPE(64 word) n"
  then have "n < 64"
    by (simp add: possible_bit_word)
  then consider "n < 16" | "16 \<le> n" "n < 32" | "32 \<le> n" "n < 64"
    by linarith
  then show "bit (gate_offset d) n = bit hnd n"
    by cases (auto simp: gate_offset_def bit_simps assms)
qed

definition isr_descriptor :: "addr \<Rightarrow> interrupt_descriptor_t" where
  "isr_descriptor hnd =
     \<lparr>offset_low = ucast hnd, idt_selector = 0x28, ist = 0, type_attributes = 0x8e,
      offset_mid = ucast (drop_bit 16 hnd), offset_high = ucast (drop_bit 32 hnd)\<rparr>"

definition isr_handler :: "nat \<Rightarrow> handler" where
  "isr_handler i = (if i = 14 then Handle_pagefault else if i < 32 then Handle_exception else Handle_interrupt)"

lemma isr_gate_effect:
  assumes "i < 256"
  shows "isr_gate isrs i s =
     s\<lparr>idt := (idt s)[i := isr_descriptor (isrs i)], interrupt_table := (interrupt_table s)[i := isr_handler i]\<rparr>"
proof -
  have "unat (of_nat i :: u16) = i"
    using assms by (simp add: unat_of_nat take_bit_nat_eq_self)
  moreover have "(idt s ! i)\<lparr>type_attributes := 0x8e, ist := 0, idt_selector := 0x28, offset_low := ucast (isrs i),
      offset_mid := ucast (drop_bit 16 (isrs i)), offset_high := ucast (drop_bit 32 (isrs i))\<rparr> =
      isr_descriptor (isrs i)"
    by (cases "idt s ! i") (simp add: isr_descriptor_def)
  ultimately show ?thesis
    by (simp add: isr_gate_def set_idt_entry_def set_handler_def isr_handler_def KERNEL_CODE_SEGMENT_def)
qed

lemma isr_gates_effect:
  assumes "set is \<subseteq> {..<256}" "length (idt s) = 256" "length (interrupt_table s) = 256"
  shows "let s' = fold (isr_gate isrs) is s
         in length (idt s') = 256 \<and> length (interrupt_table s') = 256 \<and>
            (\<forall>j<256. idt s' ! j = (if j \<in> set is then isr_descriptor (isrs j) else idt s ! j) \<and>
               interrupt_table s' ! j = (if j \<in> set is then isr_handler j else interrupt_table s ! j)) \<and>
            idt_free_vector s' = idt_free_vector s \<and> idt_lock s' = idt_lock s"
  using assms
proof (induction "is" arbitrary: s)
  case (Cons i js)
  have "length (idt (isr_gate isrs i s)) = 256" "length (interrupt_table (isr_gate isrs i s)) = 256"
    using Cons.prems by (simp_all add: isr_gate_effect)
  with Cons.IH [of "isr_gate isrs i s"] Cons.prems show ?case
    by (auto simp: Let_def isr_gate_effect nth_list_update)
qed (simp add: Let_def)

text \<open>Vectors are handed out in order from 32 up to 239, each one once, and then the kernel panics.\<close>

lemma idt_allocate_vector_spec:
  assumes "lock_idle (idt_lock s)"
  shows "if idt_free_vector s = 0xf0 then idt_allocate_vector c s = Inl (Panic ''IDT exhausted'')
         else \<exists>l. lock_idle l \<and> idt_allocate_vector c s =
                Inr (idt_free_vector s, s\<lparr>idt_free_vector := idt_free_vector s + 1, idt_lock := l\<rparr>)"
proof -
  obtain l1 l2 where "lock_acquire c ''idt_allocate_vector'' (idt_lock s) = Inr l1"
    "lock_release c l1 = Inr l2" "lock_idle l2"
    using spinlock.section_runs [OF assms] by blast
  then show ?thesis
    by (auto simp: idt_allocate_vector_def)
qed

primrec allocate_vectors :: "cpu_ctx \<Rightarrow> nat \<Rightarrow> idt_state \<Rightarrow> kstop + (u8 list \<times> idt_state)" where
  "allocate_vectors c 0 s = Inr ([], s)"
| "allocate_vectors c (Suc n) s =
     bindR (idt_allocate_vector c s) (\<lambda>(v, s1).
       bindR (allocate_vectors c n s1) (\<lambda>(vs, s2). Inr (v # vs, s2)))"

lemma allocate_vectors_spec:
  assumes "lock_idle (idt_lock s)" "unat (idt_free_vector s) + n \<le> 240"
  shows "\<exists>s'. allocate_vectors c n s = Inr (map of_nat [unat (idt_free_vector s)..<unat (idt_free_vector s) + n], s') \<and>
           lock_idle (idt_lock s') \<and> unat (idt_free_vector s') = unat (idt_free_vector s) + n"
  using assms
proof (induction n arbitrary: s)
  case (Suc n)
  let ?v = "idt_free_vector s"
  have v: "?v \<noteq> 0xf0"
    using Suc.prems(2) by auto
  then obtain l where l: "lock_idle l" "idt_allocate_vector c s = Inr (?v, s\<lparr>idt_free_vector := ?v + 1, idt_lock := l\<rparr>)"
    using idt_allocate_vector_spec [OF Suc.prems(1), of c] by auto
  have next_v: "unat (?v + 1) = unat ?v + 1"
    using Suc.prems(2) by (simp add: unat_word_ariths)
  have "[unat ?v..<unat ?v + Suc n] = unat ?v # [unat (?v + 1)..<unat (?v + 1) + n]"
    using next_v by (simp add: upt_conv_Cons)
  then show ?case
    using Suc.IH [of "s\<lparr>idt_free_vector := ?v + 1, idt_lock := l\<rparr>"] l next_v Suc.prems(2) by auto
qed simp

lemma isr_init_spec:
  assumes "length (idt s) = 256" "length (interrupt_table s) = 256" "idt_free_vector s = 32" "lock_idle (idt_lock s)"
  obtains s' where "isr_init c isrs s = Inr s'" "abort_vector s' = 32" "idt_free_vector s' = 33" "lock_idle (idt_lock s')"
    "length (idt s') = 256" "length (interrupt_table s') = 256"
    "\<forall>i<256. idt s' ! i = (isr_descriptor (isrs i))\<lparr>ist := if i = 32 then 4 else 0\<rparr> \<and>
       interrupt_table s' ! i = (if i = 32 then Handle_abort else isr_handler i)"
proof -
  define s2 where "s2 = fold (isr_gate isrs) [32..<256] (fold (isr_gate isrs) [0..<32] s)"
  have "[0..<256] = [0..<32] @ [32..<256::nat]"
    using upt_add_eq_append [of 0 32 224] by (simp del: upt_rec_numeral)
  then have two: "s2 = fold (isr_gate isrs) [0..<256] s"
    unfolding s2_def by (simp del: upt_rec_numeral)
  have fx: "length (idt s2) = 256" "length (interrupt_table s2) = 256" "idt_free_vector s2 = 32"
    "idt_lock s2 = idt_lock s"
    "\<forall>j<256. idt s2 ! j = isr_descriptor (isrs j) \<and> interrupt_table s2 ! j = isr_handler j"
    using isr_gates_effect [of "[0..<256]" s isrs] assms(1-3) unfolding two
    by (auto simp: Let_def atLeast0LessThan simp del: upt_rec_numeral)
  obtain l where l: "lock_idle l" "idt_allocate_vector c s2 = Inr (32, s2\<lparr>idt_free_vector := 33, idt_lock := l\<rparr>)"
    using idt_allocate_vector_spec [of s2 c] assms(4) fx(3,4) by auto
  let ?s' = "set_ist 32 4 (set_handler 32 Handle_abort (s2\<lparr>idt_free_vector := 33, idt_lock := l, abort_vector := 32\<rparr>))"
  have "isr_init c isrs s = Inr ?s'"
    unfolding isr_init_def Let_def s2_def [symmetric] l by simp
  then show ?thesis
    using fx l by (intro that [of ?s']) (auto simp: set_ist_def set_handler_def nth_list_update isr_descriptor_def)
qed

text \<open>
  C39: After \<^verbatim>\<open>isr_init\<close> every one of the 256 vectors has a present interrupt gate into the kernel's code
  segment whose split offset is the address of that vector's stub, and the dispatch table has the
  page-fault, exception or interrupt handler for it; vector 32, the first one allocated, is the abort
  vector and the only one with a stack of its own.
\<close>

theorem isr_init_gates:
  assumes "length (idt s) = 256" "length (interrupt_table s) = 256" "idt_free_vector s = 32" "lock_idle (idt_lock s)"
    and "i < 256"
  shows "\<exists>s'. isr_init c isrs s = Inr s' \<and>
           gate_present (idt s' ! i) \<and> gate_interrupt (idt s' ! i) \<and> gate_offset (idt s' ! i) = isrs i \<and>
           ucast (idt_selector (idt s' ! i)) = KERNEL_CODE_SEGMENT \<and>
           ist (idt s' ! i) = (if i = 32 then 4 else 0) \<and>
           interrupt_table s' ! i =
             (if i = 32 then Handle_abort else if i = 14 then Handle_pagefault
              else if i < 32 then Handle_exception else Handle_interrupt)"
proof -
  obtain s' where s': "isr_init c isrs s = Inr s'"
    "\<forall>i<256. idt s' ! i = (isr_descriptor (isrs i))\<lparr>ist := if i = 32 then 4 else 0\<rparr> \<and>
       interrupt_table s' ! i = (if i = 32 then Handle_abort else isr_handler i)"
    by (rule isr_init_spec [OF assms(1-4), where c = c and isrs = isrs])
  have "gate_offset (idt s' ! i) = isrs i"
    using s'(2) assms(5) by (intro gate_offset_split) (auto simp: isr_descriptor_def)
  then show ?thesis
    using s' assms(5)
    by (intro exI [of _ s'])
      (auto simp: isr_descriptor_def isr_handler_def gate_present_def gate_interrupt_def KERNEL_CODE_SEGMENT_def bit_simps)
qed

definition demo_idt :: idt_state where
  "demo_idt =
     \<lparr>idt = replicate 256 (isr_descriptor 0), interrupt_table = replicate 256 No_handler, idt_free_vector = 32,
      idt_lock = LOCK_INITIALIZER None, idtd_limit = 0, abort_vector = 0\<rparr>"

theorem isr_init_gates_witness:
  "\<exists>s'. isr_init (debug_cpu 0) (\<lambda>n. 0xFFFFFFFF80001000 + of_nat (16 * n)) demo_idt = Inr s' \<and>
     gate_offset (idt s' ! 14) = 0xFFFFFFFF800010E0 \<and> interrupt_table s' ! 14 = Handle_pagefault"
  using isr_init_gates [of demo_idt 14 "debug_cpu 0" "\<lambda>n. 0xFFFFFFFF80001000 + of_nat (16 * n)"]
  by (auto simp: demo_idt_def)

end
