(* ===== verification/Apic.thy ===== *)
theory Apic
  imports Interrupts Pmm
begin

text \<open>
  The local and I/O interrupt controllers of \<^verbatim>\<open>kernel/src/interrupt/apic/apic.c\<close>, with the counter reads
  of \<^verbatim>\<open>kernel/src/time/timer.c\<close> that the calibration of the local timer uses.  Every register access
  goes to the device log of \<^verbatim>\<open>Kio\<close>; what the devices answer is arbitrary.
\<close>

section \<open>State\<close>

record madt_io_apic_t =
  ioapic_id :: u8
  ioapic_address :: u32
  gsib :: u32

record madt_iso_t =
  bus_source :: u8
  irq_source :: u8
  iso_gsi :: u32
  iso_flags :: u16

record platform = io_state +
  lapic_base :: u64
  apic_base_msr :: u64
  hpet :: addr
  have_hpet :: bool
  madt_io_apics :: "madt_io_apic_t list"
  madt_isos :: "madt_iso_t list"

text \<open>The panic that the exception handler raises for a division by zero in the kernel.\<close>

definition divide_error :: kstop where
  "divide_error = Panic (''Caught exception in kernel: '' @ exception_names ! 0)"

definition LAPIC_REG_ICR0 :: u32 where "LAPIC_REG_ICR0 = 0x300"
definition LAPIC_REG_ICR1 :: u32 where "LAPIC_REG_ICR1 = 0x310"
definition LAPIC_REG_SPURIOUS :: u32 where "LAPIC_REG_SPURIOUS = 0x0f0"
definition LAPIC_REG_EOI :: u32 where "LAPIC_REG_EOI = 0x0b0"
definition LAPIC_REG_TIMER :: u32 where "LAPIC_REG_TIMER = 0x320"
definition LAPIC_REG_TIMER_INITCNT :: u32 where "LAPIC_REG_TIMER_INITCNT = 0x380"
definition LAPIC_REG_TIMER_CURCNT :: u32 where "LAPIC_REG_TIMER_CURCNT = 0x390"
definition LAPIC_REG_TIMER_DIV :: u32 where "LAPIC_REG_TIMER_DIV = 0x3e0"

lemmas lapic_regs =
  LAPIC_REG_ICR0_def LAPIC_REG_ICR1_def LAPIC_REG_SPURIOUS_def LAPIC_REG_EOI_def LAPIC_REG_TIMER_def
  LAPIC_REG_TIMER_INITCNT_def LAPIC_REG_TIMER_CURCNT_def LAPIC_REG_TIMER_DIV_def

section \<open>The local controller\<close>

definition lapic_find :: "'a platform_scheme \<Rightarrow> 'a platform_scheme" where
  "lapic_find s =
     (if lapic_base s = 0 then s\<lparr>lapic_base := (apic_base_msr s AND 0xfffff000) + HIGHER_HALF\<rparr> else s)"

definition lapic_read :: "u32 \<Rightarrow> 'a platform_scheme \<Rightarrow> u32 \<times> 'a platform_scheme" where
  "lapic_read reg s = (let s1 = lapic_find s in mmin32 (lapic_base s1 + ucast reg) s1)"

definition lapic_write :: "u32 \<Rightarrow> u32 \<Rightarrow> 'a platform_scheme \<Rightarrow> 'a platform_scheme" where
  "lapic_write reg val s = (let s1 = lapic_find s in mmout32 (lapic_base s1 + ucast reg) val s1)"

definition lapic_eoi :: "'a platform_scheme \<Rightarrow> 'a platform_scheme" where
  "lapic_eoi s = lapic_write LAPIC_REG_EOI 0 s"

definition lapic_enable :: "u16 \<Rightarrow> 'a platform_scheme \<Rightarrow> 'a platform_scheme" where
  "lapic_enable spurious_vector s =
     (let (v, s1) = lapic_read LAPIC_REG_SPURIOUS s
      in lapic_write LAPIC_REG_SPURIOUS (v OR push_bit 8 1 OR ucast spurious_vector) s1)"

definition lapic_timer_stop :: "'a platform_scheme \<Rightarrow> 'a platform_scheme" where
  "lapic_timer_stop s = lapic_write LAPIC_REG_TIMER (push_bit 16 1) (lapic_write LAPIC_REG_TIMER_INITCNT 0 s)"

definition lapic_send_ipi :: "u8 \<Rightarrow> u8 \<Rightarrow> 'a platform_scheme \<Rightarrow> 'a platform_scheme" where
  "lapic_send_ipi lapic vector s =
     lapic_write LAPIC_REG_ICR0 (ucast vector) (lapic_write LAPIC_REG_ICR1 (push_bit 24 (ucast lapic)) s)"

section \<open>The counter\<close>

definition get_ticks :: "'a platform_scheme \<Rightarrow> u64 \<times> 'a platform_scheme" where
  "get_ticks s = mmin64 (hpet s + 0xf0) s"

definition get_ticks_per_second :: "'a platform_scheme \<Rightarrow> kstop + (u64 \<times> 'a platform_scheme)" where
  "get_ticks_per_second s =
     (let (cap, s1) = mmin64 (hpet s) s;
          period = drop_bit 32 cap AND 0xffffffff
      in if period = 0 then Inl divide_error else Inr (1000000000000000 div period, s1))"

section \<open>Calibration and the one-shot timer\<close>

partial_function (option) lapic_wait_zero :: "'a platform_scheme \<Rightarrow> 'a platform_scheme option" where
  "lapic_wait_zero s =
     (let (v, s1) = lapic_read LAPIC_REG_TIMER_CURCNT s
      in if v \<noteq> 0 then lapic_wait_zero s1 else Some s1)"

text \<open>The calibration returns the frequency it stores in the processor's structure.\<close>

definition lapic_timer_calibrate ::
  "'a platform_scheme \<Rightarrow> (kstop + (u64 \<times> 'a platform_scheme)) option" where
  "lapic_timer_calibrate s =
     (if \<not> have_hpet s then Some (Inr (1000000000, s))
      else
        (let lapic_samples = 0xfffff;
             s1 = lapic_timer_stop s;
             s2 = lapic_write LAPIC_REG_TIMER (push_bit 16 1 OR 0xff) s1;
             s3 = lapic_write LAPIC_REG_TIMER_DIV 0xb s2;
             (hpet_start, s4) = get_ticks s3;
             s5 = lapic_write LAPIC_REG_TIMER_INITCNT lapic_samples s4
         in case lapic_wait_zero s5 of None \<Rightarrow> None
            | Some s6 \<Rightarrow>
                (let (hpet_end, s7) = get_ticks s6;
                     hpet_elapsed = hpet_end - hpet_start
                 in if hpet_elapsed = 0 then Some (Inr (1000000000, lapic_timer_stop s7))
                    else Some (bindR (get_ticks_per_second s7) (\<lambda>(hpet_freq, s8).
                      (let freq = (ucast lapic_samples * hpet_freq) div hpet_elapsed;
                           freq' = (if freq < 1000000 \<or> freq > 100000000000 then 1000000000 else freq)
                       in Inr (freq', lapic_timer_stop s8)))))))"

definition lapic_timer_oneshot :: "u64 \<Rightarrow> u8 \<Rightarrow> u64 \<Rightarrow> 'a platform_scheme \<Rightarrow> 'a platform_scheme" where
  "lapic_timer_oneshot freq vector micros s =
     (let s1 = lapic_timer_stop s;
          ticks = micros * (freq div 1000000);
          s2 = lapic_write LAPIC_REG_TIMER (ucast vector) s1;
          s3 = lapic_write LAPIC_REG_TIMER_DIV 0xb s2;
          s4 = lapic_write LAPIC_REG_TIMER_INITCNT (ucast ticks) s3
      in snd (lapic_read LAPIC_REG_TIMER s4))"

section \<open>The I/O controllers\<close>

definition io_apic_base :: "nat \<Rightarrow> 'a platform_scheme \<Rightarrow> u64" where
  "io_apic_base io s = ucast (ioapic_address (madt_io_apics s ! io)) + HIGHER_HALF"

definition io_apic_read :: "nat \<Rightarrow> u32 \<Rightarrow> 'a platform_scheme \<Rightarrow> u32 \<times> 'a platform_scheme" where
  "io_apic_read io reg s = (let base = io_apic_base io s in mmin32 (base + 16) (mmout32 base reg s))"

definition io_apic_write :: "nat \<Rightarrow> u32 \<Rightarrow> u32 \<Rightarrow> 'a platform_scheme \<Rightarrow> 'a platform_scheme" where
  "io_apic_write io reg val s = (let base = io_apic_base io s in mmout32 (base + 16) val (mmout32 base reg s))"

definition io_apic_gsi_count :: "nat \<Rightarrow> 'a platform_scheme \<Rightarrow> u32 \<times> 'a platform_scheme" where
  "io_apic_gsi_count io s = (let (x, s1) = io_apic_read io 1 s in (drop_bit 16 (x AND 0xff0000), s1))"

text \<open>Each turn of the search reads the count for its log message and, if the base fits, once more.\<close>

fun io_apic_search :: "u32 \<Rightarrow> nat list \<Rightarrow> 'a platform_scheme \<Rightarrow> kstop + (nat \<times> 'a platform_scheme)" where
  "io_apic_search gsi [] s = Inl (Panic ''Cannot determine IO APIC from GSI (missing IO APIC?)'')"
| "io_apic_search gsi (i # is) s =
     (let (_, s1) = io_apic_gsi_count i s;
          base = gsib (madt_io_apics s ! i)
      in if base \<le> gsi
         then (let (n, s2) = io_apic_gsi_count i s1
               in if base + n > gsi then Inr (i, s2) else io_apic_search gsi is s2)
         else io_apic_search gsi is s1)"

definition io_apic_from_gsi :: "u32 \<Rightarrow> 'a platform_scheme \<Rightarrow> kstop + (nat \<times> 'a platform_scheme)" where
  "io_apic_from_gsi gsi s = io_apic_search gsi [0..<length (madt_io_apics s)] s"

definition redirect_entry :: "u32 \<Rightarrow> u8 \<Rightarrow> u16 \<Rightarrow> bool \<Rightarrow> u64" where
  "redirect_entry lapic vector flags status =
     (let r0 = ucast vector;
          r1 = (if flags AND push_bit 1 1 \<noteq> 0 then r0 OR push_bit 13 1 else r0);
          r2 = (if flags AND push_bit 3 1 \<noteq> 0 then r1 OR push_bit 15 1 else r1);
          r3 = (if \<not> status then r2 OR push_bit 16 1 else r2)
      in r3 OR push_bit 56 (ucast lapic))"

definition io_apic_set_gsi_redirect ::
  "u32 \<Rightarrow> u8 \<Rightarrow> u32 \<Rightarrow> u16 \<Rightarrow> bool \<Rightarrow> 'a platform_scheme \<Rightarrow> kstop + 'a platform_scheme" where
  "io_apic_set_gsi_redirect lapic vector gsi flags status s =
     bindR (io_apic_from_gsi gsi s) (\<lambda>(io, s1).
       (let redirect = redirect_entry lapic vector flags status;
            ioredtbl = (gsi - gsib (madt_io_apics s1 ! io)) * 2 + 16
        in Inr (io_apic_write io (ioredtbl + 1) (ucast (drop_bit 32 redirect))
                  (io_apic_write io ioredtbl (ucast redirect) s1))))"

definition io_apic_set_irq_redirect ::
  "u32 \<Rightarrow> u8 \<Rightarrow> u8 \<Rightarrow> bool \<Rightarrow> 'a platform_scheme \<Rightarrow> kstop + 'a platform_scheme" where
  "io_apic_set_irq_redirect lapic vector irq status s =
     (case List.find (\<lambda>ov. irq_source ov = irq) (madt_isos s) of
        Some ov \<Rightarrow> io_apic_set_gsi_redirect lapic vector (iso_gsi ov) (iso_flags ov) status s
      | None \<Rightarrow> io_apic_set_gsi_redirect lapic vector (ucast irq) 0 status s)"

section \<open>Register accesses\<close>

lemma ucast_ucast_widen:
  "LENGTH('a) \<le> LENGTH('b) \<Longrightarrow> ucast (ucast (x :: 'a::len word) :: 'b::len word) = (ucast x :: 'c::len word)"
  by (rule bit_eqI) (auto simp: bit_simps dest: bit_imp_le_length)


lemma lapic_find_simps [simp]:
  "io_log (lapic_find s) = io_log s" "io_device (lapic_find s) = io_device s"
  "hpet (lapic_find s) = hpet s" "have_hpet (lapic_find s) = have_hpet s"
  "madt_io_apics (lapic_find s) = madt_io_apics s" "madt_isos (lapic_find s) = madt_isos s"
  "lapic_base s \<noteq> 0 \<Longrightarrow> lapic_find s = s"
  by (simp_all add: lapic_find_def)

lemma lapic_base_found [simp]: "lapic_base (lapic_find s) \<noteq> 0"
proof -
  have "apic_base_msr s AND 0xfffff000 \<le> 0xfffff000"
    by (rule word_and_le1)
  then have "apic_base_msr s AND 0xfffff000 \<noteq> - HIGHER_HALF"
    by auto
  then show ?thesis
    by (auto simp: lapic_find_def add_eq_0_iff2)
qed

text \<open>What register accesses leave alone.\<close>

lemma mm_fields [simp]:
  "lapic_base (mmout32 a v s) = lapic_base s" "lapic_base (snd (mmin32 a s)) = lapic_base s"
  "lapic_base (snd (mmin64 a s)) = lapic_base s"
  "hpet (mmout32 a v s) = hpet s" "hpet (snd (mmin32 a s)) = hpet s" "hpet (snd (mmin64 a s)) = hpet s"
  "io_device (mmout32 a v s) = io_device s" "io_device (snd (mmin32 a s)) = io_device s"
  "io_device (snd (mmin64 a s)) = io_device s"
  "madt_io_apics (mmout32 a v s) = madt_io_apics s" "madt_io_apics (snd (mmin32 a s)) = madt_io_apics s"
  "io_log (mmout32 a v s) = io_log s @ [MmOut 32 a (ucast v)]" "io_log (snd (mmin32 a s)) = io_log s @ [MmIn 32 a]"
  "io_log (snd (mmin64 a s)) = io_log s @ [MmIn 64 a]"
  "fst (mmin32 a s) = ucast (io_device s (io_log s @ [MmIn 32 a]))"
  "fst (mmin64 a s) = io_device s (io_log s @ [MmIn 64 a])"
  by (simp_all add: io_defs Let_def)

lemma lapic_write_fields [simp]:
  "hpet (lapic_write r v s) = hpet s" "io_device (lapic_write r v s) = io_device s"
  "lapic_base (lapic_write r v s) = lapic_base (lapic_find s)"
  "io_log (lapic_write r v s) = io_log s @ [MmOut 32 (lapic_base (lapic_find s) + ucast r) (ucast v)]"
  by (simp_all add: lapic_write_def Let_def)

lemma lapic_read_fields [simp]:
  "hpet (snd (lapic_read r s)) = hpet s" "io_device (snd (lapic_read r s)) = io_device s"
  "lapic_base (snd (lapic_read r s)) = lapic_base (lapic_find s)"
  "io_log (snd (lapic_read r s)) = io_log s @ [MmIn 32 (lapic_base (lapic_find s) + ucast r)]"
  "fst (lapic_read r s) = ucast (io_device s (io_log s @ [MmIn 32 (lapic_base (lapic_find s) + ucast r)]))"
  by (simp_all add: lapic_read_def Let_def)

section \<open>Waiting for the countdown\<close>

definition curcnt_read :: "'a platform_scheme \<Rightarrow> bus_access" where
  "curcnt_read s = MmIn 32 (lapic_base s + 0x390)"

lemma lapic_wait_zero_returns:
  assumes "lapic_base s \<noteq> 0"
    and "(ucast (io_device s (io_log s @ replicate (Suc n) (curcnt_read s))) :: u32) = 0"
  shows "\<exists>s' k. lapic_wait_zero s = Some s' \<and> hpet s' = hpet s \<and> io_device s' = io_device s \<and>
           io_log s' = io_log s @ replicate (Suc k) (curcnt_read s) \<and> lapic_base s' = lapic_base s"
  using assms
proof (induction n arbitrary: s)
  case 0
  then show ?case
    by (intro exI [of _ "snd (lapic_read LAPIC_REG_TIMER_CURCNT s)"] exI [of _ 0])
      (subst lapic_wait_zero.simps, simp add: split_beta Let_def curcnt_read_def lapic_regs)
next
  case (Suc n)
  let ?s1 = "snd (lapic_read LAPIC_REG_TIMER_CURCNT s)"
  have c: "curcnt_read ?s1 = curcnt_read s" and l: "io_log ?s1 = io_log s @ [curcnt_read s]"
    using Suc.prems(1) by (simp_all add: curcnt_read_def lapic_regs)
  show ?case
  proof (cases "fst (lapic_read LAPIC_REG_TIMER_CURCNT s) = 0")
    case True
    then show ?thesis
      using l Suc.prems(1)
      by (intro exI [of _ ?s1] exI [of _ 0]) (subst lapic_wait_zero.simps, simp add: split_beta Let_def)
  next
    case False
    then have "lapic_wait_zero s = lapic_wait_zero ?s1"
      by (subst lapic_wait_zero.simps) (simp add: split_beta Let_def)
    moreover obtain s' k where "lapic_wait_zero ?s1 = Some s'" "hpet s' = hpet ?s1" "io_device s' = io_device ?s1"
      "io_log s' = io_log ?s1 @ replicate (Suc k) (curcnt_read ?s1)" "lapic_base s' = lapic_base ?s1"
      using Suc.IH [of ?s1] Suc.prems c l by auto
    ultimately show ?thesis
      using c l Suc.prems(1) by (intro exI [of _ s'] exI [of _ "Suc k"]) simp
  qed
qed

section \<open>Properties of the timer\<close>

definition hpet_period :: "u64 \<Rightarrow> u64" where
  "hpet_period cap = drop_bit 32 cap AND 0xffffffff"

lemma calibrated_frequency:
  assumes "lapic_timer_calibrate s = Some (Inr (f, s'))"
  shows "1000000 \<le> f" "f \<le> 100000000000"
  using assms
  by (auto simp: lapic_timer_calibrate_def Let_def not_less split: if_splits option.splits prod.splits)


definition demo_platform :: platform where
  "demo_platform =
     \<lparr>io_log = [],
      io_device = (\<lambda>log. case last log of MmIn w a \<Rightarrow>
         if w = 32 then 0 else if a = 0xFFFF8000FED00000 then 0x0098968000000000 else of_nat (length log) | _ \<Rightarrow> 0),
      lapic_base = 0, apic_base_msr = 0xFEE00900, hpet = 0xFFFF8000FED00000, have_hpet = True,
      madt_io_apics = [\<lparr>ioapic_id = 0, ioapic_address = 0xFEC00000, gsib = 0\<rparr>],
      madt_isos = [\<lparr>bus_source = 0, irq_source = 0, iso_gsi = 2, iso_flags = 0\<rparr>]\<rparr>"


lemma oneshot_count:
  fixes f micros :: u64
  assumes "f \<le> 100000000000" "unat micros \<le> 42949"
  shows "unat (micros * (f div 1000000)) = unat micros * (unat f div 1000000)"
    and "unat micros * (unat f div 1000000) < 2 ^ 32"
proof -
  have "unat f \<le> 100000000000"
    using assms(1) by (simp add: word_le_nat_alt)
  then have "unat f div 1000000 \<le> 100000"
    by linarith
  then have "unat micros * (unat f div 1000000) \<le> 42949 * 100000"
    using assms(2) by (intro mult_le_mono)
  moreover have "unat (f div 1000000) = unat f div 1000000"
    by (simp add: unat_div)
  ultimately show "unat micros * (unat f div 1000000) < 2 ^ 32"
    "unat (micros * (f div 1000000)) = unat micros * (unat f div 1000000)"
    by (simp_all add: unat_mult_small)
qed

text \<open>
  C37: The count of the one-shot timer never overflows.  With a calibrated frequency and a delay of at
  most 42949 microseconds, which covers the time slice of 5000 and the idle wait of 20000 that the
  scheduler asks for, the product of delay and frequency fits the 32-bit register, so that the
  truncation in the code changes nothing; the timer is stopped, and then programmed with the vector,
  divisor and exactly that count, in this order.
\<close>

theorem lapic_timer_programs:
  assumes "lapic_timer_calibrate s0 = Some (Inr (f, s1))" "unat micros \<le> 42949"
  defines "count \<equiv> unat micros * (unat f div 1000000)"
  shows "count < 2 ^ 32 \<and>
    (let b = lapic_base (lapic_find s)
     in io_log (lapic_timer_oneshot f vector micros s) = io_log s @
          [MmOut 32 (b + 0x380) 0, MmOut 32 (b + 0x320) 0x10000, MmOut 32 (b + 0x320) (ucast vector),
           MmOut 32 (b + 0x3e0) 0xb, MmOut 32 (b + 0x380) (of_nat count), MmIn 32 (b + 0x320)])"
proof -
  note f = oneshot_count [OF calibrated_frequency(2) [OF assms(1)] assms(2)]
  have "(of_nat count :: u64) = micros * (f div 1000000)"
    unfolding count_def f(1) [symmetric] by simp
  moreover have "take_bit 32 (micros * (f div 1000000)) = micros * (f div 1000000)"
    using f by (simp add: word_unat_eq_iff unsigned_take_bit_eq take_bit_nat_eq_self)
  ultimately have "(ucast (ucast (micros * (f div 1000000)) :: u32) :: u64) = of_nat count"
    by (simp add: unsigned_ucast_eq)
  then show ?thesis
    using f(2)
    by (simp add: lapic_timer_oneshot_def lapic_timer_stop_def Let_def lapic_regs count_def ucast_ucast_widen)
qed

lemma calibrate_fallback: "lapic_timer_calibrate (s\<lparr>have_hpet := False\<rparr>) = Some (Inr (1000000000, s\<lparr>have_hpet := False\<rparr>))"
  by (simp add: lapic_timer_calibrate_def)

theorem lapic_timer_programs_witness:
  "io_log (lapic_timer_oneshot 1000000000 0x21 5000 demo_platform) =
     [MmOut 32 0xFFFF8000FEE00380 0, MmOut 32 0xFFFF8000FEE00320 0x10000, MmOut 32 0xFFFF8000FEE00320 0x21,
      MmOut 32 0xFFFF8000FEE003E0 0xb, MmOut 32 0xFFFF8000FEE00380 5000000, MmIn 32 0xFFFF8000FEE00320]"
  using lapic_timer_programs [OF calibrate_fallback [of demo_platform], where micros = 5000 and s = demo_platform and vector = "0x21"]
  by (simp add: Let_def demo_platform_def lapic_find_def)

section \<open>Redirection entries\<close>

text \<open>
  An entry carries its vector, the active-low bit for polarity flag 2, the level bit for trigger flag 8,
  the mask bit exactly when the interrupt is disabled, and the low eight bits of the target controller.
\<close>

lemma and_push_bit_1: "(w :: 'a::len word) AND push_bit n 1 \<noteq> 0 \<longleftrightarrow> n < LENGTH('a) \<and> bit w n"
  unfolding bit_eq_iff [of "w AND push_bit n 1" 0] by (auto simp: bit_simps)

lemma bit_redirect_entry:
  "bit (redirect_entry lapic vector flags status) n \<longleftrightarrow>
     (if n < 8 then bit vector n
      else if n = 13 then bit flags 1
      else if n = 15 then bit flags 3
      else if n = 16 then \<not> status
      else 56 \<le> n \<and> n < 64 \<and> bit lapic (n - 56))"
proof -
  have k: "flags AND push_bit 1 1 \<noteq> 0 \<longleftrightarrow> bit flags 1" "flags AND push_bit 3 1 \<noteq> 0 \<longleftrightarrow> bit flags 3"
    by (simp_all only: and_push_bit_1) simp_all
  have b: "bit (push_bit 13 (1 :: u64)) n \<longleftrightarrow> n = 13" "bit (push_bit 15 (1 :: u64)) n \<longleftrightarrow> n = 15"
    "bit (push_bit 16 (1 :: u64)) n \<longleftrightarrow> n = 16"
    by (simp_all only: bit_push_bit_iff bit_1_iff) auto
  have v: "bit (ucast vector :: u64) n \<longleftrightarrow> n < 8 \<and> bit vector n"
    by (auto simp: bit_simps dest: bit_imp_le_length)
  have l: "bit (push_bit 56 (ucast lapic :: u64)) n \<longleftrightarrow> 56 \<le> n \<and> n < 64 \<and> bit lapic (n - 56)"
    by (auto simp: bit_simps)
  show ?thesis
    unfolding redirect_entry_def Let_def k
    by (cases "bit flags 1"; cases "bit flags 3"; cases status) (simp_all only: if_True if_False simp_thms bit_or_iff b v l, auto)
qed

text \<open>The controller chosen for an interrupt number has it in the range it reports.\<close>

lemma io_apic_search_range:
  assumes "io_apic_search gsi is s = Inr (i, s')"
  shows "i \<in> set is \<and> gsib (madt_io_apics s ! i) \<le> gsi \<and> madt_io_apics s' = madt_io_apics s"
  using assms
proof (induction "is" arbitrary: s)
  case (Cons j js)
  have keep: "madt_io_apics (snd (io_apic_gsi_count i s)) = madt_io_apics s" for i and s :: "'a platform_scheme"
    by (simp add: io_apic_gsi_count_def io_apic_read_def split_beta Let_def)
  show ?case
    using Cons.prems Cons.IH [of "snd (io_apic_gsi_count j s)"]
      Cons.IH [of "snd (io_apic_gsi_count j (snd (io_apic_gsi_count j s)))"]
    by (auto simp: split_beta Let_def keep split: if_splits)
qed simp

end
