(* ===== verification/Sched.thy ===== *)
theory Sched
  imports Apic Tables
begin

text \<open>
  The scheduler of \<^verbatim>\<open>kernel/src/scheduler/scheduler.c\<close> and the process table of
  \<^verbatim>\<open>kernel/src/proc/proc.c\<close>: the run queue, the choice of the next thread, the context switch in the
  scheduler interrupt, yielding and dying.

  Threads and processor blocks are structures in memory; the model keeps them in typed stores indexed
  by their addresses.  What differs per processor, the segment bases, the page table register and the
  floating point registers, is indexed by the processor's number.  A handler runs without
  interference from other processors; the locks it takes record what it would protect.
\<close>

section \<open>Structures\<close>

record thread_t =
  t_cpuid :: u64
  t_self :: addr
  t_errnum :: u64
  t_kernel_stack :: u64
  t_tid :: u64
  t_is_in_queue :: bool
  t_lock :: lock_t
  t_process :: addr
  t_cpu_state :: cpu_status_t
  t_gs_base :: u64
  t_fs_base :: u64
  t_pf_stack :: u64
  t_cr3 :: u64
  t_fpu_storage :: addr
  t_yield_await :: lock_t
  t_timeslice :: u64
  t_enqueued_by_signal :: bool
  t_sigactions :: "u64 list"
  t_stacks :: "addr list"

record local_cpu_t =
  cpu_number :: u64
  cpu_zero :: u64
  tss_ist3 :: u64
  lapic_id :: u32
  lapic_timer_freq :: u64
  is_idle :: bool
  last_run_queue_index :: int
  aborted :: bool

record cpu_regs =
  gs_base :: u64
  kernel_gs_base :: u64
  fs_base :: u64
  cr3 :: u64
  fpu :: "u8 list"

record sched_state = platform +
  scheduler_running_queue :: "addr list"
  thread_at :: "addr \<Rightarrow> thread_t"
  local_cpus :: "local_cpu_t list"
  cpu_block :: "nat \<Rightarrow> addr"
  regs :: "nat \<Rightarrow> cpu_regs"
  fpu_area :: "addr \<Rightarrow> u8 list"
  working_cpus :: u64
  startup_phase_ignore_heartbeat :: bool
  scheduler_ready :: bool
  scheduler_vector :: u8
  waiting_event_count :: u64
  sched_isr_count :: u32
  processes :: "addr list"

definition MAX_THREADS :: nat where "MAX_THREADS = 512"
definition PROC_MAX_PROCESSES :: nat where "PROC_MAX_PROCESSES = 65536"

definition upd_thread :: "addr \<Rightarrow> (thread_t \<Rightarrow> thread_t) \<Rightarrow> sched_state \<Rightarrow> sched_state" where
  "upd_thread t f s = s\<lparr>thread_at := (thread_at s)(t := f (thread_at s t))\<rparr>"

definition upd_cpu :: "nat \<Rightarrow> (local_cpu_t \<Rightarrow> local_cpu_t) \<Rightarrow> sched_state \<Rightarrow> sched_state" where
  "upd_cpu j f s = s\<lparr>local_cpus := (local_cpus s)[j := f (local_cpus s ! j)]\<rparr>"

definition upd_regs :: "nat \<Rightarrow> (cpu_regs \<Rightarrow> cpu_regs) \<Rightarrow> sched_state \<Rightarrow> sched_state" where
  "upd_regs k f s = s\<lparr>regs := (regs s)(k := f (regs s k))\<rparr>"

section \<open>The current processor and the current thread\<close>

text \<open>
  The base of the GS segment of a processor is the address of its own block, or of the thread that
  runs on it.  The first quadword of either is the processor's number, the second is zero in a block
  and the thread's own address in a thread.
\<close>

definition gs_block :: "nat \<Rightarrow> sched_state \<Rightarrow> nat option" where
  "gs_block k s = List.find (\<lambda>i. cpu_block s i = gs_base (regs s k)) [0..<length (local_cpus s)]"

definition gs_cpu :: "nat \<Rightarrow> sched_state \<Rightarrow> u64" where
  "gs_cpu k s =
     (case gs_block k s of Some i \<Rightarrow> cpu_number (local_cpus s ! i) | None \<Rightarrow> t_cpuid (thread_at s (gs_base (regs s k))))"

definition get_current_thread :: "nat \<Rightarrow> sched_state \<Rightarrow> addr" where
  "get_current_thread k s =
     (case gs_block k s of Some i \<Rightarrow> cpu_zero (local_cpus s ! i) | None \<Rightarrow> t_self (thread_at s (gs_base (regs s k))))"

definition cpu_get_current :: "cpu_ctx \<Rightarrow> nat \<Rightarrow> sched_state \<Rightarrow> kstop + nat" where
  "cpu_get_current c k s =
     (if cpu_interrupt_state c
      then Inl (Panic ''Fetching current CPU without disabling interrupts is dangerous!'')
      else Inr (unat (gs_cpu k s)))"

text \<open>The context in which lock operations run: the processor number they read is the one at GS:0.\<close>

definition ctx :: "cpu_ctx \<Rightarrow> nat \<Rightarrow> sched_state \<Rightarrow> cpu_ctx" where
  "ctx c k s = c\<lparr>gs_cpu_number := gs_cpu k s\<rparr>"

section \<open>Choosing the next thread\<close>

fun next_scan :: "cpu_ctx \<Rightarrow> nat \<Rightarrow> u64 \<Rightarrow> nat \<Rightarrow> int \<Rightarrow> sched_state \<Rightarrow> addr \<times> int \<times> sched_state" where
  "next_scan c k num 0 index s = (0, - 1, s)"
| "next_scan c k num (Suc n) index s =
     (let i = (if index \<ge> int MAX_THREADS then 0 else index);
          t = scheduler_running_queue s ! nat i
      in if t = 0 then next_scan c k num n (i + 1) s
         else if t_cpuid (thread_at s t) = num then (t, i, s)
         else (let (got, l) = lock_test_and_acquire (ctx c k s) ''get_next_thread'' (t_lock (thread_at s t));
                   s1 = upd_thread t (\<lambda>th. th\<lparr>t_lock := l\<rparr>) s
               in if got then (t, i, s1) else next_scan c k num n (i + 1) s1))"

definition get_next_thread ::
  "cpu_ctx \<Rightarrow> nat \<Rightarrow> int \<Rightarrow> sched_state \<Rightarrow> kstop + (addr \<times> int \<times> sched_state)" where
  "get_next_thread c k orig_i s =
     bindR (cpu_get_current c k s) (\<lambda>j.
       Inr (next_scan c k (cpu_number (local_cpus s ! j)) MAX_THREADS (orig_i + 1) s))"

section \<open>The run queue\<close>

definition wake_idle :: "sched_state \<Rightarrow> sched_state" where
  "wake_idle s =
     (case List.find is_idle (local_cpus s) of
        Some cpu \<Rightarrow> lapic_send_ipi (ucast (lapic_id cpu)) (scheduler_vector s) s
      | None \<Rightarrow> s)"

definition enqueue_slot :: "addr \<Rightarrow> sched_state \<Rightarrow> nat option \<times> sched_state" where
  "enqueue_slot thread s =
     (case first_index (\<lambda>x. x = 0) (scheduler_running_queue s) of
        Some i \<Rightarrow>
          (Some i,
           (wake_idle (upd_thread thread (\<lambda>th. th\<lparr>t_is_in_queue := True\<rparr>)
              (s\<lparr>scheduler_running_queue := (scheduler_running_queue s)[i := thread]\<rparr>)))
             \<lparr>startup_phase_ignore_heartbeat := False\<rparr>)
      | None \<Rightarrow> (None, s))"

definition enqueue_thread :: "addr \<Rightarrow> bool \<Rightarrow> sched_state \<Rightarrow> bool \<times> sched_state" where
  "enqueue_thread thread by_signal s =
     (if t_is_in_queue (thread_at s thread) then (True, s)
      else
        (let s1 = upd_thread thread (\<lambda>th. th\<lparr>t_enqueued_by_signal := by_signal\<rparr>) s;
             (slot, s2) = enqueue_slot thread s1
         in (slot \<noteq> None, s2)))"

definition scheduler_dequeue_thread :: "addr \<Rightarrow> sched_state \<Rightarrow> bool \<times> sched_state" where
  "scheduler_dequeue_thread thread s =
     (if \<not> t_is_in_queue (thread_at s thread) then (True, s)
      else
        (case first_index (\<lambda>x. x = thread) (scheduler_running_queue s) of
           Some i \<Rightarrow>
             (True, upd_thread thread (\<lambda>th. th\<lparr>t_is_in_queue := False\<rparr>)
                      (s\<lparr>scheduler_running_queue := (scheduler_running_queue s)[i := 0]\<rparr>))
         | None \<Rightarrow> (False, s)))"

section \<open>The process table\<close>

definition pid_slot :: "addr \<Rightarrow> sched_state \<Rightarrow> nat option \<times> sched_state" where
  "pid_slot p s =
     (case first_index (\<lambda>x. x = 0) (processes s) of
        Some i \<Rightarrow> (Some i, s\<lparr>processes := (processes s)[i := p]\<rparr>)
      | None \<Rightarrow> (None, s))"

definition proc_allocate_pid :: "addr \<Rightarrow> sched_state \<Rightarrow> kstop + (u64 \<times> sched_state)" where
  "proc_allocate_pid p s =
     (case pid_slot p s of
        (Some i, s') \<Rightarrow> Inr (of_nat i, s')
      | (None, s') \<Rightarrow> Inl (Panic ''PID exhaustion!''))"

section \<open>The scheduler interrupt\<close>

datatype isr_outcome = Same_thread | Switched cpu_status_t | Awaiting

definition fpu_save :: "nat \<Rightarrow> addr \<Rightarrow> sched_state \<Rightarrow> sched_state" where
  "fpu_save k a s = s\<lparr>fpu_area := (fpu_area s)(a := fpu (regs s k))\<rparr>"

definition fpu_restore :: "nat \<Rightarrow> addr \<Rightarrow> sched_state \<Rightarrow> sched_state" where
  "fpu_restore k a s = upd_regs k (\<lambda>r. r\<lparr>fpu := fpu_area s a\<rparr>) s"

text \<open>Idling: a timer of 20 ms and a halt loop that only an interrupt leaves.\<close>

definition scheduler_await :: "cpu_ctx \<Rightarrow> nat \<Rightarrow> sched_state \<Rightarrow> kstop + sched_state" where
  "scheduler_await c k s =
     bindR (cpu_get_current (c\<lparr>rflags := rflags c AND NOT 0x200\<rparr>) k s) (\<lambda>j.
       Inr (lapic_timer_oneshot (lapic_timer_freq (local_cpus s ! j)) (scheduler_vector s) 20000 s))"

text \<open>The part of the handler that deals with the interrupted thread; True means that it goes on running.\<close>

definition isr_leave ::
  "cpu_ctx \<Rightarrow> nat \<Rightarrow> nat \<Rightarrow> addr \<Rightarrow> addr \<Rightarrow> cpu_status_t \<Rightarrow> sched_state \<Rightarrow> kstop + (bool \<times> sched_state)" where
  "isr_leave c k j cur new status s =
     (if cur = 0 then Inr (False, s)
      else
        bindR (lock_release (ctx c k s) (t_yield_await (thread_at s cur))) (\<lambda>y.
          (let s1 = upd_thread cur (\<lambda>th. th\<lparr>t_yield_await := y\<rparr>) s
           in if new = cur \<and> t_is_in_queue (thread_at s1 cur)
              then Inr (True, lapic_timer_oneshot (lapic_timer_freq (local_cpus s1 ! j)) (scheduler_vector s1)
                                (t_timeslice (thread_at s1 cur)) (lapic_eoi s1))
              else
                (let s2 = upd_thread cur (\<lambda>th. th\<lparr>t_cpu_state := status, t_gs_base := kernel_gs_base (regs s1 k),
                            t_fs_base := fs_base (regs s1 k), t_cr3 := cr3 (regs s1 k)\<rparr>) s1;
                     s3 = fpu_save k (t_fpu_storage (thread_at s2 cur)) s2;
                     s4 = upd_thread cur (\<lambda>th. th\<lparr>t_cpuid := - 1\<rparr>) s3
                 in bindR (lock_release (ctx c k s4) (t_lock (thread_at s4 cur))) (\<lambda>l.
                      (let s5 = upd_thread cur (\<lambda>th. th\<lparr>t_lock := l\<rparr>) s4
                       in Inr (False, s5\<lparr>working_cpus := working_cpus s5 - 1\<rparr>)))))))"

definition isr_idle :: "cpu_ctx \<Rightarrow> nat \<Rightarrow> nat \<Rightarrow> sched_state \<Rightarrow> kstop + sched_state" where
  "isr_idle c k j s =
     (let s1 = upd_regs k (\<lambda>r. r\<lparr>gs_base := cpu_block s j, kernel_gs_base := cpu_block s j\<rparr>) (lapic_eoi s);
          s2 = upd_cpu j (\<lambda>u. u\<lparr>last_run_queue_index := 0, is_idle := True\<rparr>) s1
      in if waiting_event_count s2 = 0 \<and> working_cpus s2 = 0 \<and> \<not> startup_phase_ignore_heartbeat s2
         then Inl (Panic ''Event heartbeat has flatlined :('')
         else scheduler_await c k s2)"

definition isr_enter :: "nat \<Rightarrow> nat \<Rightarrow> addr \<Rightarrow> int \<Rightarrow> sched_state \<Rightarrow> cpu_status_t \<times> sched_state" where
  "isr_enter k j new idx s =
     (let s1 = upd_cpu j (\<lambda>u. u\<lparr>last_run_queue_index := idx\<rparr>) (s\<lparr>working_cpus := working_cpus s + 1\<rparr>);
          th = thread_at s1 new;
          s2 = upd_regs k (\<lambda>r. r\<lparr>gs_base := (if st_cs (t_cpu_state th) = USER_CODE_SEGMENT then t_gs_base th else new),
                             kernel_gs_base := new, fs_base := t_fs_base th\<rparr>) s1;
          s3 = upd_cpu j (\<lambda>u. u\<lparr>tss_ist3 := t_pf_stack th\<rparr>) s2;
          s4 = (if cr3 (regs s3 k) \<noteq> t_cr3 th then upd_regs k (\<lambda>r. r\<lparr>cr3 := t_cr3 th\<rparr>) s3 else s3);
          s5 = fpu_restore k (t_fpu_storage th) s4;
          s6 = upd_thread new (\<lambda>t. t\<lparr>t_cpuid := cpu_number (local_cpus s5 ! j)\<rparr>) s5;
          s7 = lapic_timer_oneshot (lapic_timer_freq (local_cpus s6 ! j)) (scheduler_vector s6)
                 (t_timeslice th) (lapic_eoi s6)
      in (t_cpu_state th, s7))"

definition scheduler_isr ::
  "cpu_ctx \<Rightarrow> nat \<Rightarrow> cpu_status_t \<Rightarrow> sched_state \<Rightarrow> kstop + (isr_outcome \<times> sched_state)" where
  "scheduler_isr c k status s =
     (let s1 = lapic_timer_stop (s\<lparr>sched_isr_count := sched_isr_count s + 1\<rparr>)
      in bindR (cpu_get_current c k s1) (\<lambda>j.
           (let s2 = upd_cpu j (\<lambda>u. u\<lparr>is_idle := False\<rparr>) s1;
                cur = get_current_thread k s2
            in bindR (get_next_thread c k (last_run_queue_index (local_cpus s2 ! j)) s2) (\<lambda>(new, idx, s3).
                 bindR (isr_leave c k j cur new status s3) (\<lambda>(same, s4).
                   if same then Inr (Same_thread, s4)
                   else if new = 0 then bindR (isr_idle c k j s4) (\<lambda>s5. Inr (Awaiting, s5))
                   else (let (st, s5) = isr_enter k j new idx s4 in Inr (Switched st, s5)))))))"

section \<open>Yielding\<close>

text \<open>
  Yielding sends the scheduler interrupt to the own processor.  With a saved context the caller then
  spins on its own lock until the interrupt has released it, which happens after it has been switched
  out and in again; the two definitions are the parts before and after that point.  Without one it
  halts for good.
\<close>

definition scheduler_yield_begin ::
  "cpu_ctx \<Rightarrow> nat \<Rightarrow> bool \<Rightarrow> sched_state \<Rightarrow> kstop + (cpu_ctx \<times> sched_state)" where
  "scheduler_yield_begin c0 k save_context s0 =
     (let c = c0\<lparr>rflags := rflags c0 AND NOT 0x200\<rparr>;
          s = lapic_timer_stop s0
      in bindR (cpu_get_current c k s) (\<lambda>j.
           bindR (if save_context
                  then (let cur = get_current_thread k s
                        in bindR (lock_acquire (ctx c k s) ''scheduler_yield'' (t_yield_await (thread_at s cur))) (\<lambda>y.
                             Inr (upd_thread cur (\<lambda>th. th\<lparr>t_yield_await := y\<rparr>) s)))
                  else Inr (upd_regs k (\<lambda>r. r\<lparr>gs_base := cpu_block s j, kernel_gs_base := cpu_block s j\<rparr>) s)) (\<lambda>s1.
             (let s2 = lapic_send_ipi (ucast (lapic_id (local_cpus s1 ! j))) (scheduler_vector s1) s1
              in Inr (c\<lparr>rflags := rflags c OR 0x200\<rparr>, s2)))))"

definition scheduler_yield_end :: "cpu_ctx \<Rightarrow> nat \<Rightarrow> addr \<Rightarrow> sched_state \<Rightarrow> kstop + sched_state" where
  "scheduler_yield_end c k cur s =
     bindR (lock_acquire (ctx c k s) ''scheduler_yield'' (t_yield_await (thread_at s cur))) (\<lambda>y.
       bindR (lock_release (ctx c k s) y) (\<lambda>y'.
         Inr (upd_thread cur (\<lambda>th. th\<lparr>t_yield_await := y'\<rparr>) s)))"

definition scheduler_dequeue_and_die :: "cpu_ctx \<Rightarrow> nat \<Rightarrow> sched_state \<Rightarrow> kstop + (cpu_ctx \<times> sched_state)" where
  "scheduler_dequeue_and_die c k s =
     (let t = get_current_thread k s
      in scheduler_yield_begin (c\<lparr>rflags := rflags c AND NOT 0x200\<rparr>) k False (snd (scheduler_dequeue_thread t s)))"

section \<open>What the controller accesses leave alone\<close>

lemma lapic_find_sched [simp]:
  "scheduler_running_queue (lapic_find s) = scheduler_running_queue s"
  "thread_at (lapic_find s) = thread_at s"
  "local_cpus (lapic_find s) = local_cpus s"
  "cpu_block (lapic_find s) = cpu_block s"
  "regs (lapic_find s) = regs s"
  "fpu_area (lapic_find s) = fpu_area s"
  "working_cpus (lapic_find s) = working_cpus s"
  "startup_phase_ignore_heartbeat (lapic_find s) = startup_phase_ignore_heartbeat s"
  "scheduler_ready (lapic_find s) = scheduler_ready s"
  "scheduler_vector (lapic_find s) = scheduler_vector s"
  "waiting_event_count (lapic_find s) = waiting_event_count s"
  "processes (lapic_find s) = processes s"
  by (simp_all add: lapic_find_def)

lemma lapic_write_sched [simp]:
  "scheduler_running_queue (lapic_write r v s) = scheduler_running_queue s"
  "thread_at (lapic_write r v s) = thread_at s"
  "local_cpus (lapic_write r v s) = local_cpus s"
  "cpu_block (lapic_write r v s) = cpu_block s"
  "regs (lapic_write r v s) = regs s"
  "fpu_area (lapic_write r v s) = fpu_area s"
  "working_cpus (lapic_write r v s) = working_cpus s"
  "startup_phase_ignore_heartbeat (lapic_write r v s) = startup_phase_ignore_heartbeat s"
  "scheduler_ready (lapic_write r v s) = scheduler_ready s"
  "scheduler_vector (lapic_write r v s) = scheduler_vector s"
  "waiting_event_count (lapic_write r v s) = waiting_event_count s"
  "processes (lapic_write r v s) = processes s"
  by (simp_all add: lapic_write_def io_defs Let_def)

lemma lapic_read_sched [simp]:
  "scheduler_running_queue (snd (lapic_read r s)) = scheduler_running_queue s"
  "thread_at (snd (lapic_read r s)) = thread_at s"
  "local_cpus (snd (lapic_read r s)) = local_cpus s"
  "cpu_block (snd (lapic_read r s)) = cpu_block s"
  "regs (snd (lapic_read r s)) = regs s"
  "fpu_area (snd (lapic_read r s)) = fpu_area s"
  "working_cpus (snd (lapic_read r s)) = working_cpus s"
  "startup_phase_ignore_heartbeat (snd (lapic_read r s)) = startup_phase_ignore_heartbeat s"
  "scheduler_ready (snd (lapic_read r s)) = scheduler_ready s"
  "scheduler_vector (snd (lapic_read r s)) = scheduler_vector s"
  "waiting_event_count (snd (lapic_read r s)) = waiting_event_count s"
  "processes (snd (lapic_read r s)) = processes s"
  by (simp_all add: lapic_read_def io_defs Let_def)

lemma lapic_timer_stop_sched [simp]:
  "scheduler_running_queue (lapic_timer_stop s) = scheduler_running_queue s"
  "thread_at (lapic_timer_stop s) = thread_at s"
  "local_cpus (lapic_timer_stop s) = local_cpus s"
  "cpu_block (lapic_timer_stop s) = cpu_block s"
  "regs (lapic_timer_stop s) = regs s"
  "fpu_area (lapic_timer_stop s) = fpu_area s"
  "working_cpus (lapic_timer_stop s) = working_cpus s"
  "startup_phase_ignore_heartbeat (lapic_timer_stop s) = startup_phase_ignore_heartbeat s"
  "scheduler_ready (lapic_timer_stop s) = scheduler_ready s"
  "scheduler_vector (lapic_timer_stop s) = scheduler_vector s"
  "waiting_event_count (lapic_timer_stop s) = waiting_event_count s"
  "processes (lapic_timer_stop s) = processes s"
  by (simp_all add: lapic_timer_stop_def)

lemma lapic_send_ipi_sched [simp]:
  "scheduler_running_queue (lapic_send_ipi i v s) = scheduler_running_queue s"
  "thread_at (lapic_send_ipi i v s) = thread_at s"
  "local_cpus (lapic_send_ipi i v s) = local_cpus s"
  "cpu_block (lapic_send_ipi i v s) = cpu_block s"
  "regs (lapic_send_ipi i v s) = regs s"
  "fpu_area (lapic_send_ipi i v s) = fpu_area s"
  "working_cpus (lapic_send_ipi i v s) = working_cpus s"
  "startup_phase_ignore_heartbeat (lapic_send_ipi i v s) = startup_phase_ignore_heartbeat s"
  "scheduler_ready (lapic_send_ipi i v s) = scheduler_ready s"
  "scheduler_vector (lapic_send_ipi i v s) = scheduler_vector s"
  "waiting_event_count (lapic_send_ipi i v s) = waiting_event_count s"
  "processes (lapic_send_ipi i v s) = processes s"
  by (simp_all add: lapic_send_ipi_def)

lemma lapic_eoi_sched [simp]:
  "scheduler_running_queue (lapic_eoi s) = scheduler_running_queue s"
  "thread_at (lapic_eoi s) = thread_at s"
  "local_cpus (lapic_eoi s) = local_cpus s"
  "cpu_block (lapic_eoi s) = cpu_block s"
  "regs (lapic_eoi s) = regs s"
  "fpu_area (lapic_eoi s) = fpu_area s"
  "working_cpus (lapic_eoi s) = working_cpus s"
  "startup_phase_ignore_heartbeat (lapic_eoi s) = startup_phase_ignore_heartbeat s"
  "scheduler_ready (lapic_eoi s) = scheduler_ready s"
  "scheduler_vector (lapic_eoi s) = scheduler_vector s"
  "waiting_event_count (lapic_eoi s) = waiting_event_count s"
  "processes (lapic_eoi s) = processes s"
  by (simp_all add: lapic_eoi_def)

lemma lapic_timer_oneshot_sched [simp]:
  "scheduler_running_queue (lapic_timer_oneshot f v u s) = scheduler_running_queue s"
  "thread_at (lapic_timer_oneshot f v u s) = thread_at s"
  "local_cpus (lapic_timer_oneshot f v u s) = local_cpus s"
  "cpu_block (lapic_timer_oneshot f v u s) = cpu_block s"
  "regs (lapic_timer_oneshot f v u s) = regs s"
  "fpu_area (lapic_timer_oneshot f v u s) = fpu_area s"
  "working_cpus (lapic_timer_oneshot f v u s) = working_cpus s"
  "startup_phase_ignore_heartbeat (lapic_timer_oneshot f v u s) = startup_phase_ignore_heartbeat s"
  "scheduler_ready (lapic_timer_oneshot f v u s) = scheduler_ready s"
  "scheduler_vector (lapic_timer_oneshot f v u s) = scheduler_vector s"
  "waiting_event_count (lapic_timer_oneshot f v u s) = waiting_event_count s"
  "processes (lapic_timer_oneshot f v u s) = processes s"
  by (simp_all add: lapic_timer_oneshot_def Let_def)

lemma wake_idle_sched [simp]:
  "scheduler_running_queue (wake_idle s) = scheduler_running_queue s"
  "thread_at (wake_idle s) = thread_at s"
  "local_cpus (wake_idle s) = local_cpus s"
  "cpu_block (wake_idle s) = cpu_block s"
  "regs (wake_idle s) = regs s"
  "fpu_area (wake_idle s) = fpu_area s"
  "working_cpus (wake_idle s) = working_cpus s"
  "startup_phase_ignore_heartbeat (wake_idle s) = startup_phase_ignore_heartbeat s"
  "scheduler_ready (wake_idle s) = scheduler_ready s"
  "scheduler_vector (wake_idle s) = scheduler_vector s"
  "waiting_event_count (wake_idle s) = waiting_event_count s"
  "processes (wake_idle s) = processes s"
  by (simp_all add: wake_idle_def split: option.split)

lemma upd_thread_simps [simp]:
  "thread_at (upd_thread t f s) = (thread_at s)(t := f (thread_at s t))"
  "scheduler_running_queue (upd_thread t f s) = scheduler_running_queue s"
  "local_cpus (upd_thread t f s) = local_cpus s"
  "cpu_block (upd_thread t f s) = cpu_block s"
  "regs (upd_thread t f s) = regs s"
  "fpu_area (upd_thread t f s) = fpu_area s"
  "working_cpus (upd_thread t f s) = working_cpus s"
  "startup_phase_ignore_heartbeat (upd_thread t f s) = startup_phase_ignore_heartbeat s"
  "scheduler_ready (upd_thread t f s) = scheduler_ready s"
  "scheduler_vector (upd_thread t f s) = scheduler_vector s"
  "waiting_event_count (upd_thread t f s) = waiting_event_count s"
  "processes (upd_thread t f s) = processes s"
  by (simp_all add: upd_thread_def)

lemma upd_cpu_simps [simp]:
  "local_cpus (upd_cpu j f s) = (local_cpus s)[j := f (local_cpus s ! j)]"
  "scheduler_running_queue (upd_cpu j f s) = scheduler_running_queue s"
  "thread_at (upd_cpu j f s) = thread_at s"
  "cpu_block (upd_cpu j f s) = cpu_block s"
  "regs (upd_cpu j f s) = regs s"
  "fpu_area (upd_cpu j f s) = fpu_area s"
  "working_cpus (upd_cpu j f s) = working_cpus s"
  "startup_phase_ignore_heartbeat (upd_cpu j f s) = startup_phase_ignore_heartbeat s"
  "scheduler_ready (upd_cpu j f s) = scheduler_ready s"
  "scheduler_vector (upd_cpu j f s) = scheduler_vector s"
  "waiting_event_count (upd_cpu j f s) = waiting_event_count s"
  "processes (upd_cpu j f s) = processes s"
  by (simp_all add: upd_cpu_def)

lemma upd_regs_simps [simp]:
  "regs (upd_regs k f s) = (regs s)(k := f (regs s k))"
  "scheduler_running_queue (upd_regs k f s) = scheduler_running_queue s"
  "thread_at (upd_regs k f s) = thread_at s"
  "local_cpus (upd_regs k f s) = local_cpus s"
  "cpu_block (upd_regs k f s) = cpu_block s"
  "fpu_area (upd_regs k f s) = fpu_area s"
  "working_cpus (upd_regs k f s) = working_cpus s"
  "startup_phase_ignore_heartbeat (upd_regs k f s) = startup_phase_ignore_heartbeat s"
  "scheduler_ready (upd_regs k f s) = scheduler_ready s"
  "scheduler_vector (upd_regs k f s) = scheduler_vector s"
  "waiting_event_count (upd_regs k f s) = waiting_event_count s"
  "processes (upd_regs k f s) = processes s"
  by (simp_all add: upd_regs_def)

lemma fpu_simps [simp]:
  "fpu_area (fpu_save k a s) = (fpu_area s)(a := fpu (regs s k))"
  "scheduler_running_queue (fpu_save k a s) = scheduler_running_queue s"
  "thread_at (fpu_save k a s) = thread_at s"
  "local_cpus (fpu_save k a s) = local_cpus s"
  "cpu_block (fpu_save k a s) = cpu_block s"
  "regs (fpu_save k a s) = regs s"
  "working_cpus (fpu_save k a s) = working_cpus s"
  "startup_phase_ignore_heartbeat (fpu_save k a s) = startup_phase_ignore_heartbeat s"
  "scheduler_ready (fpu_save k a s) = scheduler_ready s"
  "scheduler_vector (fpu_save k a s) = scheduler_vector s"
  "waiting_event_count (fpu_save k a s) = waiting_event_count s"
  "processes (fpu_save k a s) = processes s"
  "regs (fpu_restore k a s) = (regs s)(k := (regs s k)\<lparr>fpu := fpu_area s a\<rparr>)"
  "scheduler_running_queue (fpu_restore k a s) = scheduler_running_queue s"
  "thread_at (fpu_restore k a s) = thread_at s"
  "local_cpus (fpu_restore k a s) = local_cpus s"
  "cpu_block (fpu_restore k a s) = cpu_block s"
  "fpu_area (fpu_restore k a s) = fpu_area s"
  "working_cpus (fpu_restore k a s) = working_cpus s"
  "startup_phase_ignore_heartbeat (fpu_restore k a s) = startup_phase_ignore_heartbeat s"
  "scheduler_ready (fpu_restore k a s) = scheduler_ready s"
  "scheduler_vector (fpu_restore k a s) = scheduler_vector s"
  "waiting_event_count (fpu_restore k a s) = waiting_event_count s"
  "processes (fpu_restore k a s) = processes s"
  by (simp_all add: fpu_save_def fpu_restore_def)

section \<open>The run queue as a set of threads\<close>

definition run_queue :: "sched_state \<Rightarrow> addr set" where
  "run_queue s = set (scheduler_running_queue s) - {0}"

text \<open>
  The invariant of the queue: it has its full length, holds no thread twice, and the flag in a thread
  says whether the queue holds it.
\<close>

definition queue_inv :: "sched_state \<Rightarrow> bool" where
  "queue_inv s \<longleftrightarrow>
     length (scheduler_running_queue s) = MAX_THREADS \<and>
     (\<forall>i<MAX_THREADS. \<forall>j<MAX_THREADS. scheduler_running_queue s ! i \<noteq> 0 \<longrightarrow>
        scheduler_running_queue s ! i = scheduler_running_queue s ! j \<longrightarrow> i = j) \<and>
     (\<forall>t. t \<noteq> 0 \<longrightarrow> (t_is_in_queue (thread_at s t) \<longleftrightarrow> t \<in> set (scheduler_running_queue s)))"

lemma queue_inv_flag:
  "queue_inv s \<Longrightarrow> t \<noteq> 0 \<Longrightarrow> t_is_in_queue (thread_at s t) \<longleftrightarrow> t \<in> run_queue s"
  by (simp add: queue_inv_def run_queue_def)

lemma queue_inv_cong:
  assumes "queue_inv s" "scheduler_running_queue s' = scheduler_running_queue s"
    and "\<And>t. t_is_in_queue (thread_at s' t) = t_is_in_queue (thread_at s t)"
  shows "queue_inv s'" "run_queue s' = run_queue s"
  using assms by (simp_all add: queue_inv_def run_queue_def)

interpretation runq: slot_table scheduler_running_queue "\<lambda>t. t = 0" enqueue_slot
  by unfold_locales (simp_all add: enqueue_slot_def)

interpretation pids: slot_table processes "\<lambda>p. p = 0" pid_slot
  by unfold_locales (simp_all add: pid_slot_def)

lemma enqueue_slot_threads:
  "enqueue_slot t s = (Some i, s') \<Longrightarrow>
     thread_at s' = (thread_at s)(t := (thread_at s t)\<lparr>t_is_in_queue := True\<rparr>)"
  "enqueue_slot t s = (None, s') \<Longrightarrow> s' = s"
  by (auto simp: enqueue_slot_def split: option.splits)

lemma set_update_fresh:
  assumes "i < length xs" "xs ! i = z" "x \<noteq> z"
  shows "set (xs[i := x]) - {z} = insert x (set xs - {z})"
  using assms by (auto simp: set_conv_nth nth_list_update)

lemma set_update_erase:
  assumes "i < length xs" "\<forall>a<length xs. \<forall>b<length xs. xs ! a \<noteq> z \<longrightarrow> xs ! a = xs ! b \<longrightarrow> a = b"
  shows "set (xs[i := z]) - {z} = set xs - {z, xs ! i}"
  using assms by (auto simp: set_conv_nth nth_list_update split: if_splits)

lemma run_queue_full:
  assumes "queue_inv s"
  shows "card (run_queue s) = MAX_THREADS \<longleftrightarrow> 0 \<notin> set (scheduler_running_queue s)"
    and "card (run_queue s) \<le> MAX_THREADS"
proof -
  let ?q = "scheduler_running_queue s"
  let ?I = "{i. i < MAX_THREADS \<and> ?q ! i \<noteq> 0}"
  have len: "length ?q = MAX_THREADS" and inj: "inj_on ((!) ?q) ?I"
    using assms by (auto simp: queue_inv_def inj_on_def)
  have "run_queue s = (!) ?q ` ?I"
    using len by (auto simp: run_queue_def set_conv_nth)
  then have card: "card (run_queue s) = card ?I"
    using inj by (simp add: card_image)
  have sub: "?I \<subseteq> {..<MAX_THREADS}"
    by auto
  then show "card (run_queue s) \<le> MAX_THREADS"
    using card card_mono [OF finite_lessThan sub] by simp
  have "card ?I = MAX_THREADS \<longleftrightarrow> ?I = {..<MAX_THREADS}"
  proof
    assume "card ?I = MAX_THREADS"
    then show "?I = {..<MAX_THREADS}"
      by (intro card_subset_eq [OF finite_lessThan sub]) simp
  qed (simp only: card_lessThan)
  then show "card (run_queue s) = MAX_THREADS \<longleftrightarrow> 0 \<notin> set ?q"
    using card len by (auto simp: set_conv_nth)
qed

lemma enqueue_thread_new:
  assumes "queue_inv s" "t \<noteq> 0" "t \<notin> run_queue s" "card (run_queue s) < MAX_THREADS"
  obtains s' where "enqueue_thread t b s = (True, s')" "queue_inv s'" "run_queue s' = insert t (run_queue s)"
    "thread_at s' = (thread_at s)(t := (thread_at s t)\<lparr>t_enqueued_by_signal := b, t_is_in_queue := True\<rparr>)"
    "regs s' = regs s" "local_cpus s' = local_cpus s" "cpu_block s' = cpu_block s" "working_cpus s' = working_cpus s"
proof -
  let ?q = "scheduler_running_queue s"
  let ?s1 = "upd_thread t (\<lambda>th. th\<lparr>t_enqueued_by_signal := b\<rparr>) s"
  have "0 \<in> set ?q"
    using run_queue_full(1) [OF assms(1)] assms(4) by auto
  then obtain i where i: "first_index (\<lambda>x. x = 0) ?q = Some i"
    using first_index_None [of "\<lambda>x. x = 0" ?q] by (cases "first_index (\<lambda>x. x = 0) ?q") auto
  then have ix: "i < length ?q" "?q ! i = 0"
    by (simp_all add: first_index_Some)
  obtain s' where s': "enqueue_slot t ?s1 = (Some i, s')"
    "scheduler_running_queue s' = ?q[i := t]"
    "thread_at s' = (thread_at s)(t := (thread_at s t)\<lparr>t_enqueued_by_signal := b, t_is_in_queue := True\<rparr>)"
    "regs s' = regs s" "local_cpus s' = local_cpus s" "cpu_block s' = cpu_block s" "working_cpus s' = working_cpus s"
    using i by (simp add: enqueue_slot_def)
  have e: "enqueue_thread t b s = (True, s')"
    using s'(1) assms queue_inv_flag [OF assms(1,2)] by (simp add: enqueue_thread_def)
  have tq: "t \<notin> set ?q"
    using assms(2,3) by (simp add: run_queue_def)
  then have "queue_inv s'"
    using assms(1,2) ix s'(2,3)
    by (auto simp: queue_inv_def nth_list_update set_conv_nth split: if_splits)
  moreover have "run_queue s' = insert t (run_queue s)"
    using set_update_fresh [OF ix assms(2)] s'(2) by (simp add: run_queue_def)
  ultimately show ?thesis
    by (rule that [OF e _ _ s'(3-7)])
qed

lemma enqueue_thread_other:
  assumes "queue_inv s" "t \<noteq> 0"
  shows "t \<in> run_queue s \<Longrightarrow> enqueue_thread t b s = (True, s)"
    and "t \<notin> run_queue s \<Longrightarrow> \<not> card (run_queue s) < MAX_THREADS \<Longrightarrow>
           enqueue_thread t b s = (False, upd_thread t (\<lambda>th. th\<lparr>t_enqueued_by_signal := b\<rparr>) s)"
proof -
  show "t \<in> run_queue s \<Longrightarrow> enqueue_thread t b s = (True, s)"
    using queue_inv_flag [OF assms] by (simp add: enqueue_thread_def)
  assume t: "t \<notin> run_queue s" and "\<not> card (run_queue s) < MAX_THREADS"
  then have "0 \<notin> set (scheduler_running_queue s)"
    using run_queue_full [OF assms(1)] by linarith
  then have "first_index (\<lambda>x. x = 0) (scheduler_running_queue s) = None"
    by (auto simp: first_index_None)
  then show "enqueue_thread t b s = (False, upd_thread t (\<lambda>th. th\<lparr>t_enqueued_by_signal := b\<rparr>) s)"
    using t queue_inv_flag [OF assms] by (simp add: enqueue_thread_def enqueue_slot_def)
qed

lemma dequeue_thread_spec:
  assumes "queue_inv s" "t \<noteq> 0"
  obtains s' where "scheduler_dequeue_thread t s = (True, s')" "queue_inv s'" "run_queue s' = run_queue s - {t}"
    "thread_at s' = (thread_at s)(t := (thread_at s t)\<lparr>t_is_in_queue := False\<rparr>)"
    "regs s' = regs s" "local_cpus s' = local_cpus s" "cpu_block s' = cpu_block s" "working_cpus s' = working_cpus s"
proof (cases "t \<in> run_queue s")
  case False
  then have f: "\<not> t_is_in_queue (thread_at s t)"
    using queue_inv_flag [OF assms] by simp
  then have "thread_at s = (thread_at s)(t := (thread_at s t)\<lparr>t_is_in_queue := False\<rparr>)"
    by (cases "thread_at s t") (simp add: fun_eq_iff)
  then show ?thesis
    using f False assms(1) by (intro that [of s]) (auto simp: scheduler_dequeue_thread_def)
next
  case True
  let ?q = "scheduler_running_queue s"
  have "t \<in> set ?q" and flag: "t_is_in_queue (thread_at s t)"
    using True queue_inv_flag [OF assms] by (simp_all add: run_queue_def)
  then obtain i where i: "first_index (\<lambda>x. x = t) ?q = Some i"
    using first_index_None [of "\<lambda>x. x = t" ?q] by (cases "first_index (\<lambda>x. x = t) ?q") auto
  then have ix: "i < length ?q" "?q ! i = t"
    by (simp_all add: first_index_Some)
  let ?s' = "upd_thread t (\<lambda>th. th\<lparr>t_is_in_queue := False\<rparr>) (s\<lparr>scheduler_running_queue := ?q[i := 0]\<rparr>)"
  have uniq: "\<forall>a<length ?q. \<forall>b<length ?q. ?q ! a \<noteq> 0 \<longrightarrow> ?q ! a = ?q ! b \<longrightarrow> a = b"
    using assms(1) by (simp add: queue_inv_def)
  have "run_queue ?s' = run_queue s - {t}"
    using set_update_erase [OF ix(1) uniq] ix(2) by (auto simp: run_queue_def)
  moreover from this have "queue_inv ?s'"
    using assms(1) ix by (auto simp: queue_inv_def run_queue_def nth_list_update set_eq_iff)
  ultimately show ?thesis
    using i flag by (intro that [of ?s']) (simp_all add: scheduler_dequeue_thread_def)
qed

text \<open>
  C20: The run queue implements a set of at most 512 threads.  Putting a thread in succeeds exactly when it
  is there already or there is room, taking it out always succeeds, both do to the set what they say
  and nothing else, and both keep the invariant that no thread is queued twice and every thread's
  flag tells whether it is queued.  A full queue is reported and leaves the set unchanged.
\<close>

theorem run_queue_refines_set:
  assumes "queue_inv s" "t \<noteq> 0"
  shows "(\<exists>s'. enqueue_thread t b s = (t \<in> run_queue s \<or> card (run_queue s) < 512, s') \<and> queue_inv s' \<and>
            run_queue s' = (if card (run_queue s) < 512 then insert t (run_queue s) else run_queue s)) \<and>
         (\<exists>s'. scheduler_dequeue_thread t s = (True, s') \<and> queue_inv s' \<and> run_queue s' = run_queue s - {t})"
proof -
  have "\<exists>s'. enqueue_thread t b s = (t \<in> run_queue s \<or> card (run_queue s) < MAX_THREADS, s') \<and> queue_inv s' \<and>
          run_queue s' = (if card (run_queue s) < MAX_THREADS then insert t (run_queue s) else run_queue s)"
  proof (cases "t \<in> run_queue s")
    case True
    then show ?thesis
      using enqueue_thread_other(1) [OF assms True] assms(1) by (simp add: insert_absorb)
  next
    case out: False
    show ?thesis
    proof (cases "card (run_queue s) < MAX_THREADS")
      case True
      then show ?thesis
        using enqueue_thread_new [OF assms out True, of b] by (metis (full_types))
    next
      case False
      have "queue_inv (upd_thread t (\<lambda>th. th\<lparr>t_enqueued_by_signal := b\<rparr>) s)"
        "run_queue (upd_thread t (\<lambda>th. th\<lparr>t_enqueued_by_signal := b\<rparr>) s) = run_queue s"
        by (rule queue_inv_cong [OF assms(1)]; simp)+
      then show ?thesis
        using enqueue_thread_other(2) [OF assms out False] out False by auto
    qed
  qed
  moreover have "\<exists>s'. scheduler_dequeue_thread t s = (True, s') \<and> queue_inv s' \<and> run_queue s' = run_queue s - {t}"
    by (rule dequeue_thread_spec [OF assms]) blast
  ultimately show ?thesis
    by (simp add: MAX_THREADS_def)
qed

end
