(* ===== verification/SchedIsr.thy ===== *)
theory SchedIsr
  imports Sched
begin

text \<open>
  What the scheduler guarantees: the next thread is the first eligible one in cyclic order, so that no
  thread that stays eligible waits for more than one round; and the scheduler interrupt never lets
  two processors run the same thread, and saves and restores the context of the threads it switches.
\<close>

section \<open>Round robin\<close>

text \<open>
  A slot can be chosen by a processor if it holds a thread that this processor runs already or that
  nobody has locked; choosing a thread that is not the own one takes its lock.
\<close>

definition eligible :: "sched_state \<Rightarrow> u64 \<Rightarrow> nat \<Rightarrow> bool" where
  "eligible s num i \<longleftrightarrow>
     (let t = scheduler_running_queue s ! i
      in t \<noteq> 0 \<and> (t_cpuid (thread_at s t) = num \<or> \<not> is_locked (t_lock (thread_at s t))))"

definition claim :: "cpu_ctx \<Rightarrow> nat \<Rightarrow> u64 \<Rightarrow> addr \<Rightarrow> sched_state \<Rightarrow> sched_state" where
  "claim c k num t s =
     (if t_cpuid (thread_at s t) = num then s
      else upd_thread t
        (\<lambda>th. th\<lparr>t_lock := snd (lock_test_and_acquire (ctx c k s) ''get_next_thread'' (t_lock (thread_at s t)))\<rparr>) s)"

lemma lock_test_and_acquire_cases:
  "is_locked l \<Longrightarrow> lock_test_and_acquire c caller l = (False, l)"
  "\<not> is_locked l \<Longrightarrow> fst (lock_test_and_acquire c caller l)"
  "is_locked (snd (lock_test_and_acquire c caller l))"
  by (simp_all add: lock_test_and_acquire_def Let_def)

lemma upd_thread_same: "upd_thread t (\<lambda>th. th\<lparr>t_lock := t_lock (thread_at s t)\<rparr>) s = s"
proof -
  have "(thread_at s t)\<lparr>t_lock := t_lock (thread_at s t)\<rparr> = thread_at s t"
    by (cases "thread_at s t") simp
  then show ?thesis
    by (simp add: upd_thread_def)
qed

lemma next_scan_step:
  assumes "i \<le> MAX_THREADS"
  shows "next_scan c k num (Suc n) (int i) s =
     (if eligible s num (i mod MAX_THREADS)
      then (scheduler_running_queue s ! (i mod MAX_THREADS), int (i mod MAX_THREADS),
            claim c k num (scheduler_running_queue s ! (i mod MAX_THREADS)) s)
      else next_scan c k num n (int (i mod MAX_THREADS) + 1) s)"
proof -
  let ?j = "i mod MAX_THREADS"
  let ?t = "scheduler_running_queue s ! ?j"
  let ?lk = "lock_test_and_acquire (ctx c k s) ''get_next_thread'' (t_lock (thread_at s ?t))"
  have j: "(if int i \<ge> int MAX_THREADS then 0 else int i) = int ?j"
    using assms by auto
  show ?thesis
  proof (cases "is_locked (t_lock (thread_at s ?t))")
    case True
    then show ?thesis
      using lock_test_and_acquire_cases(1) [OF True] j
      by (simp add: eligible_def claim_def Let_def upd_thread_same split: if_splits)
  next
    case False
    then have "fst ?lk"
      by (simp add: lock_test_and_acquire_cases)
    then show ?thesis
      using False j by (simp add: eligible_def claim_def Let_def split_beta split: if_splits)
  qed
qed

lemma mod_Suc_shift: "(Suc (i mod n) + d) mod n = (i + Suc d) mod (n :: nat)"
  by (metis add_Suc_right add_Suc_shift mod_add_left_eq)

lemma next_scan_found:
  assumes "i \<le> MAX_THREADS" "d < n" "eligible s num ((i + d) mod MAX_THREADS)"
    and "\<forall>e<d. \<not> eligible s num ((i + e) mod MAX_THREADS)"
  shows "next_scan c k num n (int i) s =
     (scheduler_running_queue s ! ((i + d) mod MAX_THREADS), int ((i + d) mod MAX_THREADS),
      claim c k num (scheduler_running_queue s ! ((i + d) mod MAX_THREADS)) s)"
  using assms
proof (induction n arbitrary: i d)
  case (Suc n)
  show ?case
  proof (cases d)
    case 0
    then show ?thesis
      using Suc.prems next_scan_step [OF Suc.prems(1)] by simp
  next
    case (Suc d')
    let ?i = "Suc (i mod MAX_THREADS)"
    have sh: "(?i + e) mod MAX_THREADS = (i + Suc e) mod MAX_THREADS" for e
      by (rule mod_Suc_shift)
    have "\<not> eligible s num (i mod MAX_THREADS)"
      using Suc Suc.prems(4) by force
    moreover have "?i \<le> MAX_THREADS"
      by (simp add: MAX_THREADS_def Suc_leI)
    moreover have "\<forall>e<d'. \<not> eligible s num ((?i + e) mod MAX_THREADS)"
      using Suc.prems(4) Suc unfolding sh by auto
    ultimately show ?thesis
      using Suc.IH [of ?i d'] Suc.prems(2,3) Suc next_scan_step [OF Suc.prems(1), of c k num n s] sh
      by (simp add: add.commute)
  qed
qed simp

lemma next_scan_none:
  assumes "i \<le> MAX_THREADS" "\<forall>e<n. \<not> eligible s num ((i + e) mod MAX_THREADS)"
  shows "next_scan c k num n (int i) s = (0, - 1, s)"
  using assms
proof (induction n arbitrary: i)
  case (Suc n)
  let ?i = "Suc (i mod MAX_THREADS)"
  have "\<not> eligible s num (i mod MAX_THREADS)"
    using Suc.prems(2) by (metis add_0_right zero_less_Suc)
  moreover have "?i \<le> MAX_THREADS"
    by (simp add: MAX_THREADS_def Suc_leI)
  moreover have "\<forall>e<n. \<not> eligible s num ((?i + e) mod MAX_THREADS)"
    using Suc.prems(2) unfolding mod_Suc_shift by auto
  ultimately show ?case
    using Suc.IH [of ?i] next_scan_step [OF Suc.prems(1), of c k num n s] by (simp add: add.commute)
qed simp

lemma get_next_thread_cases:
  fixes k s
  assumes "\<not> cpu_interrupt_state c" "0 \<le> o1 + 1" "o1 < int MAX_THREADS"
  defines "num \<equiv> cpu_number (local_cpus s ! unat (gs_cpu k s))"
  obtains (none) "get_next_thread c k o1 s = Inr (0, - 1, s)" "\<forall>i<MAX_THREADS. \<not> eligible s num i"
  | (found) d i where "d < MAX_THREADS" "i = (nat (o1 + 1) + d) mod MAX_THREADS" "eligible s num i"
      "\<forall>e<d. \<not> eligible s num ((nat (o1 + 1) + e) mod MAX_THREADS)"
      "get_next_thread c k o1 s = Inr (scheduler_running_queue s ! i, int i, claim c k num (scheduler_running_queue s ! i) s)"
proof -
  let ?a = "nat (o1 + 1)"
  have a: "?a \<le> MAX_THREADS" "int ?a = o1 + 1"
    using assms(2,3) by auto
  have g: "get_next_thread c k o1 s = Inr (next_scan c k num MAX_THREADS (int ?a) s)"
    using assms(1) a(2) by (simp add: get_next_thread_def cpu_get_current_def num_def)
  show ?thesis
  proof (cases "\<exists>d<MAX_THREADS. eligible s num ((?a + d) mod MAX_THREADS)")
    case True
    define d where "d = (LEAST d. d < MAX_THREADS \<and> eligible s num ((?a + d) mod MAX_THREADS))"
    have d: "d < MAX_THREADS" "eligible s num ((?a + d) mod MAX_THREADS)"
      unfolding d_def using LeastI_ex [OF True] by blast+
    have least: "\<forall>e<d. \<not> eligible s num ((?a + e) mod MAX_THREADS)"
      using d(1) not_less_Least unfolding d_def by fastforce
    show ?thesis
      using found [OF d(1) refl d(2) least] g next_scan_found [OF a(1) d least] by simp
  next
    case False
    have "\<not> eligible s num i" if "i < MAX_THREADS" for i
    proof -
      let ?d = "ring_count MAX_THREADS (?a mod MAX_THREADS) i"
      have m: "?a mod MAX_THREADS < MAX_THREADS"
        by (simp add: MAX_THREADS_def)
      have "(?a + ?d) mod MAX_THREADS = i" "?d < MAX_THREADS"
        using ring_position [OF m that] ring_count_less [OF m that] by (simp_all add: mod_add_left_eq)
      then show ?thesis
        using False by metis
    qed
    then show ?thesis
      using none g next_scan_none [OF a(1)] False by simp
  qed
qed

definition this_cpu :: "nat \<Rightarrow> sched_state \<Rightarrow> u64" where
  "this_cpu k s = cpu_number (local_cpus s ! unat (gs_cpu k s))"

lemma ring_count_advance:
  assumes "a < n" "i < n" "d < ring_count n a i"
  shows "ring_count n (Suc ((a + d) mod n) mod n) i = ring_count n a i - Suc d"
proof -
  have "ring_count n a i < n"
    by (rule ring_count_less [OF assms(1,2)])
  then have m: "Suc ((a + d) mod n) mod n = (if Suc (a + d) < n then Suc (a + d) else Suc (a + d) - n)"
    using assms by (auto simp: mod_Suc mod_if)
  show ?thesis
    unfolding m using assms ring_count_less [OF assms(1,2)]
    by (auto simp: ring_count_alt split: if_splits)
qed

text \<open>Steps from the slot after the last choice to a given slot.\<close>

definition slots_to :: "int \<Rightarrow> nat \<Rightarrow> nat" where
  "slots_to o1 i = ring_count MAX_THREADS (nat (o1 + 1) mod MAX_THREADS) i"

lemma slots_to_less: "i < MAX_THREADS \<Longrightarrow> slots_to o1 i < MAX_THREADS"
  unfolding slots_to_def by (rule ring_count_less) (simp_all add: MAX_THREADS_def)

lemma get_next_thread_progress:
  assumes "\<not> cpu_interrupt_state c" "0 \<le> o1 + 1" "o1 < int MAX_THREADS" "i < MAX_THREADS"
    and "eligible s (this_cpu k s) i" "get_next_thread c k o1 s = Inr (t, o2, s')"
  shows "0 \<le> o2" "o2 < int MAX_THREADS" "o2 = int i \<or> slots_to o2 i < slots_to o1 i"
proof -
  let ?a = "nat (o1 + 1)"
  let ?N = MAX_THREADS
  have N: "0 < ?N"
    by (simp add: MAX_THREADS_def)
  have a: "?a mod ?N < ?N"
    using N by simp
  obtain d j where d: "d < ?N" "j = (?a + d) mod ?N"
    "\<forall>e<d. \<not> eligible s (this_cpu k s) ((?a + e) mod ?N)" and o2: "o2 = int j"
  proof (rule get_next_thread_cases [OF assms(1-3), where k = k and s = s])
    assume "\<forall>i<MAX_THREADS. \<not> eligible s (cpu_number (local_cpus s ! unat (gs_cpu k s))) i"
    then show ?thesis
      using assms(4,5) by (simp add: this_cpu_def)
  next
    fix d j
    assume "d < ?N" "j = (?a + d) mod ?N"
      "\<forall>e<d. \<not> eligible s (cpu_number (local_cpus s ! unat (gs_cpu k s))) ((?a + e) mod ?N)"
      "get_next_thread c k o1 s = Inr (scheduler_running_queue s ! j, int j,
         claim c k (cpu_number (local_cpus s ! unat (gs_cpu k s))) (scheduler_running_queue s ! j) s)"
    then show ?thesis
      using assms(6) that [of d j] by (simp add: this_cpu_def)
  qed
  have j: "j < ?N"
    using d(2) N by simp
  then show "0 \<le> o2" "o2 < int MAX_THREADS"
    using o2 by simp_all
  have "eligible s (this_cpu k s) ((?a + slots_to o1 i) mod ?N)"
    using ring_position [OF a assms(4)] assms(5) by (simp add: slots_to_def mod_add_left_eq)
  then have le: "d \<le> slots_to o1 i"
    using d(3) not_less by blast
  show "o2 = int i \<or> slots_to o2 i < slots_to o1 i"
  proof (cases "d = slots_to o1 i")
    case True
    then show ?thesis
      using ring_position [OF a assms(4)] d(2) o2 by (simp add: slots_to_def mod_add_left_eq)
  next
    case False
    then have "d < ring_count ?N (?a mod ?N) i"
      using le by (simp add: slots_to_def)
    from ring_count_advance [OF a assms(4) this] have "slots_to o2 i = slots_to o1 i - Suc d"
      using o2 d(2) by (simp add: slots_to_def mod_add_left_eq nat_add_distrib)
    then show ?thesis
      using False le by simp
  qed
qed


section \<open>The invariant of the scheduler\<close>

definition cpus_inv :: "sched_state \<Rightarrow> bool" where
  "cpus_inv s \<longleftrightarrow>
     length (local_cpus s) \<le> 2 ^ 32 \<and>
     (\<forall>i<length (local_cpus s). cpu_number (local_cpus s ! i) = of_nat i \<and> cpu_zero (local_cpus s ! i) = 0 \<and>
        0 \<le> last_run_queue_index (local_cpus s ! i) \<and> last_run_queue_index (local_cpus s ! i) < int MAX_THREADS)"

definition blocks_inv :: "addr set \<Rightarrow> sched_state \<Rightarrow> bool" where
  "blocks_inv T s \<longleftrightarrow>
     (\<forall>i<length (local_cpus s). cpu_block s i \<notin> T) \<and> inj_on (cpu_block s) {..<length (local_cpus s)}"

text \<open>
  A thread is locked exactly while a processor runs it, the number it records is that processor's,
  and no two threads record the same processor.
\<close>

definition running :: "addr set \<Rightarrow> (addr \<Rightarrow> thread_t) \<Rightarrow> addr set" where
  "running T ths = {t \<in> T. t_cpuid (ths t) \<noteq> - 1}"

definition threads_inv :: "addr set \<Rightarrow> nat \<Rightarrow> (addr \<Rightarrow> thread_t) \<Rightarrow> bool" where
  "threads_inv T n ths \<longleftrightarrow>
     finite T \<and> 0 \<notin> T \<and>
     (\<forall>t\<in>T. t_self (ths t) = t \<and> (t_cpuid (ths t) \<noteq> - 1 \<longleftrightarrow> is_locked (t_lock (ths t))) \<and>
        (t_cpuid (ths t) = - 1 \<or> unat (t_cpuid (ths t)) < n)) \<and>
     inj_on (\<lambda>t. t_cpuid (ths t)) (running T ths)"

definition sched_inv :: "addr set \<Rightarrow> sched_state \<Rightarrow> bool" where
  "sched_inv T s \<longleftrightarrow>
     cpus_inv s \<and> blocks_inv T s \<and> threads_inv T (length (local_cpus s)) (thread_at s) \<and>
     queue_inv s \<and> run_queue s \<subseteq> T \<and> working_cpus s = of_nat (card (running T (thread_at s)))"

text \<open>Processor \<^verbatim>\<open>k\<close> runs thread \<^verbatim>\<open>t\<close>, or none if \<^verbatim>\<open>t\<close> is zero, and its GS base says so.\<close>

definition runs_on :: "addr set \<Rightarrow> sched_state \<Rightarrow> nat \<Rightarrow> addr \<Rightarrow> bool" where
  "runs_on T s k t \<longleftrightarrow>
     (if t = 0 then gs_base (regs s k) = cpu_block s k \<and> (\<forall>u\<in>T. t_cpuid (thread_at s u) \<noteq> of_nat k)
      else t \<in> T \<and> gs_base (regs s k) = t \<and> t_cpuid (thread_at s t) = of_nat k)"

lemma unat_cpu: "cpus_inv s \<Longrightarrow> k < length (local_cpus s) \<Longrightarrow> unat (of_nat k :: u64) = k"
  by (auto simp: cpus_inv_def intro!: unat_of_nat_u64)

lemma cpu_not_minus_1: "cpus_inv s \<Longrightarrow> k < length (local_cpus s) \<Longrightarrow> (of_nat k :: u64) \<noteq> - 1"
  using unat_cpu [of s k] by (auto simp: cpus_inv_def unsigned_minus_1_eq_mask mask_eq_exp_minus_1)

lemma gs_of_thread:
  assumes "sched_inv T s" "k < length (local_cpus s)" "runs_on T s k t"
  shows "gs_cpu k s = of_nat k" "get_current_thread k s = t" "this_cpu k s = of_nat k"
    and "unat (gs_cpu k s) = k"
proof -
  have c: "cpus_inv s" and b: "blocks_inv T s" and th: "threads_inv T (length (local_cpus s)) (thread_at s)"
    using assms(1) by (simp_all add: sched_inv_def)
  have "gs_cpu k s = of_nat k \<and> get_current_thread k s = t"
  proof (cases "t = 0")
    case True
    have "gs_block k s = Some k"
      using assms(2,3) True b unfolding gs_block_def find_Some_iff
      by (intro exI [of _ k]) (auto simp: runs_on_def blocks_inv_def dest!: inj_onD)
    then show ?thesis
      using True c assms(2) by (simp add: gs_cpu_def get_current_thread_def cpus_inv_def)
  next
    case False
    have "gs_block k s = None"
      using assms(3) False b by (auto simp: gs_block_def find_None_iff runs_on_def blocks_inv_def)
    then show ?thesis
      using assms(3) False th by (simp add: gs_cpu_def get_current_thread_def runs_on_def threads_inv_def)
  qed
  then show "gs_cpu k s = of_nat k" "get_current_thread k s = t" "unat (gs_cpu k s) = k" "this_cpu k s = of_nat k"
    using unat_cpu [OF c assms(2)] c assms(2) by (simp_all add: this_cpu_def cpus_inv_def)
qed

text \<open>A slot that a processor may choose holds the thread it runs or an unlocked one that nobody runs.\<close>

lemma eligible_thread:
  assumes "sched_inv T s" "k < length (local_cpus s)" "runs_on T s k cur" "i < MAX_THREADS"
    and "eligible s (of_nat k) i"
  defines "t \<equiv> scheduler_running_queue s ! i"
  shows "t \<in> T" "t \<in> run_queue s" "t \<noteq> 0"
    and "t = cur \<or> t_cpuid (thread_at s t) = - 1 \<and> \<not> is_locked (t_lock (thread_at s t))"
proof -
  have q: "queue_inv s" "run_queue s \<subseteq> T" and th: "threads_inv T (length (local_cpus s)) (thread_at s)"
    and c: "cpus_inv s"
    using assms(1) by (simp_all add: sched_inv_def)
  show t: "t \<noteq> 0" "t \<in> run_queue s"
    using assms(4,5) q(1) by (auto simp: t_def eligible_def Let_def run_queue_def queue_inv_def)
  then show tT: "t \<in> T"
    using q(2) by auto
  show "t = cur \<or> t_cpuid (thread_at s t) = - 1 \<and> \<not> is_locked (t_lock (thread_at s t))"
  proof (cases "t_cpuid (thread_at s t) = of_nat k")
    case True
    then have cur: "cur \<noteq> 0" "cur \<in> T" "t_cpuid (thread_at s cur) = of_nat k"
      using assms(3) tT by (auto simp: runs_on_def split: if_splits)
    have "inj_on (\<lambda>u. t_cpuid (thread_at s u)) (running T (thread_at s))"
      using th by (simp add: threads_inv_def)
    then have "t = cur"
      by (rule inj_onD) (use True cur tT cpu_not_minus_1 [OF c assms(2)] in \<open>auto simp: running_def\<close>)
    then show ?thesis ..
  next
    case False
    then have "\<not> is_locked (t_lock (thread_at s t))"
      using assms(5) by (simp add: eligible_def t_def Let_def)
    then show ?thesis
      using th tT by (auto simp: threads_inv_def)
  qed
qed

section \<open>Steps of the handler\<close>

lemma lock_release_plain: "\<not> cottage_debug c \<Longrightarrow> lock_release c l = Inr (l\<lparr>is_locked := False\<rparr>)"
  by (simp add: lock_release_def Let_def)

lemma ctx_debug [simp]: "cottage_debug (ctx c k s) = cottage_debug c"
  by (simp add: ctx_def)

lemma threads_inv_unique:
  assumes "threads_inv T n ths" "t \<in> T" "u \<in> T" "t_cpuid (ths t) = t_cpuid (ths u)" "t_cpuid (ths u) \<noteq> - 1"
  shows "t = u"
proof -
  have "inj_on (\<lambda>t. t_cpuid (ths t)) (running T ths)"
    using assms(1) by (simp add: threads_inv_def)
  then show ?thesis
    by (rule inj_onD) (use assms in \<open>auto simp: running_def\<close>)
qed

lemma threads_inv_cong:
  assumes "threads_inv T n ths" "\<And>t. t \<in> T \<Longrightarrow> t_self (ths' t) = t_self (ths t)"
    and "\<And>t. t \<in> T \<Longrightarrow> t_cpuid (ths' t) = t_cpuid (ths t)"
    and "\<And>t. t \<in> T \<Longrightarrow> is_locked (t_lock (ths' t)) = is_locked (t_lock (ths t))"
  shows "threads_inv T n ths'" "running T ths' = running T ths"
proof -
  show r: "running T ths' = running T ths"
    using assms(3) by (auto simp: running_def)
  have "inj_on (\<lambda>t. t_cpuid (ths' t)) (running T ths)"
    using assms(1,3) by (auto simp: threads_inv_def inj_on_def running_def)
  then show "threads_inv T n ths'"
    using assms r by (auto simp: threads_inv_def)
qed

lemma threads_inv_release:
  assumes "threads_inv T n ths" "t \<in> T" "t_self th = t" "t_cpuid th = - 1" "\<not> is_locked (t_lock th)"
  shows "threads_inv T n (ths(t := th))" "running T (ths(t := th)) = running T ths - {t}"
proof -
  show r: "running T (ths(t := th)) = running T ths - {t}"
    using assms(4) by (auto simp: running_def)
  have "inj_on (\<lambda>u. t_cpuid ((ths(t := th)) u)) (running T ths - {t})"
    using assms(1) by (auto simp: threads_inv_def inj_on_def)
  then show "threads_inv T n (ths(t := th))"
    using assms r by (auto simp: threads_inv_def)
qed

lemma threads_inv_claim:
  assumes "threads_inv T n ths" "t \<in> T" "t_self th = t" "t_cpuid th = num" "is_locked (t_lock th)"
    and "num \<noteq> - 1" "unat num < n" "\<And>u. u \<in> T \<Longrightarrow> t_cpuid (ths u) \<noteq> num"
  shows "threads_inv T n (ths(t := th))" "running T (ths(t := th)) = insert t (running T ths)"
proof -
  show r: "running T (ths(t := th)) = insert t (running T ths)"
    using assms(2,4,6) by (auto simp: running_def)
  have "inj_on (\<lambda>u. t_cpuid ((ths(t := th)) u)) (running T ths - {t})"
    using assms(1) by (auto simp: threads_inv_def inj_on_def)
  moreover have "num \<notin> (\<lambda>u. t_cpuid ((ths(t := th)) u)) ` (running T ths - {t})"
    using assms(8) by (auto simp: running_def)
  ultimately have "inj_on (\<lambda>u. t_cpuid ((ths(t := th)) u)) (insert t (running T ths - {t}))"
    unfolding inj_on_insert using assms(4) by simp
  then have "inj_on (\<lambda>u. t_cpuid ((ths(t := th)) u)) (insert t (running T ths))"
    unfolding insert_Diff_single .
  then show "threads_inv T n (ths(t := th))"
    using assms r by (auto simp: threads_inv_def)
qed

text \<open>The interrupted thread as it is left behind.\<close>

definition left_thread :: "cpu_regs \<Rightarrow> cpu_status_t \<Rightarrow> thread_t \<Rightarrow> thread_t" where
  "left_thread r status th =
     th\<lparr>t_yield_await := (t_yield_await th)\<lparr>is_locked := False\<rparr>, t_cpu_state := status,
       t_gs_base := kernel_gs_base r, t_fs_base := fs_base r, t_cr3 := cr3 r, t_cpuid := - 1,
       t_lock := (t_lock th)\<lparr>is_locked := False\<rparr>\<rparr>"

lemma isr_leave_switch:
  assumes "\<not> cottage_debug c" "cur \<noteq> 0" "new \<noteq> cur"
  obtains s' where "isr_leave c k j cur new status s = Inr (False, s')"
    "thread_at s' = (thread_at s)(cur := left_thread (regs s k) status (thread_at s cur))"
    "fpu_area s' = (fpu_area s)(t_fpu_storage (thread_at s cur) := fpu (regs s k))"
    "working_cpus s' = working_cpus s - 1" "regs s' = regs s" "local_cpus s' = local_cpus s"
    "cpu_block s' = cpu_block s" "scheduler_running_queue s' = scheduler_running_queue s"
    "waiting_event_count s' = waiting_event_count s"
    "startup_phase_ignore_heartbeat s' = startup_phase_ignore_heartbeat s"
proof -
  obtain s' where s': "isr_leave c k j cur new status s = Inr (False, s')"
    using assms by (simp add: isr_leave_def lock_release_plain Let_def)
  show ?thesis
    by (rule that [OF s'])
      (use s' assms in \<open>auto simp: isr_leave_def lock_release_plain Let_def left_thread_def fun_upd_def fun_eq_iff\<close>)
qed

lemma isr_leave_same:
  assumes "\<not> cottage_debug c" "cur \<noteq> 0" "t_is_in_queue (thread_at s cur)"
  obtains s' where "isr_leave c k j cur cur status s = Inr (True, s')"
    "thread_at s' = (thread_at s)(cur := (thread_at s cur)\<lparr>t_yield_await := (t_yield_await (thread_at s cur))\<lparr>is_locked := False\<rparr>\<rparr>)"
    "working_cpus s' = working_cpus s" "regs s' = regs s" "local_cpus s' = local_cpus s"
    "cpu_block s' = cpu_block s" "scheduler_running_queue s' = scheduler_running_queue s"
proof -
  obtain s' where s': "isr_leave c k j cur cur status s = Inr (True, s')"
    using assms by (simp add: isr_leave_def lock_release_plain Let_def)
  show ?thesis
    by (rule that [OF s']) (use s' assms in \<open>auto simp: isr_leave_def lock_release_plain Let_def\<close>)
qed

lemma isr_enter_spec:
  fixes k j new idx s
  defines "th \<equiv> thread_at s new" and "r \<equiv> isr_enter k j new idx s"
  assumes "j < length (local_cpus s)"
  shows "fst r = t_cpu_state th"
    and "thread_at (snd r) = (thread_at s)(new := th\<lparr>t_cpuid := cpu_number (local_cpus s ! j)\<rparr>)"
    and "working_cpus (snd r) = working_cpus s + 1"
    and "regs (snd r) = (regs s)(k := \<lparr>gs_base = (if st_cs (t_cpu_state th) = USER_CODE_SEGMENT then t_gs_base th else new),
           kernel_gs_base = new, fs_base = t_fs_base th, cr3 = t_cr3 th, fpu = fpu_area s (t_fpu_storage th)\<rparr>)"
    and "local_cpus (snd r) = (local_cpus s)[j := (local_cpus s ! j)\<lparr>last_run_queue_index := idx, tss_ist3 := t_pf_stack th\<rparr>]"
    and "cpu_block (snd r) = cpu_block s" "scheduler_running_queue (snd r) = scheduler_running_queue s"
    and "fpu_area (snd r) = fpu_area s"
proof -
  show "regs (snd r) = (regs s)(k := \<lparr>gs_base = (if st_cs (t_cpu_state th) = USER_CODE_SEGMENT then t_gs_base th else new),
      kernel_gs_base = new, fs_base = t_fs_base th, cr3 = t_cr3 th, fpu = fpu_area s (t_fpu_storage th)\<rparr>)"
    by (cases "regs s k") (auto simp: r_def th_def isr_enter_def Let_def)
qed (use assms(3) in \<open>simp_all add: r_def th_def isr_enter_def Let_def\<close>)

lemma sched_inv_cong:
  assumes "sched_inv T s" "thread_at s' = thread_at s" "cpus_inv s'" "length (local_cpus s') = length (local_cpus s)"
    and "cpu_block s' = cpu_block s" "scheduler_running_queue s' = scheduler_running_queue s"
    and "working_cpus s' = working_cpus s"
  shows "sched_inv T s'"
  using assms by (simp add: sched_inv_def blocks_inv_def queue_inv_def run_queue_def)

lemma cpus_inv_update:
  assumes "cpus_inv s" "local_cpus s' = (local_cpus s)[j := u]" "j < length (local_cpus s)"
    and "cpu_number u = of_nat j" "cpu_zero u = 0" "0 \<le> last_run_queue_index u" "last_run_queue_index u < int MAX_THREADS"
  shows "cpus_inv s'"
  using assms by (auto simp: cpus_inv_def nth_list_update)

text \<open>The state in which the handler looks for the next thread.\<close>

definition isr_looking :: "nat \<Rightarrow> sched_state \<Rightarrow> sched_state" where
  "isr_looking k s =
     upd_cpu k (\<lambda>u. u\<lparr>is_idle := False\<rparr>) (lapic_timer_stop (s\<lparr>sched_isr_count := sched_isr_count s + 1\<rparr>))"

lemma isr_looking_simps [simp]:
  "thread_at (isr_looking k s) = thread_at s" "regs (isr_looking k s) = regs s"
  "scheduler_running_queue (isr_looking k s) = scheduler_running_queue s"
  "working_cpus (isr_looking k s) = working_cpus s" "cpu_block (isr_looking k s) = cpu_block s"
  "fpu_area (isr_looking k s) = fpu_area s" "waiting_event_count (isr_looking k s) = waiting_event_count s"
  "startup_phase_ignore_heartbeat (isr_looking k s) = startup_phase_ignore_heartbeat s"
  "local_cpus (isr_looking k s) = (local_cpus s)[k := (local_cpus s ! k)\<lparr>is_idle := False\<rparr>]"
  "eligible (isr_looking k s) = eligible s"
  by (simp_all add: isr_looking_def eligible_def fun_eq_iff)

lemma isr_looking_inv:
  assumes "sched_inv T s" "k < length (local_cpus s)" "runs_on T s k cur"
  shows "sched_inv T (isr_looking k s)" "runs_on T (isr_looking k s) k cur"
proof -
  have "cpus_inv s"
    using assms(1) by (simp add: sched_inv_def)
  then have "cpus_inv (isr_looking k s)"
    by (rule cpus_inv_update [where j = k]) (use assms(2) \<open>cpus_inv s\<close> in \<open>auto simp: cpus_inv_def\<close>)
  then show "sched_inv T (isr_looking k s)"
    by (rule sched_inv_cong [OF assms(1), rotated]) simp_all
  show "runs_on T (isr_looking k s) k cur"
    using assms(3) by (simp add: runs_on_def)
qed

lemma scheduler_isr_start:
  assumes "sched_inv T s" "k < length (local_cpus s)" "runs_on T s k cur" "\<not> cpu_interrupt_state c"
  shows "scheduler_isr c k status s =
     bindR (get_next_thread c k (last_run_queue_index (local_cpus s ! k)) (isr_looking k s)) (\<lambda>(new, idx, s3).
       bindR (isr_leave c k k cur new status s3) (\<lambda>(same, s4).
         if same then Inr (Same_thread, s4)
         else if new = 0 then bindR (isr_idle c k k s4) (\<lambda>s5. Inr (Awaiting, s5))
         else (let (st, s5) = isr_enter k k new idx s4 in Inr (Switched st, s5))))"
proof -
  let ?s1 = "lapic_timer_stop (s\<lparr>sched_isr_count := sched_isr_count s + 1\<rparr>)"
  have "cpus_inv ?s1"
    using assms(1) by (simp add: sched_inv_def cpus_inv_def)
  then have "sched_inv T ?s1"
    by (rule sched_inv_cong [OF assms(1), rotated]) simp_all
  moreover have "runs_on T ?s1 k cur" "k < length (local_cpus ?s1)"
    using assms(2,3) by (simp_all add: runs_on_def)
  ultimately have j: "cpu_get_current c k ?s1 = Inr k"
    using gs_of_thread(4) [of T ?s1 k cur] assms(4) by (simp add: cpu_get_current_def)
  have cur: "get_current_thread k (isr_looking k s) = cur"
    using gs_of_thread(2) [OF isr_looking_inv(1) [OF assms(1-3)]] isr_looking_inv(2) [OF assms(1-3)] assms(2) by simp
  show ?thesis
    unfolding scheduler_isr_def Let_def j
    using cur assms(2) by (simp add: isr_looking_def Let_def)
qed

section \<open>Outcomes of the handler\<close>

text \<open>Leaving the interrupted thread: the invariant holds again and the processor runs nothing.\<close>

lemma isr_leave_inv:
  assumes "sched_inv T s" "k < length (local_cpus s)" "runs_on T s k cur" "\<not> cottage_debug c" "new \<noteq> cur"
  obtains s' where "isr_leave c k k cur new status s = Inr (False, s')" "sched_inv T s'"
    "\<forall>u\<in>T. t_cpuid (thread_at s' u) \<noteq> of_nat k"
    "\<forall>u. u \<noteq> cur \<longrightarrow> thread_at s' u = thread_at s u"
    "cur \<noteq> 0 \<longrightarrow> thread_at s' cur = left_thread (regs s k) status (thread_at s cur)"
    "fpu_area s' = (if cur = 0 then fpu_area s
       else (fpu_area s)(t_fpu_storage (thread_at s cur) := fpu (regs s k)))"
    "regs s' = regs s" "local_cpus s' = local_cpus s" "cpu_block s' = cpu_block s"
    "scheduler_running_queue s' = scheduler_running_queue s"
proof (cases "cur = 0")
  case True
  then show ?thesis
    using assms by (intro that [of s]) (auto simp: isr_leave_def runs_on_def)
next
  case False
  obtain s' where s': "isr_leave c k k cur new status s = Inr (False, s')"
    "thread_at s' = (thread_at s)(cur := left_thread (regs s k) status (thread_at s cur))"
    "fpu_area s' = (fpu_area s)(t_fpu_storage (thread_at s cur) := fpu (regs s k))"
    "working_cpus s' = working_cpus s - 1" "regs s' = regs s" "local_cpus s' = local_cpus s"
    "cpu_block s' = cpu_block s" "scheduler_running_queue s' = scheduler_running_queue s"
    using isr_leave_switch [OF assms(4) False assms(5)] by metis
  have inv: "cpus_inv s" "blocks_inv T s" "threads_inv T (length (local_cpus s)) (thread_at s)" "queue_inv s"
    "run_queue s \<subseteq> T" "working_cpus s = of_nat (card (running T (thread_at s)))"
    using assms(1) by (simp_all add: sched_inv_def)
  have cur: "cur \<in> T" "t_cpuid (thread_at s cur) = of_nat k" "cur \<in> running T (thread_at s)"
    using assms(3) False cpu_not_minus_1 [OF inv(1) assms(2)] by (auto simp: runs_on_def running_def)
  have self: "t_self (thread_at s cur) = cur" and fin: "finite (running T (thread_at s))"
    using inv(3) cur(1) by (auto simp: threads_inv_def running_def)
  have th: "threads_inv T (length (local_cpus s)) (thread_at s')"
    and run: "running T (thread_at s') = running T (thread_at s) - {cur}"
    using threads_inv_release [OF inv(3) cur(1), of "left_thread (regs s k) status (thread_at s cur)"] self
    unfolding s'(2) by (simp_all add: left_thread_def)
  have "working_cpus s' = of_nat (card (running T (thread_at s')))"
    unfolding s'(4) inv(6) run using card.remove [OF fin cur(3)] by simp
  moreover have "queue_inv s'" "run_queue s' = run_queue s"
    by (rule queue_inv_cong [OF inv(4) s'(8)]; simp add: s'(2) left_thread_def)+
  ultimately have "sched_inv T s'"
    using inv th s'(6,7) by (simp add: sched_inv_def cpus_inv_def blocks_inv_def)
  moreover have "t_cpuid (thread_at s' u) \<noteq> of_nat k" if "u \<in> T" for u
  proof
    assume k: "t_cpuid (thread_at s' u) = of_nat k"
    then have "u \<noteq> cur"
      using cpu_not_minus_1 [OF inv(1) assms(2)] by (auto simp: s'(2) left_thread_def)
    moreover have "t_cpuid (thread_at s u) = of_nat k"
      using k \<open>u \<noteq> cur\<close> by (simp add: s'(2))
    ultimately show False
      using threads_inv_unique [OF inv(3) that cur(1)] cur(2) cpu_not_minus_1 [OF inv(1) assms(2)] by simp
  qed
  ultimately show ?thesis
    using s' False by (intro that [OF s'(1)]) auto
qed

lemma isr_enter_inv:
  assumes "sched_inv T s" "k < length (local_cpus s)" "\<forall>u\<in>T. t_cpuid (thread_at s u) \<noteq> of_nat k"
    and "new \<in> T" "t_cpuid (thread_at s new) = - 1" "0 \<le> idx" "idx < int MAX_THREADS" "is_locked l"
  shows "sched_inv T (snd (isr_enter k k new idx (upd_thread new (\<lambda>th. th\<lparr>t_lock := l\<rparr>) s)))"
proof -
  let ?s = "upd_thread new (\<lambda>th. th\<lparr>t_lock := l\<rparr>) s"
  let ?s' = "snd (isr_enter k k new idx ?s)"
  have inv: "cpus_inv s" "blocks_inv T s" "threads_inv T (length (local_cpus s)) (thread_at s)" "queue_inv s"
    "run_queue s \<subseteq> T" "working_cpus s = of_nat (card (running T (thread_at s)))"
    using assms(1) by (simp_all add: sched_inv_def)
  have num: "cpu_number (local_cpus s ! k) = of_nat k" "cpu_zero (local_cpus s ! k) = 0"
    using inv(1) assms(2) by (simp_all add: cpus_inv_def)
  have k: "k < length (local_cpus ?s)"
    using assms(2) by simp
  note e = isr_enter_spec [OF k, of k new idx]
  have th': "thread_at ?s' = (thread_at s)(new := (thread_at s new)\<lparr>t_lock := l, t_cpuid := of_nat k\<rparr>)"
    unfolding e(2) using num by (simp add: fun_eq_iff)
  have self: "t_self (thread_at s new) = new" and fin: "finite (running T (thread_at s))"
    and out: "new \<notin> running T (thread_at s)"
    using inv(3) assms(4,5) by (auto simp: threads_inv_def running_def)
  have th: "threads_inv T (length (local_cpus s)) (thread_at ?s')"
    and run: "running T (thread_at ?s') = insert new (running T (thread_at s))"
    using threads_inv_claim [OF inv(3) assms(4), of "(thread_at s new)\<lparr>t_lock := l, t_cpuid := of_nat k\<rparr>" "of_nat k"]
      self assms(3,8) cpu_not_minus_1 [OF inv(1) assms(2)] unat_cpu [OF inv(1) assms(2)] assms(2)
    unfolding th' by simp_all
  have w: "working_cpus ?s' = of_nat (card (running T (thread_at ?s')))"
    unfolding e(3) run using inv(6) fin out by simp
  have "cpus_inv ?s'"
    using e(5) num assms(2,6,7) by (intro cpus_inv_update [OF inv(1) e(5) [simplified]]) simp_all
  moreover have "length (local_cpus ?s') = length (local_cpus s)" "blocks_inv T ?s'"
    using e(5,6) inv(2) by (simp_all add: blocks_inv_def)
  moreover have "queue_inv ?s'" "run_queue ?s' = run_queue s"
    by (rule queue_inv_cong [OF inv(4)]; use e(7) in \<open>simp add: th'\<close>)+
  ultimately show ?thesis
    using th w inv(5) by (simp add: sched_inv_def)
qed

lemma isr_idle_inv:
  assumes "sched_inv T s" "k < length (local_cpus s)" "\<forall>u\<in>T. t_cpuid (thread_at s u) \<noteq> of_nat k"
  shows "case isr_idle c k k s of
      Inl e \<Rightarrow> e = Panic ''Event heartbeat has flatlined :('' \<and> working_cpus s = 0
    | Inr s' \<Rightarrow> sched_inv T s' \<and> runs_on T s' k 0 \<and> thread_at s' = thread_at s"
proof -
  have inv: "cpus_inv s" "blocks_inv T s"
    using assms(1) by (simp_all add: sched_inv_def)
  define s2 where "s2 = upd_cpu k (\<lambda>u. u\<lparr>last_run_queue_index := 0, is_idle := True\<rparr>)
    (upd_regs k (\<lambda>r. r\<lparr>gs_base := cpu_block s k, kernel_gs_base := cpu_block s k\<rparr>) (lapic_eoi s))"
  have "cpus_inv s2"
    by (rule cpus_inv_update [OF inv(1), of s2 k "(local_cpus s ! k)\<lparr>last_run_queue_index := 0, is_idle := True\<rparr>"])
      (use assms(2) inv(1) in \<open>simp_all add: s2_def cpus_inv_def MAX_THREADS_def\<close>)
  then have i2: "sched_inv T s2"
    by (rule sched_inv_cong [OF assms(1), rotated]) (simp_all add: s2_def)
  have r2: "runs_on T s2 k 0" and k2: "k < length (local_cpus s2)"
    using assms(2,3) by (simp_all add: runs_on_def s2_def)
  have gs: "cpu_get_current (c\<lparr>rflags := rflags c AND NOT 0x200\<rparr>) k s2 = Inr k"
    using gs_of_thread(4) [OF i2 k2 r2]
    by (simp add: cpu_get_current_def cpu_interrupt_state_def irq_save_cpu_known and.assoc)
  have keep: "sched_inv T (lapic_timer_oneshot f v u s2)" "runs_on T (lapic_timer_oneshot f v u s2) k 0" for f v u
  proof -
    have "cpus_inv (lapic_timer_oneshot f v u s2)"
      using i2 by (simp add: sched_inv_def cpus_inv_def)
    then show "sched_inv T (lapic_timer_oneshot f v u s2)"
      by (rule sched_inv_cong [OF i2, rotated]) simp_all
    show "runs_on T (lapic_timer_oneshot f v u s2) k 0"
      using r2 by (simp add: runs_on_def)
  qed
  show ?thesis
  proof (cases "waiting_event_count s2 = 0 \<and> working_cpus s2 = 0 \<and> \<not> startup_phase_ignore_heartbeat s2")
    case True
    then show ?thesis
      unfolding isr_idle_def Let_def s2_def [symmetric] by (simp add: s2_def)
  next
    case False
    have "thread_at s2 = thread_at s"
      by (simp add: s2_def)
    then show ?thesis
      using keep unfolding isr_idle_def Let_def s2_def [symmetric]
      by (simp only: False if_False scheduler_await_def gs bindR_simps sum.case lapic_timer_oneshot_sched)
  qed
qed

text \<open>
  The processor resumes a thread with what the thread recorded: the processor state, the segment
  bases and the page tables, and the floating point registers saved in the thread's area.  A user
  thread gets its own GS base back; in the kernel GS points to the thread.
\<close>

definition resumed :: "sched_state \<Rightarrow> sched_state \<Rightarrow> nat \<Rightarrow> addr \<Rightarrow> cpu_status_t \<Rightarrow> bool" where
  "resumed s s' k new st \<longleftrightarrow>
     st = t_cpu_state (thread_at s new) \<and> t_cpuid (thread_at s' new) = of_nat k \<and>
     kernel_gs_base (regs s' k) = new \<and> fs_base (regs s' k) = t_fs_base (thread_at s new) \<and>
     cr3 (regs s' k) = t_cr3 (thread_at s new) \<and>
     gs_base (regs s' k) = (if st_cs st = USER_CODE_SEGMENT then t_gs_base (thread_at s new) else new) \<and>
     fpu (regs s' k) = fpu_area s' (t_fpu_storage (thread_at s new))"

text \<open>An interrupted thread that does not go on is left with its context saved.\<close>

definition suspended :: "sched_state \<Rightarrow> sched_state \<Rightarrow> nat \<Rightarrow> addr \<Rightarrow> cpu_status_t \<Rightarrow> bool" where
  "suspended s s' k cur status \<longleftrightarrow>
     (cur \<noteq> 0 \<longrightarrow> thread_at s' cur = left_thread (regs s k) status (thread_at s cur)) \<and>
     fpu_area s' =
       (if cur = 0 then fpu_area s else (fpu_area s)(t_fpu_storage (thread_at s cur) := fpu (regs s k)))"

text \<open>Nothing else changes: other threads, the queue, and the registers and blocks of other processors.\<close>

definition others_kept :: "sched_state \<Rightarrow> sched_state \<Rightarrow> nat \<Rightarrow> addr \<Rightarrow> addr \<Rightarrow> bool" where
  "others_kept s s' k cur new \<longleftrightarrow>
     (\<forall>u. u \<noteq> cur \<longrightarrow> u \<noteq> new \<longrightarrow> thread_at s' u = thread_at s u) \<and>
     (\<forall>j. j \<noteq> k \<longrightarrow> regs s' j = regs s j \<and> local_cpus s' ! j = local_cpus s ! j) \<and>
     scheduler_running_queue s' = scheduler_running_queue s \<and> cpu_block s' = cpu_block s \<and>
     length (local_cpus s') = length (local_cpus s)"

lemma claim_other:
  assumes "t_cpuid (thread_at s new) \<noteq> num"
  shows "\<exists>l. is_locked l \<and> claim c k num new s = upd_thread new (\<lambda>th. th\<lparr>t_lock := l\<rparr>) s"
  using assms lock_test_and_acquire_cases(3) unfolding claim_def by auto

lemma isr_leave_claimed:
  assumes "\<not> cottage_debug c" "isr_leave c k j cur new status s = Inr (False, s')" "new \<noteq> cur"
  shows "isr_leave c k j cur new status (upd_thread new f s) = Inr (False, upd_thread new f s')"
  using assms
  by (cases "cur = 0")
    (auto simp: isr_leave_def lock_release_plain Let_def upd_thread_def fpu_save_def fun_upd_twist [of new cur])

lemma isr_switch_outcome:
  assumes "sched_inv T s" "k < length (local_cpus s)" "runs_on T s k cur" "\<not> cottage_debug c"
    and "new \<in> T" "new \<noteq> cur" "t_cpuid (thread_at s new) = - 1" "0 \<le> idx" "idx < int MAX_THREADS"
  obtains s4 s' st where
    "isr_leave c k k cur new status (claim c k (of_nat k) new s) = Inr (False, s4)"
    "isr_enter k k new idx s4 = (st, s')" "sched_inv T s'" "resumed s s' k new st" "suspended s s' k cur status"
    "others_kept s s' k cur new"
proof -
  have c: "cpus_inv s"
    using assms(1) by (simp add: sched_inv_def)
  obtain l where l: "is_locked l" "claim c k (of_nat k) new s = upd_thread new (\<lambda>th. th\<lparr>t_lock := l\<rparr>) s"
    using claim_other [of s new "of_nat k" c k] assms(7) cpu_not_minus_1 [OF c assms(2)] by auto
  obtain s4 where s4: "isr_leave c k k cur new status s = Inr (False, s4)" "sched_inv T s4"
    "\<forall>u\<in>T. t_cpuid (thread_at s4 u) \<noteq> of_nat k" "\<forall>u. u \<noteq> cur \<longrightarrow> thread_at s4 u = thread_at s u"
    "cur \<noteq> 0 \<longrightarrow> thread_at s4 cur = left_thread (regs s k) status (thread_at s cur)"
    "fpu_area s4 = (if cur = 0 then fpu_area s else (fpu_area s)(t_fpu_storage (thread_at s cur) := fpu (regs s k)))"
    "regs s4 = regs s" "local_cpus s4 = local_cpus s" "cpu_block s4 = cpu_block s"
    "scheduler_running_queue s4 = scheduler_running_queue s"
    by (rule isr_leave_inv [OF assms(1-4,6), where status = status])
  let ?s4 = "upd_thread new (\<lambda>th. th\<lparr>t_lock := l\<rparr>) s4"
  obtain st s' where e: "isr_enter k k new idx ?s4 = (st, s')"
    by (meson surj_pair)
  have k: "k < length (local_cpus ?s4)" and num: "cpu_number (local_cpus s ! k) = of_nat k"
    using assms(2) s4(8) c by (simp_all add: cpus_inv_def)
  note sp = isr_enter_spec [OF k, of k new idx, unfolded e snd_conv fst_conv]
  have "sched_inv T s'"
    using isr_enter_inv [OF s4(2) _ s4(3) assms(5) _ assms(8,9) l(1)] assms(2,6,7) s4(4,8) e by simp
  moreover have "resumed s s' k new st"
    using sp s4(4) s4(8) assms(6) num by (simp add: resumed_def)
  moreover have "suspended s s' k cur status"
    using sp s4(5,6) assms(6) by (auto simp: suspended_def)
  moreover have "others_kept s s' k cur new"
    using sp s4(4,7-10) by (simp add: others_kept_def)
  ultimately show ?thesis
    using that [of ?s4 st s'] isr_leave_claimed [OF assms(4) s4(1) assms(6)] l(2) e by simp
qed

lemma isr_same_outcome:
  assumes "sched_inv T s" "k < length (local_cpus s)" "runs_on T s k cur" "\<not> cottage_debug c"
    and "cur \<noteq> 0" "cur \<in> run_queue s"
  obtains s' where "isr_leave c k k cur cur status s = Inr (True, s')" "sched_inv T s'" "runs_on T s' k cur"
proof -
  have inv: "cpus_inv s" "blocks_inv T s" "threads_inv T (length (local_cpus s)) (thread_at s)" "queue_inv s"
    "run_queue s \<subseteq> T" "working_cpus s = of_nat (card (running T (thread_at s)))"
    using assms(1) by (simp_all add: sched_inv_def)
  obtain s' where s': "isr_leave c k k cur cur status s = Inr (True, s')"
    "thread_at s' = (thread_at s)(cur := (thread_at s cur)\<lparr>t_yield_await := (t_yield_await (thread_at s cur))\<lparr>is_locked := False\<rparr>\<rparr>)"
    "working_cpus s' = working_cpus s" "regs s' = regs s" "local_cpus s' = local_cpus s"
    "cpu_block s' = cpu_block s" "scheduler_running_queue s' = scheduler_running_queue s"
    using isr_leave_same [OF assms(4,5)] queue_inv_flag [OF inv(4) assms(5)] assms(6) by metis
  have "threads_inv T (length (local_cpus s)) (thread_at s')" "running T (thread_at s') = running T (thread_at s)"
    by (rule threads_inv_cong [OF inv(3)]; simp add: s'(2))+
  moreover have "queue_inv s'" "run_queue s' = run_queue s"
    by (rule queue_inv_cong [OF inv(4) s'(7)]; simp add: s'(2))+
  ultimately have "sched_inv T s'"
    using inv s' by (simp add: sched_inv_def cpus_inv_def blocks_inv_def)
  moreover have "runs_on T s' k cur"
    using assms(3,5) s' by (simp add: runs_on_def)
  ultimately show ?thesis
    using that s'(1) by blast
qed

definition isr_result :: "addr set \<Rightarrow> nat \<Rightarrow> addr \<Rightarrow> cpu_status_t \<Rightarrow> sched_state \<Rightarrow> isr_outcome \<Rightarrow> sched_state \<Rightarrow> bool" where
  "isr_result T k cur status s out s' \<longleftrightarrow>
     (case out of
        Same_thread \<Rightarrow> cur \<in> run_queue s \<and> runs_on T s' k cur
      | Switched st \<Rightarrow>
          (\<exists>new\<in>run_queue s. new \<noteq> cur \<and> t_cpuid (thread_at s new) = - 1 \<and>
             resumed s s' k new st \<and> suspended s s' k cur status \<and> others_kept s s' k cur new)
      | Awaiting \<Rightarrow> (\<forall>i<512. \<not> eligible s (of_nat k) i) \<and> runs_on T s' k 0 \<and>
          (cur \<noteq> 0 \<longrightarrow> thread_at s' cur = left_thread (regs s k) status (thread_at s cur)))"

lemma nobody_running:
  assumes "sched_inv T s" "working_cpus s = 0"
  shows "running T (thread_at s) = {}"
proof -
  let ?R = "running T (thread_at s)"
  have th: "threads_inv T (length (local_cpus s)) (thread_at s)" and n: "length (local_cpus s) \<le> 2 ^ 32"
    and w: "working_cpus s = of_nat (card ?R)"
    using assms(1) by (simp_all add: sched_inv_def cpus_inv_def)
  have "inj_on (\<lambda>t. unat (t_cpuid (thread_at s t))) ?R"
    using th by (auto simp: threads_inv_def inj_on_def unat_inject)
  moreover have "(\<lambda>t. unat (t_cpuid (thread_at s t))) ` ?R \<subseteq> {..<length (local_cpus s)}"
    using th by (auto simp: threads_inv_def running_def)
  ultimately have "card ?R \<le> card {..<length (local_cpus s)}"
    by (rule card_inj_on_le) simp
  then have "unat (of_nat (card ?R) :: u64) = card ?R"
    using n by (intro unat_of_nat_u64) simp
  then have "card ?R = 0"
    using w assms(2) by simp
  moreover have "finite ?R"
    using th by (simp add: threads_inv_def running_def)
  ultimately show ?thesis
    by simp
qed

lemma isr_none_outcome:
  assumes "sched_inv T s" "k < length (local_cpus s)" "runs_on T s k cur" "\<not> cottage_debug c"
  obtains s4 where "isr_leave c k k cur 0 status s = Inr (False, s4)"
    "case isr_idle c k k s4 of
       Inl e \<Rightarrow> e = Panic ''Event heartbeat has flatlined :('' \<and> running T (thread_at s) \<subseteq> {cur}
     | Inr s' \<Rightarrow> sched_inv T s' \<and> runs_on T s' k 0 \<and>
         (cur \<noteq> 0 \<longrightarrow> thread_at s' cur = left_thread (regs s k) status (thread_at s cur))"
proof -
  obtain s4 where s4: "isr_leave c k k cur 0 status s = Inr (False, s4)" "sched_inv T s4"
    "\<forall>u\<in>T. t_cpuid (thread_at s4 u) \<noteq> of_nat k" "\<forall>u. u \<noteq> cur \<longrightarrow> thread_at s4 u = thread_at s u"
    "cur \<noteq> 0 \<longrightarrow> thread_at s4 cur = left_thread (regs s k) status (thread_at s cur)"
    "local_cpus s4 = local_cpus s"
  proof (cases "cur = 0")
    case True
    show ?thesis
      by (rule that [of s]) (use True assms in \<open>auto simp: isr_leave_def runs_on_def\<close>)
  next
    case False
    show ?thesis
      by (rule isr_leave_inv [OF assms(1-4) False [symmetric], where status = status]) (rule that; assumption)
  qed
  have "running T (thread_at s) \<subseteq> {cur}" if w: "working_cpus s4 = 0"
  proof
    fix t
    assume "t \<in> running T (thread_at s)"
    then show "t \<in> {cur}"
      using nobody_running [OF s4(2) w] s4(4) by (cases "t = cur") (auto simp: running_def)
  qed
  moreover have "k < length (local_cpus s4)"
    using assms(2) s4(6) by simp
  ultimately show ?thesis
    using isr_idle_inv [OF s4(2) _ s4(3), of c] s4(1,5) by (intro that [of s4]) (auto split: sum.splits)
qed

lemma scheduler_isr_outcome:
  assumes "sched_inv T s" "k < length (local_cpus s)" "runs_on T s k cur" "\<not> cottage_debug c" "\<not> cpu_interrupt_state c"
  shows "case scheduler_isr c k status s of
      Inl e \<Rightarrow> e = Panic ''Event heartbeat has flatlined :('' \<and> running T (thread_at s) \<subseteq> {cur}
    | Inr (out, s') \<Rightarrow> sched_inv T s' \<and> isr_result T k cur status s out s'"
proof -
  let ?l = "isr_looking k s"
  note li = isr_looking_inv [OF assms(1-3)]
  have kl: "k < length (local_cpus ?l)"
    using assms(2) by simp
  have num: "cpu_number (local_cpus ?l ! unat (gs_cpu k ?l)) = of_nat k"
    using gs_of_thread(3) [OF li(1) kl li(2)] by (simp add: this_cpu_def)
  have rq: "run_queue ?l = run_queue s"
    by (simp add: run_queue_def)
  have last: "0 \<le> last_run_queue_index (local_cpus s ! k) + 1" "last_run_queue_index (local_cpus s ! k) < int MAX_THREADS"
    using assms(1,2) by (auto simp: sched_inv_def cpus_inv_def)
  note start = scheduler_isr_start [OF assms(1-3,5), of status]
  show ?thesis
  proof (rule get_next_thread_cases [OF assms(5) last, where k = k and s = ?l, unfolded num])
    assume none: "get_next_thread c k (last_run_queue_index (local_cpus s ! k)) ?l = Inr (0, - 1, ?l)"
      and el: "\<forall>i<MAX_THREADS. \<not> eligible ?l (of_nat k) i"
    obtain s4 where s4: "isr_leave c k k cur 0 status ?l = Inr (False, s4)"
      "case isr_idle c k k s4 of
         Inl e \<Rightarrow> e = Panic ''Event heartbeat has flatlined :('' \<and> running T (thread_at ?l) \<subseteq> {cur}
       | Inr s' \<Rightarrow> sched_inv T s' \<and> runs_on T s' k 0 \<and>
           (cur \<noteq> 0 \<longrightarrow> thread_at s' cur = left_thread (regs ?l k) status (thread_at ?l cur))"
      by (rule isr_none_outcome [OF li(1) kl li(2) assms(4)])
    then show ?thesis
      unfolding start none using el by (auto simp: isr_result_def MAX_THREADS_def split: sum.splits)
  next
    fix d i
    let ?new = "scheduler_running_queue s ! i"
    assume d: "d < MAX_THREADS" "i = (nat (last_run_queue_index (local_cpus s ! k) + 1) + d) mod MAX_THREADS"
      "eligible ?l (of_nat k) i"
      and g: "get_next_thread c k (last_run_queue_index (local_cpus s ! k)) ?l =
         Inr (scheduler_running_queue ?l ! i, int i, claim c k (of_nat k) (scheduler_running_queue ?l ! i) ?l)"
    have i: "i < MAX_THREADS"
      unfolding d(2) by (simp add: MAX_THREADS_def)
    note el = eligible_thread [OF li(1) kl li(2) i d(3), simplified]
    show ?thesis
    proof (cases "?new = cur")
      case True
      then have cur: "cur \<noteq> 0" "cur \<in> run_queue ?l" "t_cpuid (thread_at s cur) = of_nat k"
        using el assms(3) by (auto simp: runs_on_def)
      then have cl: "claim c k (of_nat k) cur ?l = ?l"
        by (simp add: claim_def)
      obtain s' where "isr_leave c k k cur cur status ?l = Inr (True, s')" "sched_inv T s'" "runs_on T s' k cur"
        by (rule isr_same_outcome [OF li(1) kl li(2) assms(4) cur(1,2)])
      then show ?thesis
        unfolding start g using True cl cur(2) rq by (simp add: isr_result_def)
    next
      case False
      then have free: "t_cpuid (thread_at ?l ?new) = - 1"
        using el(4) by simp
      have ix: "0 \<le> int i" "int i < int MAX_THREADS"
        using i by simp_all
      obtain s4 s' st where sw: "isr_leave c k k cur ?new status (claim c k (of_nat k) ?new ?l) = Inr (False, s4)"
        "isr_enter k k ?new (int i) s4 = (st, s')" "sched_inv T s'" "resumed ?l s' k ?new st" "suspended ?l s' k cur status"
        "others_kept ?l s' k cur ?new"
        by (rule isr_switch_outcome [OF li(1) kl li(2) assms(4) el(1) False free ix, where status = status])
      have "isr_result T k cur status s (Switched st) s'"
        unfolding isr_result_def using sw(4-6) False free el(2) rq
        by (auto simp: resumed_def suspended_def others_kept_def intro!: bexI [of _ ?new])
      then show ?thesis
        unfolding start g using sw(1-3) el(3) by simp
    qed
  qed
qed



section \<open>Consequences for the debug build, process numbers and racing callers\<close>

text \<open>
  The handler releases the yield lock of the interrupted thread even if the thread never took it, and
  in a debug build the release of a lock that is not held panics: there the first preemption of any
  thread outside \<^verbatim>\<open>scheduler_yield\<close> stops the kernel.
\<close>

lemma isr_leave_debug:
  assumes "cottage_debug c" "cur \<noteq> 0" "\<not> is_locked (t_yield_await (thread_at s cur))"
  shows "isr_leave c k j cur new status s = Inl (Panic ''Attempted to release lock that isn't held'')"
  using assms by (simp add: isr_leave_def lock_release_def Let_def)

lemma preemption_panics_in_debug_build:
  assumes "sched_inv T s" "k < length (local_cpus s)" "runs_on T s k cur" "\<not> cpu_interrupt_state c"
    and "cottage_debug c" "cur \<noteq> 0" "\<not> is_locked (t_yield_await (thread_at s cur))"
  shows "scheduler_isr c k status s = Inl (Panic ''Attempted to release lock that isn't held'')"
proof -
  let ?l = "isr_looking k s"
  have last: "0 \<le> last_run_queue_index (local_cpus s ! k) + 1" "last_run_queue_index (local_cpus s ! k) < int MAX_THREADS"
    using assms(1,2) by (auto simp: sched_inv_def cpus_inv_def)
  obtain new idx s3 where g: "get_next_thread c k (last_run_queue_index (local_cpus s ! k)) ?l = Inr (new, idx, s3)"
    and y: "t_yield_await (thread_at s3 cur) = t_yield_await (thread_at s cur)"
    by (rule get_next_thread_cases [OF assms(4) last, where k = k and s = ?l]) (auto simp: claim_def)
  then show ?thesis
    unfolding scheduler_isr_start [OF assms(1-4)] g using isr_leave_debug [OF assms(5,6)] assms(7) by simp
qed

text \<open>A new process gets the lowest free number; every other entry keeps its owner.\<close>

lemma proc_allocate_pid_spec:
  assumes "length (processes s) = PROC_MAX_PROCESSES" "p \<noteq> 0"
  shows "case proc_allocate_pid p s of
      Inl e \<Rightarrow> e = Panic ''PID exhaustion!'' \<and> 0 \<notin> set (processes s)
    | Inr (pid, s') \<Rightarrow> unat pid < PROC_MAX_PROCESSES \<and> processes s ! unat pid = 0 \<and>
        processes s' = (processes s)[unat pid := p]"
proof (cases "pid_slot p s")
  case (Pair slot s')
  show ?thesis
  proof (cases slot)
    case None
    then show ?thesis
      using Pair pids.put_none_iff [OF assms(2), of s] by (auto simp: proc_allocate_pid_def)
  next
    case (Some i)
    note i = pids.put_some [OF assms(2), of s i]
    have "i < PROC_MAX_PROCESSES" "processes s ! i = 0" "processes s' = (processes s)[i := p]"
      using i Pair Some assms(1) by simp_all
    moreover from this have "unat (of_nat i :: u64) = i"
      by (intro unat_of_nat_u64) (simp add: PROC_MAX_PROCESSES_def)
    ultimately show ?thesis
      using Pair Some by (simp add: proc_allocate_pid_def)
  qed
qed

text \<open>
  Two callers that both see the flag clear before either of them sets it put the same thread into
  two slots.
\<close>

lemma racing_enqueues_queue_twice:
  assumes "t \<noteq> 0" "enqueue_slot t s = (Some i, s1)" "enqueue_slot t s1 = (Some j, s2)"
  shows "i \<noteq> j" "scheduler_running_queue s2 ! i = t" "scheduler_running_queue s2 ! j = t"
proof -
  note a = runq.put_some [OF assms(1), of s i, unfolded assms(2) fst_conv snd_conv, OF refl]
  note b = runq.put_some [OF assms(1), of s1 j, unfolded assms(3) fst_conv snd_conv, OF refl]
  show "i \<noteq> j"
    using a b assms(1) by auto
  then show "scheduler_running_queue s2 ! i = t" "scheduler_running_queue s2 ! j = t"
    using a b by simp_all
qed

text \<open>
  The handshake of \<^verbatim>\<open>scheduler_yield\<close>: the caller takes its yield lock, the interrupt handler frees it
  while switching the caller out, and when the caller runs again it takes and frees the lock once more
  without waiting.
\<close>

lemma scheduler_yield_end_runs:
  assumes "lock_idle (t_yield_await (thread_at s cur))"
  obtains y where "scheduler_yield_end c k cur s = Inr (upd_thread cur (\<lambda>th. th\<lparr>t_yield_await := y\<rparr>) s)" "lock_idle y"
proof -
  obtain l1 l2 where "lock_acquire (ctx c k s) ''scheduler_yield'' (t_yield_await (thread_at s cur)) = Inr l1"
    "lock_release (ctx c k s) l1 = Inr l2" "lock_idle l2"
    using spinlock.section_runs [OF assms] by blast
  then show ?thesis
    using that by (simp add: scheduler_yield_end_def)
qed

end
