(* ===== verification/SchedDemo.thy ===== *)
theory SchedDemo
  imports SchedIsr
begin

text \<open>
  A concrete machine on which the statements about the scheduler are instantiated.
\<close>

section \<open>A machine with two processors\<close>

text \<open>
  Processor 0 runs the first of two queued threads, processor 1 idles.  The second thread waits in
  user mode.
\<close>

definition demo_status :: "u64 \<Rightarrow> u64 \<Rightarrow> cpu_status_t" where
  "demo_status rip cs = (status_of_frame (replicate 23 0))\<lparr>st_rip := rip, st_cs := cs\<rparr>"

definition demo_thread :: "addr \<Rightarrow> u64 \<Rightarrow> u64 \<Rightarrow> bool \<Rightarrow> thread_t" where
  "demo_thread a cpu cs queued =
     \<lparr>t_cpuid = cpu, t_self = a, t_errnum = 0, t_kernel_stack = 0, t_tid = 0, t_is_in_queue = queued,
      t_lock = (LOCK_INITIALIZER None)\<lparr>is_locked := cpu \<noteq> - 1\<rparr>, t_process = 0, t_cpu_state = demo_status a cs,
      t_gs_base = a + 1, t_fs_base = a + 2, t_pf_stack = 0, t_cr3 = a + 3, t_fpu_storage = a + 4,
      t_yield_await = LOCK_INITIALIZER None, t_timeslice = 5000, t_enqueued_by_signal = False,
      t_sigactions = [], t_stacks = []\<rparr>"

definition demo_cpu :: "nat \<Rightarrow> int \<Rightarrow> local_cpu_t" where
  "demo_cpu n prev =
     \<lparr>cpu_number = of_nat n, cpu_zero = 0, tss_ist3 = 0, lapic_id = of_nat n, lapic_timer_freq = 1000000000,
      is_idle = False, last_run_queue_index = prev, aborted = False\<rparr>"

definition demo_sched :: sched_state where
  "demo_sched =
     \<lparr>io_log = [], io_device = (\<lambda>_. 0), lapic_base = 0xFFFF8000FEE00000, apic_base_msr = 0xFEE00900, hpet = 0,
      have_hpet = False, madt_io_apics = [], madt_isos = [],
      scheduler_running_queue = 0x1000 # 0x2000 # replicate 510 0,
      thread_at = (\<lambda>a. if a = 0x1000 then demo_thread a 0 0x28 True else demo_thread a (- 1) 0x43 (a = 0x2000)),
      local_cpus = [demo_cpu 0 0, demo_cpu 1 511],
      cpu_block = (\<lambda>n. if n = 0 then 0x8000 else 0x9000),
      regs = (\<lambda>n. if n = 0 then \<lparr>gs_base = 0x1000, kernel_gs_base = 0x1000, fs_base = 7, cr3 = 8, fpu = [9]\<rparr>
                 else \<lparr>gs_base = 0x9000, kernel_gs_base = 0x9000, fs_base = 0, cr3 = 0, fpu = []\<rparr>),
      fpu_area = (\<lambda>_. []), working_cpus = 1, startup_phase_ignore_heartbeat = False, scheduler_ready = True,
      scheduler_vector = 0x21, waiting_event_count = 0, sched_isr_count = 0, processes = []\<rparr>"

definition release_cpu :: cpu_ctx where
  "release_cpu = (debug_cpu 0)\<lparr>cottage_debug := False\<rparr>"

abbreviation demo_T :: "addr set" where "demo_T \<equiv> {0x1000, 0x2000}"

lemma demo_queue_nth:
  "i < 512 \<Longrightarrow> scheduler_running_queue demo_sched ! i = (if i = 0 then 0x1000 else if i = 1 then 0x2000 else 0)"
  by (auto simp: demo_sched_def nth_Cons')

lemma demo_queue_inv: "queue_inv demo_sched" "run_queue demo_sched = demo_T"
proof -
  have "set (scheduler_running_queue demo_sched) = insert 0 demo_T"
    by (auto simp: demo_sched_def)
  moreover have "length (scheduler_running_queue demo_sched) = MAX_THREADS"
    by (simp add: demo_sched_def MAX_THREADS_def)
  moreover have "t_is_in_queue (thread_at demo_sched t) \<longleftrightarrow> t \<in> demo_T" for t
    by (simp add: demo_sched_def demo_thread_def)
  ultimately show "queue_inv demo_sched" "run_queue demo_sched = demo_T"
    by (auto simp: queue_inv_def run_queue_def demo_queue_nth MAX_THREADS_def)
qed

lemma demo_threads:
  "thread_at demo_sched 0x1000 = demo_thread 0x1000 0 0x28 True"
  "thread_at demo_sched 0x2000 = demo_thread 0x2000 (- 1) 0x43 True"
  by (simp_all add: demo_sched_def)

lemma demo_running: "running demo_T (thread_at demo_sched) = {0x1000}"
  by (auto simp: running_def demo_threads demo_thread_def)

lemma demo_sched_inv: "sched_inv demo_T demo_sched"
  unfolding sched_inv_def
proof (intro conjI)
  show "cpus_inv demo_sched"
    by (auto simp: cpus_inv_def demo_sched_def demo_cpu_def MAX_THREADS_def less_Suc_eq)
  show "blocks_inv demo_T demo_sched"
    by (auto simp: blocks_inv_def demo_sched_def inj_on_def less_Suc_eq)
  show "threads_inv demo_T (length (local_cpus demo_sched)) (thread_at demo_sched)"
    unfolding threads_inv_def demo_running by (auto simp: demo_threads demo_thread_def) (simp_all add: demo_sched_def)
  show "working_cpus demo_sched = of_nat (card (running demo_T (thread_at demo_sched)))"
    unfolding demo_running by (simp add: demo_sched_def)
qed (simp_all add: demo_queue_inv)

lemma demo_runs: "runs_on demo_T demo_sched 0 0x1000" "runs_on demo_T demo_sched 1 0"
  by (auto simp: runs_on_def demo_threads demo_thread_def demo_sched_def)

lemma release_cpu_simps [simp]: "\<not> cottage_debug release_cpu" "\<not> cpu_interrupt_state release_cpu"
  by (simp_all add: release_cpu_def cpu_interrupt_state_def debug_cpu_def)

theorem run_queue_refines_set_witness:
  "(\<exists>s'. enqueue_thread 0x3000 False demo_sched = (True, s') \<and> queue_inv s' \<and>
      run_queue s' = {0x1000, 0x2000, 0x3000}) \<and>
   (\<exists>s'. scheduler_dequeue_thread 0x3000 demo_sched = (True, s') \<and> queue_inv s' \<and> run_queue s' = {0x1000, 0x2000})"
  using run_queue_refines_set [OF demo_queue_inv(1), of "0x3000" False] demo_queue_inv(2)
  by (simp add: insert_commute)


lemma demo_eligible: "i < 512 \<Longrightarrow> eligible demo_sched 1 i \<longleftrightarrow> i = 1"
  by (auto simp: eligible_def demo_queue_nth demo_threads demo_thread_def LOCK_INITIALIZER_def)

lemma demo_cpu_1: "this_cpu 1 demo_sched = 1" "unat (gs_cpu 1 demo_sched) = 1"
  using gs_of_thread(3,4) [OF demo_sched_inv _ demo_runs(2)] by (simp_all add: demo_sched_def)

lemma demo_next:
  assumes "prev = 0 \<or> prev = 1"
  shows "get_next_thread release_cpu 1 prev demo_sched = Inr (0x2000, 1, claim release_cpu 1 1 0x2000 demo_sched)"
proof -
  have num: "cpu_number (local_cpus demo_sched ! unat (gs_cpu 1 demo_sched)) = 1"
    using demo_cpu_1 by (simp add: this_cpu_def)
  have p: "0 \<le> prev + 1" "prev < int MAX_THREADS"
    using assms by (auto simp: MAX_THREADS_def)
  show ?thesis
  proof (rule get_next_thread_cases [OF release_cpu_simps(2) p, where k = 1 and s = demo_sched, unfolded num])
    assume "\<forall>i<MAX_THREADS. \<not> eligible demo_sched 1 i"
    then show ?thesis
      using demo_eligible [of 1] by (auto simp: MAX_THREADS_def)
  next
    fix d i
    assume d: "i = (nat (prev + 1) + d) mod MAX_THREADS" "eligible demo_sched 1 i"
      and g: "get_next_thread release_cpu 1 prev demo_sched = Inr (scheduler_running_queue demo_sched ! i, int i,
        claim release_cpu 1 1 (scheduler_running_queue demo_sched ! i) demo_sched)"
    have "i < 512"
      using d(1) by (simp add: MAX_THREADS_def)
    then have "i = 1"
      using d(2) demo_eligible by simp
    then show ?thesis
      using g demo_queue_nth [of 1] by simp
  qed
qed


text \<open>One step of a processor whose very next slot holds another thread that it may take.\<close>

lemma scheduler_isr_takes:
  assumes "sched_inv T s" "k < length (local_cpus s)" "runs_on T s k cur" "\<not> cottage_debug c" "\<not> cpu_interrupt_state c"
    and "i = nat (last_run_queue_index (local_cpus s ! k) + 1) mod MAX_THREADS" "eligible s (of_nat k) i"
    and "scheduler_running_queue s ! i = new" "new \<noteq> cur"
  shows "\<exists>s'. scheduler_isr c k status s = Inr (Switched (t_cpu_state (thread_at s new)), s') \<and> sched_inv T s' \<and>
           resumed s s' k new (t_cpu_state (thread_at s new)) \<and> suspended s s' k cur status \<and> others_kept s s' k cur new"
proof -
  let ?l = "isr_looking k s"
  let ?last = "last_run_queue_index (local_cpus s ! k)"
  note li = isr_looking_inv [OF assms(1-3)]
  have kl: "k < length (local_cpus ?l)"
    using assms(2) by simp
  have num: "cpu_number (local_cpus ?l ! unat (gs_cpu k ?l)) = of_nat k"
    using gs_of_thread(3) [OF li(1) kl li(2)] by (simp add: this_cpu_def)
  have last: "0 \<le> ?last" "?last < int MAX_THREADS"
    using assms(1,2) by (auto simp: sched_inv_def cpus_inv_def)
  have i: "i < MAX_THREADS" "0 \<le> int i" "int i < int MAX_THREADS"
    using assms(6) by (simp_all add: MAX_THREADS_def)
  have el: "eligible ?l (of_nat k) i"
    using assms(7) by simp
  note th = eligible_thread [OF li(1) kl li(2) i(1) el]
  have free: "new \<in> T" "t_cpuid (thread_at ?l new) = - 1"
    using th(1,4) assms(8,9) by simp_all
  have "next_scan c k (of_nat k) MAX_THREADS (int (nat (?last + 1))) ?l = (new, int i, claim c k (of_nat k) new ?l)"
    using next_scan_found [of "nat (?last + 1)" 0 MAX_THREADS ?l "of_nat k" c k] last el assms(6,8)
    by (simp add: MAX_THREADS_def)
  then have g: "get_next_thread c k ?last ?l = Inr (new, int i, claim c k (of_nat k) new ?l)"
    using last(1) assms(5) num by (simp add: get_next_thread_def cpu_get_current_def)
  obtain s4 s' st where sw: "isr_leave c k k cur new status (claim c k (of_nat k) new ?l) = Inr (False, s4)"
    "isr_enter k k new (int i) s4 = (st, s')" "sched_inv T s'" "resumed ?l s' k new st" "suspended ?l s' k cur status"
    "others_kept ?l s' k cur new"
    by (rule isr_switch_outcome [OF li(1) kl li(2) assms(4) free(1) assms(9) free(2) i(2,3), where status = status])
  have "resumed s s' k new st" "suspended s s' k cur status" "others_kept s s' k cur new"
    using sw(4-6) by (auto simp: resumed_def suspended_def others_kept_def)
  then show ?thesis
    using sw(1-3) th(3) assms(8) unfolding scheduler_isr_start [OF assms(1-3,5)] g
    by (auto simp: resumed_def)
qed


end
