(* ===== verification/Semaphore.thy ===== *)
theory Semaphore
  imports SchedDemo
begin

text \<open>
  The counting semaphore of \<^verbatim>\<open>kernel/src/scheduler/semaphore.c\<close>: a signed count and a ring of waiting
  threads under one interrupt-safe lock.

  A wait that has to block takes the caller out of the run queue and yields; it continues when the
  scheduler runs the caller again.  The two definitions of the wait are the parts before and after
  that point.
\<close>

definition SEM_MAX_WAITERS :: nat where "SEM_MAX_WAITERS = 64"

record semaphore_t =
  sem_lock :: lock_t
  sem_count :: u64
  waiters :: "addr list"
  wait_head :: u32
  wait_tail :: u32

section \<open>Operations\<close>

definition sem_init :: "semaphore_t \<Rightarrow> u64 \<Rightarrow> semaphore_t" where
  "sem_init sem initial_count =
     sem\<lparr>sem_lock := LOCK_INITIALIZER (Some ''semaphore''), sem_count := initial_count, wait_head := 0, wait_tail := 0\<rparr>"

text \<open>The wait queue: entering panics when only one slot is left, leaving takes the oldest entry.\<close>

definition sem_push :: "addr \<Rightarrow> semaphore_t \<Rightarrow> semaphore_t option" where
  "sem_push t sem =
     (if (wait_tail sem + 1) mod 64 = wait_head sem then None
      else Some (sem\<lparr>waiters := (waiters sem)[unat (wait_tail sem) := t], wait_tail := (wait_tail sem + 1) mod 64\<rparr>))"

definition sem_pop :: "semaphore_t \<Rightarrow> (addr \<times> semaphore_t) option" where
  "sem_pop sem =
     (if wait_head sem \<noteq> wait_tail sem
      then Some (waiters sem ! unat (wait_head sem), sem\<lparr>wait_head := (wait_head sem + 1) mod 64\<rparr>)
      else None)"

datatype wait_outcome = Taken | Blocked u64

definition sem_wait ::
  "cpu_ctx \<Rightarrow> nat \<Rightarrow> semaphore_t \<Rightarrow> sched_state \<Rightarrow> kstop + (wait_outcome \<times> cpu_ctx \<times> semaphore_t \<times> sched_state)" where
  "sem_wait c k sem s =
     bindR (lock_acquire_irqsave ''sem_wait'' (ctx c k s) (sem_lock sem)) (\<lambda>(flags, c1, l).
       if 0 < sint (sem_count sem)
       then bindR (lock_release_irqrestore flags c1 l) (\<lambda>(c2, l').
              Inr (Taken, c2, sem\<lparr>sem_count := sem_count sem - 1, sem_lock := l'\<rparr>, s))
       else
         (let cur = get_current_thread k s
          in case sem_push cur sem of
               None \<Rightarrow> Inl (Panic ''semaphore queue full'')
             | Some sem1 \<Rightarrow>
                 (let s1 = snd (scheduler_dequeue_thread cur s)
                  in bindR (lock_release c1 l) (\<lambda>l'.
                       bindR (scheduler_yield_begin c1 k True s1) (\<lambda>(c2, s2).
                         Inr (Blocked flags, c2, sem1\<lparr>sem_lock := l'\<rparr>, s2))))))"

definition sem_wait_resume :: "cpu_ctx \<Rightarrow> nat \<Rightarrow> u64 \<Rightarrow> addr \<Rightarrow> sched_state \<Rightarrow> kstop + (cpu_ctx \<times> sched_state)" where
  "sem_wait_resume c k flags cur s =
     bindR (scheduler_yield_end c k cur s) (\<lambda>s1. Inr (irq_restore flags c, s1))"

definition sem_trywait :: "cpu_ctx \<Rightarrow> semaphore_t \<Rightarrow> kstop + (bool \<times> cpu_ctx \<times> semaphore_t)" where
  "sem_trywait c sem =
     bindR (lock_acquire_irqsave ''sem_trywait'' c (sem_lock sem)) (\<lambda>(flags, c1, l).
       if 0 < sint (sem_count sem)
       then bindR (lock_release_irqrestore flags c1 l) (\<lambda>(c2, l').
              Inr (True, c2, sem\<lparr>sem_count := sem_count sem - 1, sem_lock := l'\<rparr>))
       else bindR (lock_release_irqrestore flags c1 l) (\<lambda>(c2, l'). Inr (False, c2, sem\<lparr>sem_lock := l'\<rparr>)))"

definition sem_signal ::
  "cpu_ctx \<Rightarrow> nat \<Rightarrow> semaphore_t \<Rightarrow> sched_state \<Rightarrow> kstop + (cpu_ctx \<times> semaphore_t \<times> sched_state)" where
  "sem_signal c k sem s =
     bindR (lock_acquire_irqsave ''sem_signal'' (ctx c k s) (sem_lock sem)) (\<lambda>(flags, c1, l).
       (let (sem1, s1) =
              (case sem_pop sem of
                 Some (thread, sem') \<Rightarrow> (sem', snd (enqueue_thread thread False s))
               | None \<Rightarrow> (sem\<lparr>sem_count := sem_count sem + 1\<rparr>, s))
        in bindR (lock_release_irqrestore flags c1 l) (\<lambda>(c2, l'). Inr (c2, sem1\<lparr>sem_lock := l'\<rparr>, s1))))"

section \<open>The wait queue is a bounded first-in first-out queue\<close>

definition sem_inv :: "semaphore_t \<Rightarrow> bool" where
  "sem_inv sem \<longleftrightarrow> length (waiters sem) = SEM_MAX_WAITERS \<and> wait_head sem < 64 \<and> wait_tail sem < 64"

definition sem_waiting :: "semaphore_t \<Rightarrow> addr list" where
  "sem_waiting sem = ring_list (waiters sem) (unat (wait_head sem)) (unat (wait_tail sem))"

lemma unat_ring_next: "w < 64 \<Longrightarrow> unat ((w + 1) mod 64 :: u32) = Suc (unat w) mod 64"
  by (simp add: unat_mod unat_word_ariths word_less_nat_alt)

lemma ring_next_bound: "(w + 1) mod 64 < (64 :: u32)"
  by (simp add: word_less_nat_alt unat_mod)

lemma sem_inv_unat:
  assumes "sem_inv sem"
  shows "length (waiters sem) = 64" "unat (wait_head sem) < 64" "unat (wait_tail sem) < 64"
  using assms by (simp_all add: sem_inv_def SEM_MAX_WAITERS_def word_less_nat_alt)

interpretation semq: bounded_fifo sem_inv sem_waiting 63 sem_push sem_pop
proof
  fix sem x
  assume inv: "sem_inv sem"
  note b = sem_inv_unat [OF inv]
  have nxt: "unat ((wait_tail sem + 1) mod 64) = Suc (unat (wait_tail sem)) mod 64"
    using inv by (intro unat_ring_next) (simp add: sem_inv_def)
  have full: "(wait_tail sem + 1) mod 64 = wait_head sem \<longleftrightarrow> length (sem_waiting sem) = 63"
    using ring_full [of "unat (wait_head sem)" 64 "unat (wait_tail sem)"] b nxt
    by (simp add: sem_waiting_def flip: unat_inject)
  show "\<exists>sem'. sem_push x sem = Some sem' \<and> sem_inv sem' \<and> sem_waiting sem' = sem_waiting sem @ [x]"
    if "length (sem_waiting sem) < 63"
  proof -
    have ne: "(wait_tail sem + 1) mod 64 \<noteq> wait_head sem"
      using full that by simp
    then have "Suc (unat (wait_tail sem)) mod 64 \<noteq> unat (wait_head sem)"
      using nxt by (metis unat_inject)
    then show ?thesis
      using ring_push [of "unat (wait_head sem)" "waiters sem" "unat (wait_tail sem)" x] ne b nxt inv
      by (auto simp: sem_push_def sem_waiting_def sem_inv_def ring_next_bound)
  qed
  show "sem_push x sem = None" if "63 \<le> length (sem_waiting sem)"
    using full that ring_count_less [of "unat (wait_head sem)" 64 "unat (wait_tail sem)"] b
    by (simp add: sem_push_def sem_waiting_def)
  show "sem_pop sem = None" if "sem_waiting sem = []"
    using that ring_list_Nil [of "unat (wait_head sem)" "waiters sem" "unat (wait_tail sem)"] b
    by (simp add: sem_pop_def sem_waiting_def unat_inject)
  show "\<exists>sem'. sem_pop sem = Some (x, sem') \<and> sem_inv sem' \<and> sem_waiting sem' = xs" if q: "sem_waiting sem = x # xs" for xs
  proof -
    have ne: "unat (wait_head sem) \<noteq> unat (wait_tail sem)"
      using q ring_list_Nil [of "unat (wait_head sem)" "waiters sem" "unat (wait_tail sem)"] b
      by (auto simp: sem_waiting_def)
    have "unat ((wait_head sem + 1) mod 64) = Suc (unat (wait_head sem)) mod 64"
      using inv by (intro unat_ring_next) (simp add: sem_inv_def)
    then show ?thesis
      using ring_pop [of "unat (wait_head sem)" "waiters sem" "unat (wait_tail sem)"] ne b q inv
      by (auto simp: sem_pop_def sem_waiting_def sem_inv_def ring_next_bound)
  qed
qed

section \<open>The abstract semaphore\<close>

text \<open>A number that is never negative and, while it is zero, a list of waiting threads.\<close>

type_synonym sem_spec = "int \<times> addr list"

fun spec_signal :: "sem_spec \<Rightarrow> sem_spec" where
  "spec_signal (n, []) = (n + 1, [])"
| "spec_signal (n, t # ts) = (n, ts)"

fun spec_wait :: "addr \<Rightarrow> sem_spec \<Rightarrow> sem_spec" where
  "spec_wait t (n, ts) = (if 0 < n then (n - 1, ts) else (n, ts @ [t]))"

definition sem_abs :: "semaphore_t \<Rightarrow> sem_spec" where
  "sem_abs sem = (sint (sem_count sem), sem_waiting sem)"

definition sem_ok :: "semaphore_t \<Rightarrow> bool" where
  "sem_ok sem \<longleftrightarrow>
     sem_inv sem \<and> lock_idle (sem_lock sem) \<and> 0 \<le> sint (sem_count sem) \<and>
     (0 < sint (sem_count sem) \<longrightarrow> sem_waiting sem = [])"

lemma sint_plus_1: "sint (w :: u64) < 2 ^ 63 - 1 \<Longrightarrow> sint (w + 1) = sint w + 1"
  using sint_greater_eq [of w] by (simp add: sint_word_ariths signed_take_bit_int_eq_self)

lemma sint_minus_1: "0 < sint (w :: u64) \<Longrightarrow> sint (w - 1) = sint w - 1"
  using sint_less [of w] by (simp add: sint_word_ariths signed_take_bit_int_eq_self)

lemma sem_inv_fields [simp]:
  "sem_inv (sem\<lparr>sem_lock := l\<rparr>) = sem_inv sem" "sem_inv (sem\<lparr>sem_count := n\<rparr>) = sem_inv sem"
  "sem_waiting (sem\<lparr>sem_lock := l\<rparr>) = sem_waiting sem" "sem_waiting (sem\<lparr>sem_count := n\<rparr>) = sem_waiting sem"
  by (simp_all add: sem_inv_def sem_waiting_def)

lemma sem_pop_fields:
  "sem_pop sem = Some (t, sem') \<Longrightarrow> sem_count sem' = sem_count sem \<and> sem_lock sem' = sem_lock sem"
  "sem_push t sem = Some sem' \<Longrightarrow> sem_count sem' = sem_count sem \<and> sem_lock sem' = sem_lock sem"
  by (auto simp: sem_pop_def sem_push_def split: if_splits)

lemma sem_init_ok:
  assumes "length (waiters sem) = 64" "0 \<le> sint n"
  shows "sem_ok (sem_init sem n)" "sem_abs (sem_init sem n) = (sint n, [])"
  using assms by (simp_all add: sem_ok_def sem_init_def sem_inv_def sem_abs_def sem_waiting_def SEM_MAX_WAITERS_def
      ring_list_def ring_count_def)

lemma sem_signal_spec:
  assumes "sem_ok sem" "sint (sem_count sem) < 2 ^ 63 - 1"
  obtains c' sem' where "sem_signal c k sem s = Inr (c', sem',
      case sem_waiting sem of [] \<Rightarrow> s | t # _ \<Rightarrow> snd (enqueue_thread t False s))"
    "sem_ok sem'" "sem_abs sem' = spec_signal (sem_abs sem)"
proof -
  have inv: "sem_inv sem" "lock_idle (sem_lock sem)" "0 \<le> sint (sem_count sem)"
    "0 < sint (sem_count sem) \<longrightarrow> sem_waiting sem = []"
    using assms(1) by (simp_all add: sem_ok_def)
  obtain flags c1 l1 c2 l2 where l: "lock_acquire_irqsave ''sem_signal'' (ctx c k s) (sem_lock sem) = Inr (flags, c1, l1)"
    "lock_release_irqrestore flags c1 l1 = Inr (c2, l2)" "lock_idle l2"
    using irqsave_section_runs [OF inv(2)] by blast
  show ?thesis
  proof (cases "sem_waiting sem")
    case Nil
    have "sem_signal c k sem s = Inr (c2, sem\<lparr>sem_count := sem_count sem + 1, sem_lock := l2\<rparr>, s)"
      using l semq.pop_empty [OF inv(1) Nil] by (simp add: sem_signal_def)
    then show ?thesis
      using Nil inv l(3) sint_plus_1 [OF assms(2)]
      by (intro that [of c2 "sem\<lparr>sem_count := sem_count sem + 1, sem_lock := l2\<rparr>"]) (simp_all add: sem_ok_def sem_abs_def)
  next
    case (Cons t ts)
    then obtain sem1 where p: "sem_pop sem = Some (t, sem1)" "sem_inv sem1" "sem_waiting sem1 = ts"
      using semq.pop_first [OF inv(1)] by blast
    have "sem_signal c k sem s = Inr (c2, sem1\<lparr>sem_lock := l2\<rparr>, snd (enqueue_thread t False s))"
      using l p(1) by (simp add: sem_signal_def)
    then show ?thesis
      using Cons p inv l(3) sem_pop_fields(1) [OF p(1)]
      by (intro that [of c2 "sem1\<lparr>sem_lock := l2\<rparr>"]) (simp_all add: sem_ok_def sem_abs_def)
  qed
qed

lemma sem_trywait_spec:
  assumes "sem_ok sem"
  obtains c' sem' where "sem_trywait c sem = Inr (0 < fst (sem_abs sem), c', sem')" "sem_ok sem'"
    "sem_abs sem' = (if 0 < fst (sem_abs sem) then spec_wait t (sem_abs sem) else sem_abs sem)"
proof -
  have inv: "sem_inv sem" "lock_idle (sem_lock sem)" "0 \<le> sint (sem_count sem)"
    "0 < sint (sem_count sem) \<longrightarrow> sem_waiting sem = []"
    using assms(1) by (simp_all add: sem_ok_def)
  obtain flags c1 l1 c2 l2 where l: "lock_acquire_irqsave ''sem_trywait'' c (sem_lock sem) = Inr (flags, c1, l1)"
    "lock_release_irqrestore flags c1 l1 = Inr (c2, l2)" "lock_idle l2"
    using irqsave_section_runs [OF inv(2)] by blast
  show ?thesis
  proof (cases "0 < sint (sem_count sem)")
    case True
    then show ?thesis
      using l inv sint_minus_1 [OF True]
      by (intro that [of c2 "sem\<lparr>sem_count := sem_count sem - 1, sem_lock := l2\<rparr>"])
        (simp_all add: sem_trywait_def sem_ok_def sem_abs_def)
  next
    case False
    then show ?thesis
      using l inv by (intro that [of c2 "sem\<lparr>sem_lock := l2\<rparr>"]) (simp_all add: sem_trywait_def sem_ok_def sem_abs_def)
  qed
qed

section \<open>Blocking\<close>

lemma dequeue_sched_inv:
  assumes "sched_inv T s" "runs_on T s k cur" "t \<noteq> 0"
  obtains s' where "scheduler_dequeue_thread t s = (True, s')" "sched_inv T s'" "runs_on T s' k cur"
    "run_queue s' = run_queue s - {t}" "local_cpus s' = local_cpus s"
    "thread_at s' = (thread_at s)(t := (thread_at s t)\<lparr>t_is_in_queue := False\<rparr>)"
proof -
  have inv: "cpus_inv s" "blocks_inv T s" "threads_inv T (length (local_cpus s)) (thread_at s)" "queue_inv s"
    "run_queue s \<subseteq> T" "working_cpus s = of_nat (card (running T (thread_at s)))"
    using assms(1) by (simp_all add: sched_inv_def)
  obtain s' where s': "scheduler_dequeue_thread t s = (True, s')" "queue_inv s'" "run_queue s' = run_queue s - {t}"
    "thread_at s' = (thread_at s)(t := (thread_at s t)\<lparr>t_is_in_queue := False\<rparr>)"
    "regs s' = regs s" "local_cpus s' = local_cpus s" "cpu_block s' = cpu_block s" "working_cpus s' = working_cpus s"
    by (rule dequeue_thread_spec [OF inv(4) assms(3)])
  have "threads_inv T (length (local_cpus s)) (thread_at s')" "running T (thread_at s') = running T (thread_at s)"
    by (rule threads_inv_cong [OF inv(3)]; simp add: s'(4))+
  then have "sched_inv T s'"
    using inv s' by (auto simp: sched_inv_def cpus_inv_def blocks_inv_def)
  moreover have "t_cpuid (thread_at s' u) = t_cpuid (thread_at s u)" for u
    by (simp add: s'(4))
  then have "runs_on T s' k cur"
    using assms(2) by (simp add: runs_on_def s'(5,7))
  ultimately show ?thesis
    using that s' by blast
qed

lemma yield_begin_runs:
  assumes "sched_inv T s" "k < length (local_cpus s)" "runs_on T s k cur" "cur \<noteq> 0"
    and "lock_idle (t_yield_await (thread_at s cur))"
  obtains c' y s' where "scheduler_yield_begin c k True s = Inr (c', s')" "cpu_interrupt_state c'"
    "thread_at s' = (thread_at s)(cur := (thread_at s cur)\<lparr>t_yield_await := y\<rparr>)" "is_locked y"
    "scheduler_running_queue s' = scheduler_running_queue s" "regs s' = regs s" "local_cpus s' = local_cpus s"
    "cpu_block s' = cpu_block s" "working_cpus s' = working_cpus s"
proof -
  let ?c = "c\<lparr>rflags := rflags c AND NOT 0x200\<rparr>"
  let ?s = "lapic_timer_stop s"
  have "cpus_inv ?s"
    using assms(1) by (simp add: sched_inv_def cpus_inv_def)
  then have i: "sched_inv T ?s"
    by (rule sched_inv_cong [OF assms(1), rotated]) simp_all
  have r: "runs_on T ?s k cur" "k < length (local_cpus ?s)"
    using assms(2,3) by (simp_all add: runs_on_def)
  have g: "cpu_get_current ?c k ?s = Inr k" "get_current_thread k ?s = cur"
    using gs_of_thread(2,4) [OF i r(2,1)]
    by (simp_all add: cpu_get_current_def cpu_interrupt_state_def and.assoc)
  obtain y where y: "lock_acquire (ctx ?c k ?s) ''scheduler_yield'' (t_yield_await (thread_at s cur)) = Inr y"
    "is_locked y"
    using spinlock.section_runs [OF assms(5)] unfolding lock_held_on_def by metis
  have "(rflags c AND NOT 0x200 OR 0x200) AND push_bit 9 1 \<noteq> (0 :: u64)"
    by (simp add: bit.conj_disj_distrib2 and.assoc)
  then show ?thesis
    using y g that by (simp add: scheduler_yield_begin_def Let_def cpu_interrupt_state_def)
qed

lemma sem_wait_taken:
  assumes "sem_ok sem" "0 < sint (sem_count sem)"
  obtains c' sem' where "sem_wait c k sem s = Inr (Taken, c', sem', s)" "sem_ok sem'"
    "sem_abs sem' = spec_wait t (sem_abs sem)"
proof -
  have inv: "sem_inv sem" "lock_idle (sem_lock sem)" "sem_waiting sem = []"
    using assms by (simp_all add: sem_ok_def)
  obtain flags c1 l1 c2 l2 where l: "lock_acquire_irqsave ''sem_wait'' (ctx c k s) (sem_lock sem) = Inr (flags, c1, l1)"
    "lock_release_irqrestore flags c1 l1 = Inr (c2, l2)" "lock_idle l2"
    using irqsave_section_runs [OF inv(2)] by blast
  then show ?thesis
    using inv assms(2) sint_minus_1 [OF assms(2)]
    by (intro that [of c2 "sem\<lparr>sem_count := sem_count sem - 1, sem_lock := l2\<rparr>"])
      (simp_all add: sem_wait_def sem_ok_def sem_abs_def)
qed

lemma sem_wait_blocked:
  assumes "sem_ok sem" "sint (sem_count sem) = 0" "length (sem_waiting sem) < 63"
    and "sched_inv T s" "k < length (local_cpus s)" "runs_on T s k cur" "cur \<noteq> 0"
    and "lock_idle (t_yield_await (thread_at s cur))"
  obtains flags c' sem' s' where "sem_wait c k sem s = Inr (Blocked flags, c', sem', s')" "sem_ok sem'"
    "sem_abs sem' = spec_wait cur (sem_abs sem)" "sched_inv T s'" "runs_on T s' k cur"
    "run_queue s' = run_queue s - {cur}" "is_locked (t_yield_await (thread_at s' cur))"
proof -
  have inv: "sem_inv sem" "lock_idle (sem_lock sem)"
    using assms(1) by (simp_all add: sem_ok_def)
  obtain flags c1 l1 l2 where l: "lock_acquire_irqsave ''sem_wait'' (ctx c k s) (sem_lock sem) = Inr (flags, c1, l1)"
    "lock_release c1 l1 = Inr l2" "lock_idle l2"
    using irqsave_section_runs [OF inv(2)] unfolding lock_release_irqrestore_def by blast
  obtain sem1 where p: "sem_push cur sem = Some sem1" "sem_inv sem1" "sem_waiting sem1 = sem_waiting sem @ [cur]"
    using semq.push_room [OF inv(1) assms(3)] by blast
  obtain s1 where s1: "scheduler_dequeue_thread cur s = (True, s1)" "sched_inv T s1" "runs_on T s1 k cur"
    "run_queue s1 = run_queue s - {cur}" "local_cpus s1 = local_cpus s"
    "thread_at s1 = (thread_at s)(cur := (thread_at s cur)\<lparr>t_is_in_queue := False\<rparr>)"
    by (rule dequeue_sched_inv [OF assms(4,6,7)])
  have idle: "lock_idle (t_yield_await (thread_at s1 cur))" and k1: "k < length (local_cpus s1)"
    using assms(5,8) s1(5,6) by simp_all
  obtain c2 y s2 where y: "scheduler_yield_begin c1 k True s1 = Inr (c2, s2)" "cpu_interrupt_state c2"
    "thread_at s2 = (thread_at s1)(cur := (thread_at s1 cur)\<lparr>t_yield_await := y\<rparr>)" "is_locked y"
    "scheduler_running_queue s2 = scheduler_running_queue s1" "regs s2 = regs s1" "local_cpus s2 = local_cpus s1"
    "cpu_block s2 = cpu_block s1" "working_cpus s2 = working_cpus s1"
    by (rule yield_begin_runs [OF s1(2) k1 s1(3) assms(7) idle])
  have w: "sem_wait c k sem s = Inr (Blocked flags, c2, sem1\<lparr>sem_lock := l2\<rparr>, s2)"
    using l p(1) s1(1) y(1) gs_of_thread(2) [OF assms(4-6)] assms(2) by (simp add: sem_wait_def Let_def)
  have inv1: "cpus_inv s1" "blocks_inv T s1" "threads_inv T (length (local_cpus s1)) (thread_at s1)" "queue_inv s1"
    "run_queue s1 \<subseteq> T" "working_cpus s1 = of_nat (card (running T (thread_at s1)))"
    using s1(2) by (simp_all add: sched_inv_def)
  have "threads_inv T (length (local_cpus s1)) (thread_at s2)" "running T (thread_at s2) = running T (thread_at s1)"
    by (rule threads_inv_cong [OF inv1(3)]; simp add: y(3))+
  moreover have "queue_inv s2" "run_queue s2 = run_queue s1"
    by (rule queue_inv_cong [OF inv1(4) y(5)]; simp add: y(3))+
  ultimately have "sched_inv T s2"
    using inv1 y by (simp add: sched_inv_def cpus_inv_def blocks_inv_def)
  moreover have "runs_on T s2 k cur"
    using s1(3) assms(7) y by (simp add: runs_on_def)
  ultimately show ?thesis
    using w p l(3) assms(1,2) sem_pop_fields(2) [OF p(1)] s1(4) y(3,4) \<open>run_queue s2 = run_queue s1\<close>
    by (intro that [OF w]) (simp_all add: sem_ok_def sem_abs_def)
qed

lemma sem_wait_full:
  assumes "sem_ok sem" "sint (sem_count sem) = 0" "63 \<le> length (sem_waiting sem)"
  shows "sem_wait c k sem s = Inl (Panic ''semaphore queue full'')"
proof -
  have inv: "sem_inv sem" "lock_idle (sem_lock sem)"
    using assms(1) by (simp_all add: sem_ok_def)
  obtain flags c1 l1 where "lock_acquire_irqsave ''sem_wait'' (ctx c k s) (sem_lock sem) = Inr (flags, c1, l1)"
    using irqsave_section_runs [OF inv(2)] by blast
  then show ?thesis
    using semq.push_full [OF inv(1) assms(3)] assms(2) by (simp add: sem_wait_def Let_def)
qed

section \<open>Properties\<close>

text \<open>
  C21: The semaphore implements the abstract one.  Signalling adds one to the count, or, if threads wait,
  leaves the count and hands the oldest waiter to the scheduler; the non-blocking wait succeeds exactly
  when the count is positive; and the blocking wait takes one from a positive count and otherwise
  appends the caller to the waiters, takes it out of the run queue and yields.  All of them keep the
  count from going negative and keep it zero while threads wait, and free the semaphore's lock; the
  64th waiter is an error.
\<close>

theorem semaphore_refines:
  assumes "sem_ok sem" "sint (sem_count sem) < 2 ^ 63 - 1"
    and "sched_inv T s" "k < length (local_cpus s)" "runs_on T s k cur" "cur \<noteq> 0"
    and "lock_idle (t_yield_await (thread_at s cur))"
  shows "(\<exists>c' sem' s'. sem_signal c k sem s = Inr (c', sem', s') \<and> sem_ok sem' \<and>
            sem_abs sem' = spec_signal (sem_abs sem) \<and>
            s' = (case sem_waiting sem of [] \<Rightarrow> s | t # _ \<Rightarrow> snd (enqueue_thread t False s))) \<and>
         (\<exists>c' sem'. sem_trywait c sem = Inr (0 < sint (sem_count sem), c', sem') \<and> sem_ok sem' \<and>
            sem_abs sem' = (if 0 < sint (sem_count sem) then spec_wait cur (sem_abs sem) else sem_abs sem)) \<and>
         (case sem_wait c k sem s of
            Inl e \<Rightarrow> e = Panic ''semaphore queue full'' \<and> sint (sem_count sem) = 0 \<and> length (sem_waiting sem) = 63
          | Inr (out, c', sem', s') \<Rightarrow> sem_ok sem' \<and> sem_abs sem' = spec_wait cur (sem_abs sem) \<and>
              (if 0 < sint (sem_count sem) then out = Taken \<and> s' = s
               else sched_inv T s' \<and> run_queue s' = run_queue s - {cur} \<and> out = Blocked (rflags c)))"
proof (intro conjI)
  show "\<exists>c' sem' s'. sem_signal c k sem s = Inr (c', sem', s') \<and> sem_ok sem' \<and>
      sem_abs sem' = spec_signal (sem_abs sem) \<and>
      s' = (case sem_waiting sem of [] \<Rightarrow> s | t # _ \<Rightarrow> snd (enqueue_thread t False s))"
    by (rule sem_signal_spec [OF assms(1,2)]) blast
  show "\<exists>c' sem'. sem_trywait c sem = Inr (0 < sint (sem_count sem), c', sem') \<and> sem_ok sem' \<and>
      sem_abs sem' = (if 0 < sint (sem_count sem) then spec_wait cur (sem_abs sem) else sem_abs sem)"
    by (rule sem_trywait_spec [OF assms(1), where t = cur and c = c]) (auto simp: sem_abs_def)
  show "case sem_wait c k sem s of
      Inl e \<Rightarrow> e = Panic ''semaphore queue full'' \<and> sint (sem_count sem) = 0 \<and> length (sem_waiting sem) = 63
    | Inr (out, c', sem', s') \<Rightarrow> sem_ok sem' \<and> sem_abs sem' = spec_wait cur (sem_abs sem) \<and>
        (if 0 < sint (sem_count sem) then out = Taken \<and> s' = s
         else sched_inv T s' \<and> run_queue s' = run_queue s - {cur} \<and> out = Blocked (rflags c))"
  proof (cases "0 < sint (sem_count sem)")
    case True
    then show ?thesis
      using sem_wait_taken [OF assms(1) True, of c k s cur] by fastforce
  next
    case False
    then have zero: "sint (sem_count sem) = 0"
      using assms(1) by (simp add: sem_ok_def)
    show ?thesis
    proof (cases "length (sem_waiting sem) < 63")
      case True
      obtain flags c' sem' s' where w: "sem_wait c k sem s = Inr (Blocked flags, c', sem', s')" "sem_ok sem'"
        "sem_abs sem' = spec_wait cur (sem_abs sem)" "sched_inv T s'" "runs_on T s' k cur"
        "run_queue s' = run_queue s - {cur}" "is_locked (t_yield_await (thread_at s' cur))"
        by (rule sem_wait_blocked [OF assms(1) zero True assms(3-7)])
      have "flags = rflags c"
        using w(1) zero
        by (auto simp: sem_wait_def lock_acquire_irqsave_def irq_save_and_disable_def ctx_def Let_def
            split: option.splits elim!: bindR_InrE)
      then show ?thesis
        using w zero by simp
    next
      case full: False
      have "length (sem_waiting sem) < 64"
        using assms(1) sem_inv_unat [of sem] by (simp add: sem_ok_def sem_waiting_def ring_count_less)
      then show ?thesis
        using sem_wait_full [OF assms(1) zero, of c k s] full zero by simp
    qed
  qed
qed

primrec sem_signals ::
  "cpu_ctx \<Rightarrow> nat \<Rightarrow> nat \<Rightarrow> semaphore_t \<Rightarrow> sched_state \<Rightarrow> kstop + (cpu_ctx \<times> semaphore_t \<times> sched_state)" where
  "sem_signals c k 0 sem s = Inr (c, sem, s)"
| "sem_signals c k (Suc n) sem s =
     bindR (sem_signal c k sem s) (\<lambda>(c1, sem1, s1). sem_signals c1 k n sem1 s1)"

lemma enqueue_thread_adds:
  assumes "queue_inv s" "t \<noteq> 0" "card (run_queue s) < 512"
  obtains s' where "enqueue_thread t b s = (True, s')" "queue_inv s'" "run_queue s' = insert t (run_queue s)"
proof (cases "t \<in> run_queue s")
  case True
  then show ?thesis
    using enqueue_thread_other(1) [OF assms(1,2) True] assms(1) that [of s] by (simp add: insert_absorb)
next
  case False
  have "card (run_queue s) < MAX_THREADS"
    using assms(3) by (simp add: MAX_THREADS_def)
  then show ?thesis
    using enqueue_thread_new [OF assms(1,2) False] that by metis
qed

lemma sem_signals_wake:
  assumes "sem_ok sem" "queue_inv s" "n \<le> length (sem_waiting sem)" "0 \<notin> set (sem_waiting sem)"
    and "card (run_queue s) + n \<le> 512"
  shows "\<exists>c' sem' s'. sem_signals c k n sem s = Inr (c', sem', s') \<and> sem_ok sem' \<and>
           sem_abs sem' = (sint (sem_count sem), drop n (sem_waiting sem)) \<and>
           queue_inv s' \<and> run_queue s' = run_queue s \<union> set (take n (sem_waiting sem))"
  using assms
proof (induction n arbitrary: c sem s)
  case 0
  then show ?case
    by (simp add: sem_abs_def)
next
  case (Suc n)
  obtain t ts where q: "sem_waiting sem = t # ts"
    using Suc.prems(3) by (cases "sem_waiting sem") auto
  have zero: "sint (sem_count sem) = 0"
    using Suc.prems(1) q by (auto simp: sem_ok_def)
  have small: "sint (sem_count sem) < 2 ^ 63 - 1"
    unfolding zero by simp
  have t: "t \<noteq> 0"
    using Suc.prems(4) q by auto
  have room: "card (run_queue s) < 512"
    using Suc.prems(5) by simp
  obtain s1 where s1: "enqueue_thread t False s = (True, s1)" "queue_inv s1" "run_queue s1 = insert t (run_queue s)"
    by (rule enqueue_thread_adds [OF Suc.prems(2) t room])
  obtain c1 sem1 where sg: "sem_signal c k sem s = Inr (c1, sem1, s1)" "sem_ok sem1" "sem_abs sem1 = (sint (sem_count sem), ts)"
    using sem_signal_spec [OF Suc.prems(1) small, of c k s] q s1(1) by (auto simp: sem_abs_def)
  have w1: "sem_waiting sem1 = ts" "sint (sem_count sem1) = sint (sem_count sem)"
    using sg(3) by (simp_all add: sem_abs_def)
  have "card (run_queue s1) \<le> Suc (card (run_queue s))"
    unfolding s1(3) by (simp add: card_insert_le_m1 card.insert_remove card_Diff1_le)
  then have "\<exists>c' sem' s'. sem_signals c1 k n sem1 s1 = Inr (c', sem', s') \<and> sem_ok sem' \<and>
      sem_abs sem' = (sint (sem_count sem1), drop n (sem_waiting sem1)) \<and>
      queue_inv s' \<and> run_queue s' = run_queue s1 \<union> set (take n (sem_waiting sem1))"
    using Suc.prems(3-5) q w1 by (intro Suc.IH [OF sg(2) s1(2)]) auto
  then show ?case
    using sg(1) w1 q s1(3) by auto
qed

text \<open>
  C22: Wake-ups come in the order of arrival and none is lost while the run queue has room: after
  \<^verbatim>\<open>n\<close> signals exactly the \<^verbatim>\<open>n\<close> longest-waiting threads are back in the run queue, the others
  still wait in their order, and the count is untouched.
\<close>

theorem semaphore_fifo_wakeups:
  assumes "sem_ok sem" "queue_inv s" "n \<le> length (sem_waiting sem)" "0 \<notin> set (sem_waiting sem)"
    and "card (run_queue s) + n \<le> 512"
  shows "\<exists>c' sem' s'. sem_signals c k n sem s = Inr (c', sem', s') \<and> sem_ok sem' \<and>
           sem_abs sem' = (sint (sem_count sem), drop n (sem_waiting sem)) \<and>
           queue_inv s' \<and> run_queue s' = run_queue s \<union> set (take n (sem_waiting sem))"
  by (rule sem_signals_wake [OF assms])

text \<open>
  With a full run queue the wake-up is lost: the signal takes the thread off the wait queue, the
  scheduler refuses it, and the refusal is ignored.
\<close>

lemma sem_signal_loses_wakeup:
  assumes "sem_ok sem" "queue_inv s" "card (run_queue s) = 512" "sem_waiting sem = t # ts"
    and "t \<noteq> 0" "t \<notin> run_queue s"
  shows "\<exists>c' sem' s'. sem_signal c k sem s = Inr (c', sem', s') \<and> sem_abs sem' = (0, ts) \<and> t \<notin> run_queue s'"
proof -
  have zero: "sint (sem_count sem) = 0"
    using assms(1,4) by (auto simp: sem_ok_def)
  have small: "sint (sem_count sem) < 2 ^ 63 - 1"
    unfolding zero by simp
  have full: "\<not> card (run_queue s) < MAX_THREADS"
    using assms(3) by (simp add: MAX_THREADS_def)
  have "t \<notin> run_queue (snd (enqueue_thread t False s))"
    using enqueue_thread_other(2) [OF assms(2,5,6) full] assms(6) by (simp add: run_queue_def)
  moreover have "\<exists>c' sem'. sem_signal c k sem s = Inr (c', sem', snd (enqueue_thread t False s)) \<and> sem_abs sem' = (0, ts)"
    by (rule sem_signal_spec [OF assms(1) small, where c = c and k = k and s = s])
      (auto simp: sem_abs_def assms(4) zero)
  ultimately show ?thesis
    by blast
qed

section \<open>Instances\<close>

definition demo_sem :: "addr list \<Rightarrow> semaphore_t" where
  "demo_sem ts =
     \<lparr>sem_lock = LOCK_INITIALIZER None, sem_count = 0, waiters = ts @ replicate (64 - length ts) 0, wait_head = 0,
      wait_tail = of_nat (length ts)\<rparr>"

lemma demo_sem_ok:
  assumes "length ts < 64"
  shows "sem_ok (demo_sem ts)" "sem_waiting (demo_sem ts) = ts" "sem_count (demo_sem ts) = 0"
proof -
  have n: "unat (of_nat (length ts) :: u32) = length ts"
    using assms by (simp add: unat_of_nat take_bit_nat_eq_self)
  have "map (\<lambda>i. (ts @ replicate (64 - length ts) 0) ! (i mod 64)) [0..<length ts] = ts"
    using assms by (intro nth_equalityI) (simp_all add: nth_append)
  then have "ring_list (ts @ replicate (64 - length ts) 0) 0 (length ts) = ts"
    using assms by (simp add: ring_list_def ring_count_def)
  then show w: "sem_waiting (demo_sem ts) = ts"
    by (simp add: sem_waiting_def demo_sem_def n)
  show "sem_ok (demo_sem ts)" "sem_count (demo_sem ts) = 0"
    using assms w by (simp_all add: sem_ok_def sem_inv_def demo_sem_def SEM_MAX_WAITERS_def word_less_nat_alt n)
qed

theorem semaphore_refines_witness:
  "\<exists>c' sem' s'. sem_signal release_cpu 0 (demo_sem [0x3000]) demo_sched = Inr (c', sem', s') \<and> sem_abs sem' = (0, [])"
proof -
  note ok = demo_sem_ok [of "[0x3000]", simplified]
  have h: "sint (sem_count (demo_sem [0x3000])) < 2 ^ 63 - 1" "0 < length (local_cpus demo_sched)" "(0x1000 :: addr) \<noteq> 0"
    "lock_idle (t_yield_await (thread_at demo_sched 0x1000))"
    by (simp add: ok, simp add: demo_sched_def, simp, simp add: demo_threads demo_thread_def)
  show ?thesis
    using semaphore_refines [OF ok(1) h(1) demo_sched_inv h(2) demo_runs(1) h(3,4), of release_cpu]
    by (auto simp: sem_abs_def ok(2,3))
qed

theorem semaphore_fifo_wakeups_witness:
  "\<exists>c' sem' s'. sem_signals release_cpu 0 2 (demo_sem [0x3000, 0x4000, 0x5000]) demo_sched = Inr (c', sem', s') \<and>
     sem_abs sem' = (0, [0x5000]) \<and> run_queue s' = {0x1000, 0x2000, 0x3000, 0x4000}"
  using semaphore_fifo_wakeups [OF demo_sem_ok(1) demo_queue_inv(1), of "[0x3000, 0x4000, 0x5000]" 2 release_cpu 0]
    demo_sem_ok [of "[0x3000, 0x4000, 0x5000]"] demo_queue_inv(2)
  by (auto simp: insert_commute)

end
