(* ===== verification/NetWire.thy ===== *)
theory NetWire
  imports Prelude
begin

text \<open>
  The wire formats of the network stack: byte-order conversions (\<^verbatim>\<open>kernel/include/net/endian.h\<close>), the
  Internet checksum and the three header builders (\<^verbatim>\<open>kernel/src/net/network.c\<close>).

  A builder writes its header at a buffer and returns its length; here it returns the bytes written,
  in order.  The checksum runs over the bytes it is given, two at a time in host order, as the code does.
\<close>

lemma u8_less: "unat (a :: u8) < 256"
  using unsigned_less [of a, where 'a = nat] by simp

lemma u16_less: "unat (a :: u16) < 65536"
  using unsigned_less [of a, where 'a = nat] by simp

lemma u32_less: "unat (a :: u32) < 2 ^ 32"
  using unsigned_less [of a, where 'a = nat] by simp

section \<open>Byte order\<close>

definition ntohs :: "u16 \<Rightarrow> u16" where
  "ntohs netshort = drop_bit 8 netshort OR push_bit 8 netshort"

definition htons :: "u16 \<Rightarrow> u16" where
  "htons hostshort = drop_bit 8 hostshort OR push_bit 8 hostshort"

definition ntohl :: "u32 \<Rightarrow> u32" where
  "ntohl netlong =
     (drop_bit 24 netlong AND 0xFF) OR (drop_bit 8 netlong AND 0xFF00) OR
     (push_bit 8 netlong AND 0xFF0000) OR (push_bit 24 netlong AND 0xFF000000)"

definition htonl :: "u32 \<Rightarrow> u32" where
  "htonl hostlong =
     (drop_bit 24 hostlong AND 0xFF) OR (drop_bit 8 hostlong AND 0xFF00) OR
     (push_bit 8 hostlong AND 0xFF0000) OR (push_bit 24 hostlong AND 0xFF000000)"

definition ip4_to_bytes :: "u32 \<Rightarrow> u8 list" where
  "ip4_to_bytes ip =
     [ucast (drop_bit 24 ip AND 0xFF), ucast (drop_bit 16 ip AND 0xFF), ucast (drop_bit 8 ip AND 0xFF), ucast (ip AND 0xFF)]"

definition ip4_from_bytes :: "u8 list \<Rightarrow> u32" where
  "ip4_from_bytes ip =
     push_bit 24 (ucast (ip ! 0)) OR push_bit 16 (ucast (ip ! 1)) OR push_bit 8 (ucast (ip ! 2)) OR ucast (ip ! 3)"

section \<open>The Internet checksum\<close>

fun checksum_loop :: "u8 list \<Rightarrow> u32 \<Rightarrow> u32" where
  "checksum_loop (a # b # bs) acc = checksum_loop bs (acc + ucast (le_word [a, b] :: u16))"
| "checksum_loop [a] acc = acc + ucast a"
| "checksum_loop [] acc = acc"

lemma unat_drop_16: "unat (drop_bit 16 w) = unat (w :: u32) div 65536"
  by (simp add: drop_bit_eq_div unat_div)

lemma fold_smaller:
  assumes "drop_bit 16 w \<noteq> (0 :: u32)"
  shows "unat ((w AND 0xFFFF) + drop_bit 16 w) = unat w mod 65536 + unat w div 65536"
    and "unat w mod 65536 + unat w div 65536 < unat w"
proof -
  have lo: "unat (w AND 0xFFFF) = unat w mod 65536"
  proof -
    have "w AND 0xFFFF = take_bit 16 w" by (simp add: take_bit_eq_mask mask_eq_exp_minus_1)
    then have "unat (w AND 0xFFFF) = take_bit 16 (unat w)" by (simp only: unsigned_take_bit_eq)
    then show ?thesis by (simp add: take_bit_eq_mod)
  qed
  note hi = unat_drop_16 [of w]
  have "unat w < 2 ^ 32" by (rule u32_less)
  then have "unat w mod 65536 + unat w div 65536 < 2 ^ 32" by linarith
  then show "unat ((w AND 0xFFFF) + drop_bit 16 w) = unat w mod 65536 + unat w div 65536"
    using lo hi by (simp add: unat_word_ariths)
  have "0 < unat w div 65536" using assms hi by (metis unat_eq_0 neq0_conv)
  moreover have "unat w = unat w div 65536 * 65536 + unat w mod 65536" by simp
  ultimately show "unat w mod 65536 + unat w div 65536 < unat w" by linarith
qed

function checksum_fold :: "u32 \<Rightarrow> u32" where
  "checksum_fold acc = (if drop_bit 16 acc \<noteq> 0 then checksum_fold ((acc AND 0xFFFF) + drop_bit 16 acc) else acc)"
  by pat_completeness auto

termination checksum_fold
  by (relation "measure unat") (simp_all add: fold_smaller)

declare checksum_fold.simps [simp del]

definition net_checksum :: "u8 list \<Rightarrow> u16" where
  "net_checksum bs = ucast (NOT (checksum_fold (checksum_loop bs 0)))"

section \<open>Headers\<close>

abbreviation (input) ETH_HEADER_LEN :: u16 where "ETH_HEADER_LEN \<equiv> 14"
abbreviation (input) IPV4_HEADER_LEN :: u16 where "IPV4_HEADER_LEN \<equiv> 20"
abbreviation (input) UDP_HEADER_LEN :: u16 where "UDP_HEADER_LEN \<equiv> 8"

definition eth_build_header :: "u8 list \<Rightarrow> u8 list \<Rightarrow> u16 \<Rightarrow> u8 list" where
  "eth_build_header dest_mac src_mac ethertype =
     take 6 dest_mac @ take 6 src_mac @ [ucast (drop_bit 8 ethertype AND 0xFF), ucast (ethertype AND 0xFF)]"

definition ipv4_build_header :: "u8 list \<Rightarrow> u8 list \<Rightarrow> u8 \<Rightarrow> u16 \<Rightarrow> u8 \<Rightarrow> u8 list" where
  "ipv4_build_header src_ip dest_ip protocol payload_len ttl =
     (let total_len = IPV4_HEADER_LEN + payload_len;
          buf = [0x45, 0, ucast (drop_bit 8 total_len AND 0xFF), ucast (total_len AND 0xFF), 0, 0, 0x40, 0,
                 ttl, protocol, 0, 0] @ take 4 src_ip @ take 4 dest_ip;
          cksum = net_checksum (take 20 buf)
      in buf[10 := ucast (cksum AND 0xFF), 11 := ucast (drop_bit 8 cksum AND 0xFF)])"

definition udp_build_header :: "u16 \<Rightarrow> u16 \<Rightarrow> u16 \<Rightarrow> u8 list" where
  "udp_build_header src_port dst_port payload_len =
     le_bytes 2 (htons src_port) @ le_bytes 2 (htons dst_port) @ le_bytes 2 (htons (payload_len + UDP_HEADER_LEN)) @ [0, 0]"

section \<open>Byte order, properties\<close>

lemma swap16_bit:
  "bit (htons x) n \<longleftrightarrow> n < 16 \<and> bit x (if n < 8 then n + 8 else n - 8)"
  "ntohs x = htons x"
  by (cases "n < 8"; auto simp: ntohs_def htons_def bit_simps add.commute dest: bit_imp_le_length)
     (simp add: ntohs_def htons_def)

lemma ntohs_htons [simp]: "ntohs (htons x) = x" "htons (ntohs x) = x"
proof -
  have "htons (htons x) = x" by (rule bit_eqI) (auto simp: swap16_bit(1))
  then show "ntohs (htons x) = x" "htons (ntohs x) = x" by (simp_all add: swap16_bit(2))
qed

lemma swap32_bit:
  "bit (htonl x) n \<longleftrightarrow> n < 32 \<and> bit x (if n < 8 then n + 24 else if n < 16 then n + 8 else if n < 24 then n - 8 else n - 24)"
  "ntohl x = htonl x"
proof -
  have m: "(0xFF :: u32) = mask 8" "(0xFF00 :: u32) = push_bit 8 (mask 8)" "(0xFF0000 :: u32) = push_bit 16 (mask 8)"
    "(0xFF000000 :: u32) = push_bit 24 (mask 8)"
    by (simp_all add: mask_eq_exp_minus_1 push_bit_eq_mult)
  show "bit (htonl x) n \<longleftrightarrow> n < 32 \<and> bit x (if n < 8 then n + 24 else if n < 16 then n + 8 else if n < 24 then n - 8 else n - 24)"
    unfolding htonl_def m by (auto simp: bit_simps add.commute dest: bit_imp_le_length)
  show "ntohl x = htonl x" by (simp add: ntohl_def htonl_def)
qed

lemma htonl_htonl: "htonl (htonl x) = x"
  by (rule bit_eqI) (auto simp: swap32_bit)

lemma ntohl_htonl [simp]: "ntohl (htonl x) = x" "htonl (ntohl x) = x"
  by (simp_all add: swap32_bit(2) htonl_htonl)

lemma wire_u16: "le_bytes 2 (htons x) = [ucast (drop_bit 8 x), ucast x]"
proof -
  have "(ucast (htons x) :: u8) = ucast (drop_bit 8 x)" "(ucast (drop_bit 8 (htons x)) :: u8) = ucast x"
    by (rule bit_eqI, auto simp: htons_def bit_simps dest: bit_imp_le_length)+
  then show ?thesis by (simp add: numeral_2_eq_2)
qed

lemma byte_mask: "(ucast (x AND 0xFF) :: u8) = ucast (x :: 'a::len word)"
proof -
  have "(0xFF :: 'a word) = mask 8" by (simp add: mask_eq_exp_minus_1)
  then have "x AND 0xFF = take_bit 8 x" by (simp only: take_bit_eq_mask)
  then show ?thesis by (intro bit_eqI) (auto simp: bit_simps dest: bit_imp_le_length)
qed

lemma length_ip4_to_bytes [simp]: "length (ip4_to_bytes ip) = 4"
  by (simp add: ip4_to_bytes_def)

lemma ip4_from_to_bytes: "ip4_from_bytes (ip4_to_bytes ip) = ip"
proof (rule bit_eqI)
  fix n
  assume "possible_bit TYPE(u32) n"
  then consider "n < 8" | "8 \<le> n" "n < 16" | "16 \<le> n" "n < 24" | "24 \<le> n" "n < 32" by fastforce
  then show "bit (ip4_from_bytes (ip4_to_bytes ip)) n = bit ip n"
    unfolding ip4_from_bytes_def ip4_to_bytes_def byte_mask
    by cases (auto simp: bit_simps)
qed

lemma ip4_to_bytes_wire: "ip4_to_bytes (ntohl ip) = le_bytes 4 ip"
proof -
  have swap: "(ucast (drop_bit k (htonl ip)) :: u8) = ucast (drop_bit (24 - k) ip)" if "k \<in> {0, 8, 16, 24}" for k
    using that by (intro bit_eqI) (auto simp: bit_simps swap32_bit add.commute)
  have "(ucast (htonl ip) :: u8) = ucast (drop_bit 24 ip)" "(ucast (drop_bit 8 (htonl ip)) :: u8) = ucast (drop_bit 16 ip)"
    "(ucast (drop_bit 16 (htonl ip)) :: u8) = ucast (drop_bit 8 ip)" "(ucast (drop_bit 24 (htonl ip)) :: u8) = ucast ip"
    using swap [of 0] swap [of 8] swap [of 16] swap [of 24] by (simp_all only: insert_iff simp_thms) (simp_all add: drop_bit_eq_div)
  then show ?thesis unfolding ip4_to_bytes_def byte_mask by (simp add: swap32_bit(2) eval_nat_numeral drop_bit_drop_bit)
qed

section \<open>The checksum is the ones' complement sum of RFC 1071\<close>

text \<open>Reference: 16-bit words in network order, added with the carry brought round, then complemented.\<close>

fun be_words :: "u8 list \<Rightarrow> nat list" where
  "be_words (a # b # bs) = (256 * unat a + unat b) # be_words bs"
| "be_words [a] = [256 * unat a]"
| "be_words [] = []"

definition oc_add :: "nat \<Rightarrow> nat \<Rightarrow> nat" where
  "oc_add a b = (a + b) mod 65536 + (a + b) div 65536"

definition rfc1071_sum :: "u8 list \<Rightarrow> nat" where
  "rfc1071_sum bs = foldl oc_add 0 (be_words bs)"

definition rfc1071_checksum :: "u8 list \<Rightarrow> nat" where
  "rfc1071_checksum bs = 65535 - rfc1071_sum bs"

text \<open>A ones' complement sum is determined by its residue and by being zero or not.\<close>

definition oc_rep :: "nat \<Rightarrow> nat \<Rightarrow> bool" where
  "oc_rep x n \<longleftrightarrow> x \<le> 65535 \<and> x mod 65535 = n mod 65535 \<and> (x = 0 \<longleftrightarrow> n = 0)"

lemma oc_rep_unique: "oc_rep x n \<Longrightarrow> oc_rep y n \<Longrightarrow> x = y"
  unfolding oc_rep_def
  by (metis le_neq_implies_less mod_less mod_self neq0_conv)

lemma carry_residue: "((a :: nat) mod 65536 + a div 65536) mod 65535 = a mod 65535"
proof -
  have "a = (a mod 65536 + a div 65536) + 65535 * (a div 65536)"
    using div_mult_mod_eq [of a 65536] by linarith
  then show ?thesis by (metis mod_mult_self2)
qed

lemma oc_add_rep:
  assumes "oc_rep x n" and "b \<le> 65535"
  shows "oc_rep (oc_add x b) (n + b)"
proof -
  have le: "x + b \<le> 131070" using assms by (simp add: oc_rep_def)
  have "(x + b) mod 65536 + (x + b) div 65536 \<le> 65535"
  proof (cases "x + b < 65536")
    case False
    then have "(x + b) mod 65536 = x + b - 65536" "(x + b) div 65536 = 1"
      using le by (simp_all add: mod_if div_if)
    then show ?thesis using le by simp
  qed simp
  moreover have "(x + b) mod 65535 = (n + b) mod 65535" 
    using assms(1) mod_add_left_eq [of x 65535 b] mod_add_left_eq [of n 65535 b] by (simp add: oc_rep_def)
  moreover have "(x + b) mod 65536 + (x + b) div 65536 = 0 \<longleftrightarrow> x + b = 0"
    using div_mult_mod_eq [of "x + b" 65536] by auto
  ultimately show ?thesis using assms(1) by (simp add: oc_rep_def oc_add_def carry_residue)
qed

lemma be_words_bound: "w \<in> set (be_words bs) \<Longrightarrow> w \<le> 65535"
proof (induction bs rule: be_words.induct)
  case (1 a b bs)
  then show ?case using u8_less [of a] u8_less [of b] by auto
next
  case (2 a)
  then show ?case using u8_less [of a] by auto
qed simp

lemma foldl_oc_add: "oc_rep x n \<Longrightarrow> \<forall>w\<in>set ws. w \<le> 65535 \<Longrightarrow> oc_rep (foldl oc_add x ws) (n + sum_list ws)"
proof (induction ws arbitrary: x n)
  case (Cons w ws)
  have "oc_rep (oc_add x w) (n + w)" using Cons.prems by (intro oc_add_rep) simp_all
  then show ?case using Cons.IH [of "oc_add x w" "n + w"] Cons.prems(2) by (simp add: add.assoc)
qed simp

lemma rfc1071_sum_rep: "oc_rep (rfc1071_sum bs) (sum_list (be_words bs))"
proof -
  have "oc_rep 0 0" by (simp add: oc_rep_def)
  then show ?thesis unfolding rfc1071_sum_def using foldl_oc_add [of 0 0 "be_words bs"] be_words_bound by simp
qed

fun le_sum :: "u8 list \<Rightarrow> nat" where
  "le_sum (a # b # bs) = unat a + 256 * unat b + le_sum bs"
| "le_sum [a] = unat a"
| "le_sum [] = 0"

lemma le_sum_bound: "le_sum bs \<le> 65535 * length bs"
proof (induction bs rule: le_sum.induct)
  case (1 a b bs)
  then show ?case using u8_less [of a] u8_less [of b] by simp
next
  case (2 a)
  then show ?case using u8_less [of a] by simp
qed simp

lemma be_sum_le_sum: "sum_list (be_words bs) mod 65535 = 256 * le_sum bs mod 65535" "sum_list (be_words bs) = 0 \<longleftrightarrow> le_sum bs = 0"
proof (induction bs rule: le_sum.induct)
  case (1 a b bs)
  {
    case 1
    have "256 * le_sum (a # b # bs) = (256 * unat a + unat b + 256 * le_sum bs) + 65535 * unat b" by simp
    then have "256 * le_sum (a # b # bs) mod 65535 = (256 * unat a + unat b + 256 * le_sum bs) mod 65535" by (metis mod_mult_self2)
    also have "\<dots> = (256 * unat a + unat b + sum_list (be_words bs)) mod 65535" 
      using "1.IH"(1) mod_add_right_eq [of "256 * unat a + unat b" "256 * le_sum bs" 65535]
        mod_add_right_eq [of "256 * unat a + unat b" "sum_list (be_words bs)" 65535] by simp
    finally show ?case by simp
  next
    case 2
    then show ?case using "1.IH"(2) by auto
  }
qed auto

lemma unat_le_pair: "unat (le_word [a, b] :: u16) = unat a + 256 * unat b"
proof -
  have "(le_word [a, b] :: u16) = ucast a + push_bit 8 (ucast b)"
    by (simp, subst disjunctive_add) (auto simp: bit_simps dest: bit_imp_le_length)
  moreover have "unat (ucast a :: u16) = unat a" "unat (push_bit 8 (ucast b) :: u16) = 256 * unat b"
    using u8_less [of a] u8_less [of b]
    by (simp_all add: unsigned_ucast_eq push_bit_eq_mult take_bit_eq_mod unat_word_ariths)
  ultimately show ?thesis using u8_less [of a] u8_less [of b] by (simp add: unat_word_ariths)
qed

lemma unat_checksum_loop:
  "unat acc + le_sum bs < 2 ^ 32 \<Longrightarrow> unat (checksum_loop bs acc) = unat acc + le_sum bs"
proof (induction bs acc rule: checksum_loop.induct)
  case (1 a b bs acc)
  have "unat (ucast (le_word [a, b] :: u16) :: u32) = unat a + 256 * unat b"
    using unat_le_pair [of a b] u16_less [of "le_word [a, b]"] by (simp add: unsigned_ucast_eq take_bit_eq_mod del: le_word.simps)
  then have "unat (acc + ucast (le_word [a, b] :: u16)) = unat acc + unat a + 256 * unat b"
    using "1.prems" by (simp add: unat_word_ariths del: le_word.simps)
  then show ?case using 1 by (simp add: add.assoc del: le_word.simps)
next
  case (2 a acc)
  have "unat (ucast a :: u32) = unat a" using u8_less [of a] by (simp add: unsigned_ucast_eq take_bit_eq_mod)
  then show ?case using 2 by (simp add: unat_word_ariths)
qed simp

lemma checksum_fold_rep: "oc_rep (unat (checksum_fold acc)) (unat acc)"
proof (induction acc rule: checksum_fold.induct)
  case (1 acc)
  show ?case
  proof (cases "drop_bit 16 acc = 0")
    case True
    then have "unat acc div 65536 = 0" by (metis unat_0 unat_drop_16)
    then show ?thesis using True by (subst checksum_fold.simps) (auto simp: oc_rep_def div_eq_0_iff)
  next
    case False
    note f = fold_smaller [OF False]
    have "oc_rep (unat (checksum_fold acc)) (unat acc mod 65536 + unat acc div 65536)"
      using 1 False f(1) by (subst checksum_fold.simps) simp
    moreover have "unat acc mod 65536 + unat acc div 65536 = 0 \<longleftrightarrow> unat acc = 0" 
      using div_mult_mod_eq [of "unat acc" 65536] by auto
    ultimately show ?thesis by (simp add: oc_rep_def carry_residue)
  qed
qed

lemma unat_NOT16: "unat (NOT v :: u16) = 65535 - unat v"
proof -
  have "NOT v = - 1 - v" by (simp add: not_eq_complement)
  then show ?thesis using unat_sub [of v "- 1"] by (simp add: unsigned_minus_1_eq_mask mask_eq_exp_minus_1)
qed

lemma unat_htons: "unat (htons v) = 256 * (unat v mod 256) + unat v div 256"
proof -
  have v: "v = le_word [ucast v, ucast (drop_bit 8 v)]"
    using le_word_le_bytes [of 2 v] by (simp add: numeral_2_eq_2)
  have "htons v = le_word [ucast (drop_bit 8 v), ucast v]"
    using le_word_le_bytes [of 2 "htons v"] by (simp add: wire_u16)
  then have "unat (htons v) = unat (ucast (drop_bit 8 v) :: u8) + 256 * unat (ucast v :: u8)"
    by (simp only: unat_le_pair)
  moreover have "unat v = unat (ucast v :: u8) + 256 * unat (ucast (drop_bit 8 v) :: u8)"
    using v unat_le_pair by metis
  ultimately show ?thesis using u8_less [of "ucast v"] by simp
qed

lemma swap_residue: "(256 * (n mod 256) + n div 256) mod 65535 = 256 * n mod (65535 :: nat)"
proof -
  have "256 * n = (256 * (n mod 256) + n div 256) + 65535 * (n div 256)"
    using div_mult_mod_eq [of n 256] by linarith
  then show ?thesis by (metis mod_mult_self2)
qed

lemma net_checksum_complement:
  assumes "length bs < 65536"
  shows "unat (htons (net_checksum bs)) = 65535 - rfc1071_sum bs"
proof -
  define w where "w = checksum_fold (checksum_loop bs 0)"
  define v where "v = (ucast w :: u16)"
  have "le_sum bs < 2 ^ 32" using le_sum_bound [of bs] assms by simp
  then have "unat (checksum_loop bs 0) = le_sum bs" using unat_checksum_loop [of 0 bs] by simp
  then have w: "oc_rep (unat w) (le_sum bs)" using checksum_fold_rep [of "checksum_loop bs 0"] by (simp add: w_def)
  then have v: "unat v = unat w" by (simp add: v_def oc_rep_def unsigned_ucast_eq take_bit_eq_mod)
  have "net_checksum bs = NOT v"
    unfolding net_checksum_def v_def w_def [symmetric] by (rule bit_eqI) (auto simp: bit_simps)
  moreover have "htons (NOT v) = NOT (htons v)" by (rule bit_eqI) (auto simp: swap16_bit(1) bit_not_iff)
  ultimately have "unat (htons (net_checksum bs)) = 65535 - unat (htons v)" by (simp add: unat_NOT16)
  moreover have "oc_rep (unat (htons v)) (sum_list (be_words bs))"
  proof -
    have "unat (htons v) mod 65535 = 256 * le_sum bs mod 65535"
      using w mod_mult_right_eq [of 256 "unat w" 65535] mod_mult_right_eq [of 256 "le_sum bs" 65535]
      by (simp only: unat_htons swap_residue v oc_rep_def)
    moreover have "unat (htons v) = 0 \<longleftrightarrow> le_sum bs = 0"
    proof -
      have "256 * (unat w mod 256) + unat w div 256 = 0 \<longleftrightarrow> unat w = 0" using div_mult_mod_eq [of "unat w" 256] by auto
      then show ?thesis using w unfolding unat_htons v oc_rep_def by simp
    qed
    ultimately show ?thesis using u16_less [of "htons v"] be_sum_le_sum [of bs] unfolding oc_rep_def by simp
  qed
  then have "unat (htons v) = rfc1071_sum bs" by (rule oc_rep_unique [OF _ rfc1071_sum_rep])
  ultimately show ?thesis by simp
qed

text \<open>
  C23: The two checksum bytes, in the order in which the code stores them, are the RFC 1071 checksum in
  network order; the 32-bit accumulator does not overflow on any buffer whose length fits 16 bits.
\<close>

theorem checksum_is_rfc1071:
  assumes "length bs < 65536"
  shows "unat (ntohs (net_checksum bs)) = rfc1071_checksum bs"
  using net_checksum_complement [OF assms] by (simp add: swap16_bit(2) rfc1071_checksum_def)

theorem checksum_is_rfc1071_witness:
  "unat (ntohs (net_checksum [0x45, 0, 0, 0x54, 0x9B])) = rfc1071_checksum [0x45, 0, 0, 0x54, 0x9B] \<and>
   rfc1071_checksum [0x45, 0, 0, 0x54, 0x9B] = 0x1FAB"
  using checksum_is_rfc1071 [of "[0x45, 0, 0, 0x54, 0x9B]"] by (simp add: rfc1071_checksum_def rfc1071_sum_def oc_add_def)

lemma be_sum_update:
  assumes "even k" and "Suc k < length bs" and "bs ! k = 0" and "bs ! Suc k = 0"
  shows "sum_list (be_words (bs[k := a, Suc k := b])) = sum_list (be_words bs) + 256 * unat a + unat b"
  using assms
proof (induction bs arbitrary: k rule: be_words.induct)
  case (1 x y bs)
  show ?case
  proof (cases k)
    case (Suc j)
    then obtain i where i: "k = Suc (Suc i)" "even i" using "1.prems"(1) by (cases j) auto
    then show ?thesis using "1.IH" [of i] "1.prems" by simp
  qed (use 1 in simp)
qed simp_all

lemma checksum_inserted:
  assumes "even k" and "Suc k < length bs" and "bs ! k = 0" and "bs ! Suc k = 0" and "length bs < 65536"
  shows "rfc1071_sum (bs[k := ucast (net_checksum bs AND 0xFF), Suc k := ucast (drop_bit 8 (net_checksum bs) AND 0xFF)]) = 65535"
proof -
  let ?c = "net_checksum bs" and ?s = "rfc1071_sum bs" and ?n = "sum_list (be_words bs)"
  have "256 * unat (ucast ?c :: u8) + unat (ucast (drop_bit 8 ?c) :: u8) = unat (htons ?c)"
    using le_word_le_bytes [of 2 "htons ?c"] unat_le_pair [of "ucast (drop_bit 8 ?c)" "ucast ?c"] by (simp add: wire_u16)
  then have "sum_list (be_words (bs[k := ucast (?c AND 0xFF), Suc k := ucast (drop_bit 8 ?c AND 0xFF)])) = ?n + (65535 - ?s)"
    using be_sum_update [OF assms(1-4)] net_checksum_complement [OF assms(5)] by (simp add: byte_mask)
  moreover have "oc_rep 65535 (?n + (65535 - ?s))"
  proof -
    have s: "oc_rep ?s ?n" by (rule rfc1071_sum_rep)
    then have "(?n + (65535 - ?s)) mod 65535 = (?s + (65535 - ?s)) mod 65535"
      using mod_add_left_eq [of ?n 65535 "65535 - ?s"] mod_add_left_eq [of ?s 65535 "65535 - ?s"] by (simp add: oc_rep_def)
    moreover have "?n + (65535 - ?s) \<noteq> 0"
    proof (cases "?s = 65535")
      case True
      then show ?thesis using s unfolding oc_rep_def by (simp only:) simp
    next
      case False
      then show ?thesis using s unfolding oc_rep_def by linarith
    qed
    ultimately show ?thesis using s unfolding oc_rep_def by simp
  qed
  ultimately show ?thesis by (intro oc_rep_unique [OF rfc1071_sum_rep]) simp
qed

section \<open>Headers, properties\<close>

lemma length_ipv4_build_header [simp]:
  "length src = 4 \<Longrightarrow> length dst = 4 \<Longrightarrow> length (ipv4_build_header src dst proto len ttl) = 20"
  by (simp add: ipv4_build_header_def Let_def)

lemma length_eth_build_header [simp]:
  "length d = 6 \<Longrightarrow> length m = 6 \<Longrightarrow> length (eth_build_header d m t) = 14"
  by (simp add: eth_build_header_def)

lemma length_udp_build_header [simp]: "length (udp_build_header p q n) = 8"
  by (simp add: udp_build_header_def)

lemma ipv4_header_fields:
  assumes "length src = 4" and "length dst = 4"
  obtains c where "ipv4_build_header src dst proto len ttl =
    [0x45, 0, ucast (drop_bit 8 (20 + len)), ucast (20 + len), 0, 0, 0x40, 0, ttl, proto, ucast c, ucast (drop_bit 8 (c :: u16))] @ src @ dst"
  using assms by (simp add: ipv4_build_header_def Let_def byte_mask)

lemma ipv4_header_sum:
  assumes "length src = 4" and "length dst = 4"
  shows "rfc1071_sum (ipv4_build_header src dst proto len ttl) = 65535"
proof -
  define buf where "buf = [0x45, 0, ucast (drop_bit 8 (20 + len) AND 0xFF), ucast ((20 + len) AND 0xFF), 0, 0, 0x40, 0, ttl, proto, 0, 0 :: u8]
    @ take 4 src @ take 4 dst"
  have buf: "take 20 buf = buf" "length buf = 20" "buf ! 10 = 0" "buf ! Suc 10 = 0" using assms by (simp_all add: buf_def)
  have "ipv4_build_header src dst proto len ttl =
    buf[10 := ucast (net_checksum buf AND 0xFF), Suc 10 := ucast (drop_bit 8 (net_checksum buf) AND 0xFF)]"
    unfolding ipv4_build_header_def Let_def buf_def [symmetric] buf(1) by simp
  then show ?thesis using checksum_inserted [of 10 buf] buf by (simp only:) simp
qed

text \<open>
  C24: Every IPv4 header the stack builds is accepted by a receiver: its ones' complement sum, checksum
  included, is all ones; and it carries the fields it was asked to carry, at their offsets.
\<close>

theorem ipv4_header_verifies:
  assumes "length src = 4" and "length dst = 4"
  shows "rfc1071_sum (ipv4_build_header src dst proto len ttl) = 65535 \<and>
    (let h = ipv4_build_header src dst proto len ttl
     in length h = 20 \<and> h ! 0 = 0x45 \<and> ntohs (le_word (take 2 (drop 2 h))) = IPV4_HEADER_LEN + len \<and>
        h ! 8 = ttl \<and> h ! 9 = proto \<and> take 4 (drop 12 h) = src \<and> drop 16 h = dst)"
proof -
  have "le_word [ucast (drop_bit 8 (20 + len)), ucast (20 + len)] = htons (20 + len)"
    using le_word_le_bytes [of 2 "htons (20 + len)"] by (simp add: wire_u16)
  moreover obtain c where "ipv4_build_header src dst proto len ttl =
    [0x45, 0, ucast (drop_bit 8 (20 + len)), ucast (20 + len), 0, 0, 0x40, 0, ttl, proto, ucast c, ucast (drop_bit 8 (c :: u16))] @ src @ dst"
    using assms by (rule ipv4_header_fields)
  ultimately show ?thesis using assms by (intro conjI ipv4_header_sum) (simp_all add: Let_def del: le_word.simps)
qed

theorem ipv4_header_verifies_witness:
  "rfc1071_sum (ipv4_build_header [10, 0, 2, 15] [10, 0, 2, 2] 17 12 64) = 65535 \<and>
   drop 16 (ipv4_build_header [10, 0, 2, 15] [10, 0, 2, 2] 17 12 64) = [10, 0, 2, 2]"
  using ipv4_header_verifies [of "[10, 0, 2, 15]" "[10, 0, 2, 2]" 17 12 64] by (simp add: Let_def)

end
