(* ===== verification/NetRoute.thy ===== *)
theory NetRoute
  imports NetWire Tables Lock
begin

text \<open>
  The routing table of \<^verbatim>\<open>kernel/src/net/route.c\<close>: 32 entries under one lock, a lookup that takes the
  matching entry whose msk has the most bits.  A device is named by its address.
\<close>

section \<open>Definitions\<close>

definition ROUTE_TABLE_SIZE :: nat where "ROUTE_TABLE_SIZE = 32"

abbreviation (input) ROUTE_FLAG_UP :: u32 where "ROUTE_FLAG_UP \<equiv> 1"
abbreviation (input) ROUTE_FLAG_GATEWAY :: u32 where "ROUTE_FLAG_GATEWAY \<equiv> 2"

abbreviation (input) ENOENT :: int where "ENOENT \<equiv> 2"
abbreviation (input) ENOSPC :: int where "ENOSPC \<equiv> 28"

record route_entry_t =
  dest_network :: u32
  subnet_mask :: u32
  gateway :: u32
  rt_device :: addr
  metric :: u32
  rt_flags :: u32

record route_result_t =
  res_entry :: nat
  next_hop :: u32
  res_device :: addr

record route_state =
  route_table :: "route_entry_t list"
  route_table_lock :: lock_t

definition route_none :: route_entry_t where
  "route_none = \<lparr>dest_network = 0, subnet_mask = 0, gateway = 0, rt_device = 0, metric = 0, rt_flags = 0\<rparr>"

definition route_init :: "('z) route_state_scheme \<Rightarrow> ('z) route_state_scheme" where
  "route_init s = s\<lparr>route_table := replicate ROUTE_TABLE_SIZE route_none\<rparr>"

definition route_down :: "route_entry_t \<Rightarrow> bool" where
  "route_down e \<longleftrightarrow> rt_flags e AND ROUTE_FLAG_UP = 0"

text \<open>Take the first entry that is not up and fill it in.\<close>

definition route_fill :: "route_entry_t \<Rightarrow> ('z) route_state_scheme \<Rightarrow> nat option \<times> ('z) route_state_scheme" where
  "route_fill e s =
     (case first_index route_down (route_table s) of
        None \<Rightarrow> (None, s)
      | Some i \<Rightarrow> (Some i, s\<lparr>route_table := (route_table s)[i := e]\<rparr>))"

definition route_entry :: "u32 \<Rightarrow> u32 \<Rightarrow> u32 \<Rightarrow> addr \<Rightarrow> u32 \<Rightarrow> u32 \<Rightarrow> route_entry_t" where
  "route_entry dest msk gw device mtr flags =
     \<lparr>dest_network = dest, subnet_mask = msk, gateway = gw, rt_device = device, metric = mtr,
      rt_flags = flags OR ROUTE_FLAG_UP OR (if gw \<noteq> 0 then ROUTE_FLAG_GATEWAY else 0)\<rparr>"

definition route_add ::
  "cpu_ctx \<Rightarrow> u32 \<Rightarrow> u32 \<Rightarrow> u32 \<Rightarrow> addr \<Rightarrow> u32 \<Rightarrow> u32 \<Rightarrow> ('z) route_state_scheme \<Rightarrow> kstop + (int \<times> ('z) route_state_scheme)" where
  "route_add c dest msk gw device mtr flags s =
     bindR (lock_acquire c ''route_add'' (route_table_lock s)) (\<lambda>l.
       case route_fill (route_entry dest msk gw device mtr flags) s of
         (None, s1) \<Rightarrow> bindR (lock_release c l) (\<lambda>l'. Inr (- ENOSPC, s1\<lparr>route_table_lock := l'\<rparr>))
       | (Some i, s1) \<Rightarrow> bindR (lock_release c l) (\<lambda>l'. Inr (0, s1\<lparr>route_table_lock := l'\<rparr>)))"

definition route_remove :: "cpu_ctx \<Rightarrow> u32 \<Rightarrow> u32 \<Rightarrow> ('z) route_state_scheme \<Rightarrow> kstop + (int \<times> ('z) route_state_scheme)" where
  "route_remove c dest msk s =
     bindR (lock_acquire c ''route_remove'' (route_table_lock s)) (\<lambda>l.
       case first_index (\<lambda>e. subnet_mask e = msk \<and> dest_network e = dest) (route_table s) of
         Some i \<Rightarrow>
           (let e = route_table s ! i; s1 = s\<lparr>route_table := (route_table s)[i := e\<lparr>rt_flags := rt_flags e AND NOT ROUTE_FLAG_UP\<rparr>]\<rparr>
            in bindR (lock_release c l) (\<lambda>l'. Inr (0, s1\<lparr>route_table_lock := l'\<rparr>)))
       | None \<Rightarrow> bindR (lock_release c l) (\<lambda>l'. Inr (- ENOENT, s\<lparr>route_table_lock := l'\<rparr>)))"

text \<open>The number of set bits, as the compiler's population count gives it.\<close>

definition popcount :: "u32 \<Rightarrow> int" where
  "popcount w = int (length (filter (bit w) [0..<32]))"

fun route_scan :: "u32 \<Rightarrow> route_entry_t list \<Rightarrow> int \<Rightarrow> int \<times> int \<Rightarrow> int \<times> int" where
  "route_scan dest_ip [] i best = best"
| "route_scan dest_ip (e # es) i (best_match, best_weight) =
     route_scan dest_ip es (i + 1)
       (if rt_flags e AND ROUTE_FLAG_UP = 0 then (best_match, best_weight)
        else if dest_ip AND subnet_mask e = dest_network e
          then (if popcount (subnet_mask e) > best_weight then (i, popcount (subnet_mask e)) else (best_match, best_weight))
          else (best_match, best_weight))"

definition route_lookup ::
  "cpu_ctx \<Rightarrow> u32 \<Rightarrow> ('z) route_state_scheme \<Rightarrow> kstop + (route_result_t option \<times> ('z) route_state_scheme)" where
  "route_lookup c dest_ip s =
     bindR (lock_acquire c ''route_lookup'' (route_table_lock s)) (\<lambda>l.
       let best_match = fst (route_scan dest_ip (route_table s) 0 (- 1, - 1))
       in if best_match = - 1 then bindR (lock_release c l) (\<lambda>l'. Inr (None, s\<lparr>route_table_lock := l'\<rparr>))
          else
            (let e = route_table s ! nat best_match;
                 hop = (if rt_flags e AND ROUTE_FLAG_GATEWAY = 0 then dest_ip else gateway e)
             in bindR (lock_release c l) (\<lambda>l'.
                  Inr (Some \<lparr>res_entry = nat best_match, next_hop = hop, res_device = rt_device e\<rparr>, s\<lparr>route_table_lock := l'\<rparr>))))"

section \<open>Adding and removing\<close>

lemma route_entry_up: "\<not> route_down (route_entry dest msk gw device mtr flags)"
proof -
  have "bit (rt_flags (route_entry dest msk gw device mtr flags) AND 1) 0"
    by (simp add: route_entry_def bit_simps)
  then show ?thesis unfolding route_down_def by auto
qed

interpretation routes: slot_table route_table route_down route_fill
  by unfold_locales (auto simp: route_fill_def)

lemma route_add_spec:
  assumes "lock_idle (route_table_lock s)"
  shows "\<exists>l. lock_idle l \<and> route_add c dest msk gw device mtr flags s =
    Inr (case first_index route_down (route_table s) of
           None \<Rightarrow> (- ENOSPC, s\<lparr>route_table_lock := l\<rparr>)
         | Some i \<Rightarrow> (0, s\<lparr>route_table := (route_table s)[i := route_entry dest msk gw device mtr flags], route_table_lock := l\<rparr>))"
proof -
  obtain l1 l2 where "lock_acquire c ''route_add'' (route_table_lock s) = Inr l1" "lock_release c l1 = Inr l2" "lock_idle l2"
    using spinlock.section_runs [OF assms(1)] by metis
  then show ?thesis unfolding route_add_def route_fill_def by (intro exI [of _ l2]) (auto split: option.splits)
qed

section \<open>Lookup\<close>

definition route_matches :: "u32 \<Rightarrow> route_entry_t \<Rightarrow> bool" where
  "route_matches dest_ip e \<longleftrightarrow> \<not> route_down e \<and> dest_ip AND subnet_mask e = dest_network e"

text \<open>\<open>i\<close> is the first of the matching entries with the longest msk.\<close>

definition best_route :: "u32 \<Rightarrow> route_entry_t list \<Rightarrow> nat \<Rightarrow> bool" where
  "best_route dest_ip es i \<longleftrightarrow> i < length es \<and> route_matches dest_ip (es ! i) \<and>
     (\<forall>j<length es. route_matches dest_ip (es ! j) \<longrightarrow>
        popcount (subnet_mask (es ! j)) \<le> popcount (subnet_mask (es ! i)) \<and>
        (popcount (subnet_mask (es ! j)) = popcount (subnet_mask (es ! i)) \<longrightarrow> i \<le> j))"

lemma popcount_nonneg: "0 \<le> popcount w"
  by (simp add: popcount_def)

text \<open>What the scan knows after the entries \<open>es\<close>.\<close>

definition scanned :: "u32 \<Rightarrow> route_entry_t list \<Rightarrow> int \<times> int \<Rightarrow> bool" where
  "scanned dest_ip es best \<longleftrightarrow>
     best = (- 1, - 1) \<and> (\<forall>e\<in>set es. \<not> route_matches dest_ip e) \<or>
     (\<exists>i. best = (int i, popcount (subnet_mask (es ! i))) \<and> best_route dest_ip es i)"

lemma scanned_step:
  assumes "scanned dest_ip es (b, w)"
  shows "scanned dest_ip (es @ [e])
    (if route_matches dest_ip e \<and> popcount (subnet_mask e) > w then (int (length es), popcount (subnet_mask e)) else (b, w))"
proof (cases "route_matches dest_ip e \<and> popcount (subnet_mask e) > w")
  case True
  have "best_route dest_ip (es @ [e]) (length es)"
    unfolding best_route_def
  proof (intro conjI allI impI)
    fix j
    assume j: "j < length (es @ [e])" "route_matches dest_ip ((es @ [e]) ! j)"
    have below: "popcount (subnet_mask (es ! j)) \<le> w" if "j < length es"
      using assms j that unfolding scanned_def best_route_def by (auto simp: nth_append)
    then show "popcount (subnet_mask ((es @ [e]) ! j)) \<le> popcount (subnet_mask ((es @ [e]) ! length es))"
      using True j(1) by (cases "j < length es") (auto simp: nth_append less_Suc_eq)
    show "length es \<le> j" if "popcount (subnet_mask ((es @ [e]) ! j)) = popcount (subnet_mask ((es @ [e]) ! length es))"
      using below True that j(1) by (cases "j < length es") (auto simp: nth_append)
  qed (use True in simp_all)
  then show ?thesis using True by (auto simp: scanned_def)
next
  case False
  from assms consider "b = - 1" "w = - 1" "\<forall>e\<in>set es. \<not> route_matches dest_ip e" |
    i where "b = int i" "w = popcount (subnet_mask (es ! i))" "best_route dest_ip es i"
    unfolding scanned_def by blast
  then show ?thesis
  proof cases
    case 1
    then have "\<not> route_matches dest_ip e" using False popcount_nonneg [of "subnet_mask e"] by simp
    then show ?thesis using 1 by (simp add: scanned_def)
  next
    case 2
    then have i: "i < length es" by (simp add: best_route_def)
    have "best_route dest_ip (es @ [e]) i"
      unfolding best_route_def
    proof (intro conjI allI impI)
      fix j
      assume j: "j < length (es @ [e])" "route_matches dest_ip ((es @ [e]) ! j)"
      show "popcount (subnet_mask ((es @ [e]) ! j)) \<le> popcount (subnet_mask ((es @ [e]) ! i))"
        using 2 False j i by (cases "j < length es") (auto simp: nth_append best_route_def less_Suc_eq)
      show "i \<le> j" if "popcount (subnet_mask ((es @ [e]) ! j)) = popcount (subnet_mask ((es @ [e]) ! i))"
        using 2 j i that by (cases "j < length es") (auto simp: nth_append best_route_def)
    qed (use 2 in \<open>auto simp: best_route_def nth_append\<close>)
    then show ?thesis using 2(1,2) i False unfolding scanned_def by (auto simp: nth_append)
  qed
qed

lemma route_scan_scanned:
  "scanned dest_ip ds best \<Longrightarrow> scanned dest_ip (ds @ es) (route_scan dest_ip es (int (length ds)) best)"
proof (induction es arbitrary: ds best)
  case (Cons e es)
  obtain b w where best: "best = (b, w)" by (cases best)
  have i: "int (length ds) + 1 = int (length (ds @ [e]))" by simp
  show ?case
    using Cons.IH [of "ds @ [e]"] scanned_step [of dest_ip ds b w e] Cons.prems
    unfolding best route_scan.simps i route_matches_def route_down_def
    by (cases "rt_flags e AND ROUTE_FLAG_UP = 0"; cases "dest_ip AND subnet_mask e = dest_network e";
        cases "popcount (subnet_mask e) > w") simp_all
qed simp

lemma route_scan_result: "scanned dest_ip es (route_scan dest_ip es 0 (- 1, - 1))"
  using route_scan_scanned [of dest_ip "[]" "(- 1, - 1)" es] by (simp add: scanned_def)

lemma route_lookup_spec:
  assumes "lock_idle (route_table_lock s)"
  shows "\<exists>l r. lock_idle l \<and> route_lookup c dest_ip s = Inr (r, s\<lparr>route_table_lock := l\<rparr>) \<and>
    (case r of
       None \<Rightarrow> \<forall>e\<in>set (route_table s). \<not> route_matches dest_ip e
     | Some a \<Rightarrow> best_route dest_ip (route_table s) (res_entry a) \<and>
         (let e = route_table s ! res_entry a
          in res_device a = rt_device e \<and> next_hop a = (if rt_flags e AND ROUTE_FLAG_GATEWAY = 0 then dest_ip else gateway e)))"
proof -
  obtain l1 l2 where l: "lock_acquire c ''route_lookup'' (route_table_lock s) = Inr l1" "lock_release c l1 = Inr l2" "lock_idle l2"
    using spinlock.section_runs [OF assms] by metis
  show ?thesis using route_scan_result [of dest_ip "route_table s"] unfolding scanned_def
  proof (elim disjE exE conjE)
    assume "route_scan dest_ip (route_table s) 0 (- 1, - 1) = (- 1, - 1)" "\<forall>e\<in>set (route_table s). \<not> route_matches dest_ip e"
    then show ?thesis using l by (intro exI [of _ l2] exI [of _ None]) (simp add: route_lookup_def)
  next
    fix i
    assume "route_scan dest_ip (route_table s) 0 (- 1, - 1) = (int i, popcount (subnet_mask (route_table s ! i)))"
      "best_route dest_ip (route_table s) i"
    then show ?thesis using l
      by (intro exI [of _ l2] exI [of _ "Some \<lparr>res_entry = i, next_hop = _, res_device = _\<rparr>"])
        (simp add: route_lookup_def Let_def)
  qed
qed


text \<open>The table the boot configuration installs, in wire order: 10.0.2.0/24 on link, the rest by 10.0.2.2.\<close>

definition qemu_routes :: "addr \<Rightarrow> route_state" where
  "qemu_routes device =
     \<lparr>route_table = [route_entry 0x0002000A 0x00FFFFFF 0 device 0 1, route_entry 0 0 0x0202000A device 100 3],
      route_table_lock = LOCK_INITIALIZER (Some ''route_table'')\<rparr>"


section \<open>Where the table disagrees with its comments\<close>

text \<open>Equal masks: the lower slot wins, whatever the metrics.\<close>

lemma route_lookup_ignores_metric:
  assumes "lock_idle l"
  shows "\<exists>l'. route_lookup c 0x0902000A
      \<lparr>route_table = [route_entry 0x0002000A 0x00FFFFFF 0 0x5000 100 1, route_entry 0x0002000A 0x00FFFFFF 0 0x6000 1 1], route_table_lock = l\<rparr> =
    Inr (Some \<lparr>res_entry = 0, next_hop = 0x0902000A, res_device = 0x5000\<rparr>,
      \<lparr>route_table = [route_entry 0x0002000A 0x00FFFFFF 0 0x5000 100 1, route_entry 0x0002000A 0x00FFFFFF 0 0x6000 1 1], route_table_lock = l'\<rparr>)"
proof -
  obtain l1 l2 where "lock_acquire c ''route_lookup'' l = Inr l1" "lock_release c l1 = Inr l2"
    using spinlock.section_runs [OF assms] by metis
  then show ?thesis by (simp add: route_lookup_def route_entry_def Let_def popcount_nonneg less_le_trans [of "- 1" 0])
qed

text \<open>
  Removal also takes an entry that is already down: with the same network in two slots, the second
  removal reports success and leaves the other route active.
\<close>

lemma route_remove_misses_active:
  assumes "lock_idle l" and "\<not> route_down e" and "dest_network e = d" and "subnet_mask e = m"
  shows "\<exists>l'. route_remove c d m \<lparr>route_table = [route_none\<lparr>dest_network := d, subnet_mask := m\<rparr>, e], route_table_lock = l\<rparr> =
    Inr (0, \<lparr>route_table = [route_none\<lparr>dest_network := d, subnet_mask := m\<rparr>, e], route_table_lock = l'\<rparr>)"
proof -
  obtain l1 l2 where "lock_acquire c ''route_remove'' l = Inr l1" "lock_release c l1 = Inr l2"
    using spinlock.section_runs [OF assms(1)] by metis
  moreover have "first_index (\<lambda>e. subnet_mask e = m \<and> dest_network e = d) [route_none\<lparr>dest_network := d, subnet_mask := m\<rparr>, e] = Some 0"
    by (simp add: first_index_Some)
  ultimately show ?thesis by (simp add: route_remove_def Let_def route_none_def)
qed

end
