(* ===== verification/HeapUse.thy ===== *)
theory HeapUse
  imports Malloc
begin

text \<open>
  The kernel heap as its clients use it.  The locale \<^verbatim>\<open>allocator\<close> states the contract of \<^verbatim>\<open>malloc\<close> and
  \<^verbatim>\<open>free\<close> over the set of live blocks: a new block is fresh, zeroed and apart from the others, freeing or
  writing one block leaves the contents of the others alone.  The client lemmas are proved from the
  contract once; the interpretation at the end discharges it for the heap of \<^verbatim>\<open>kernel/src/mem/malloc.c\<close>.
\<close>

lemma offset_range:
  fixes p :: addr
  assumes "i < 2 ^ 48" and "off < 2 ^ 48" and "n < 2 ^ 48"
  shows "in_range (p + of_nat off) n (p + of_nat i) \<longleftrightarrow> off \<le> i \<and> i < off + n"
proof (cases "off \<le> i")
  case True
  then have "p + of_nat i - (p + of_nat off) = (of_nat (i - off) :: addr)" by (simp add: of_nat_diff)
  moreover have "unat (of_nat (i - off) :: addr) = i - off" using assms(1) by (intro unat_of_nat_u64) simp
  ultimately have "unat (p + of_nat i - (p + of_nat off)) = i - off" by (simp only:)
  then show ?thesis using True unfolding in_range_def by auto
next
  case False
  have "p + of_nat i - (p + of_nat off) = (- of_nat (off - i) :: addr)" using False by (simp add: of_nat_diff)
  moreover have "unat (- of_nat (off - i) :: addr) = 2 ^ 64 - (off - i)"
  proof -
    define d where "d = off - i"
    have d: "0 < d" "d \<le> 2 ^ 64" using False assms(2) by (simp_all add: d_def)
    have "(of_nat (2 ^ 64) :: addr) = 0" by simp
    then have "(- of_nat d :: addr) = of_nat (2 ^ 64 - d)" using of_nat_diff [OF d(2), where 'a = addr] by (simp only:) simp
    moreover have "unat (of_nat (2 ^ 64 - d) :: addr) = 2 ^ 64 - d" using d(1) by (intro unat_of_nat_u64) simp
    ultimately show ?thesis unfolding d_def [symmetric] by (simp only:)
  qed
  ultimately have "unat (p + of_nat i - (p + of_nat off)) = 2 ^ 64 - (off - i)" by (simp only:)
  then show ?thesis using False assms unfolding in_range_def by simp
qed

locale allocator =
  fixes has :: "'h \<Rightarrow> (addr \<times> nat) set \<Rightarrow> bool"
    and alloc :: "u64 \<Rightarrow> 'h \<Rightarrow> kstop + (addr \<times> 'h)"
    and release :: "addr \<Rightarrow> 'h \<Rightarrow> kstop + 'h"
    and contents :: "'h \<Rightarrow> memory"
    and put :: "addr \<Rightarrow> u8 list \<Rightarrow> 'h \<Rightarrow> 'h"
  assumes alloc_stops: "has h L \<Longrightarrow> unat n < 2 ^ 63 \<Longrightarrow> alloc n h = Inl e \<Longrightarrow> e = Panic ''Kernel OOM''"
    and alloc_fresh: "has h L \<Longrightarrow> unat n < 2 ^ 63 \<Longrightarrow> alloc n h = Inr (p, h') \<Longrightarrow>
      \<exists>m\<ge>unat n. p \<noteq> 0 \<and> has h' (insert (p, m) L) \<and> (\<forall>x. in_range p m x \<longrightarrow> contents h' x = 0) \<and>
        (\<forall>(q, k)\<in>L. disjoint_regions p m q k \<and> (\<forall>x. in_range q k x \<longrightarrow> contents h' x = contents h x))"
    and release_live: "has h L \<Longrightarrow> (p, m) \<in> L \<Longrightarrow>
      \<exists>h'. release p h = Inr h' \<and> has h' (L - {(p, m)}) \<and>
        (\<forall>(q, k)\<in>L - {(p, m)}. \<forall>x. in_range q k x \<longrightarrow> contents h' x = contents h x)"
    and put_live: "has h L \<Longrightarrow> (p, m) \<in> L \<Longrightarrow> (\<And>x. in_range a (length bs) x \<Longrightarrow> in_range p m x) \<Longrightarrow>
      length bs \<le> 2 ^ 63 \<Longrightarrow> has (put a bs h) L"
    and put_contents: "contents (put a bs h) = store_bytes (contents h) a bs"
    and blocks_apart: "has h L \<Longrightarrow> (p, m) \<in> L \<Longrightarrow> (q, k) \<in> L \<Longrightarrow> (p, m) \<noteq> (q, k) \<Longrightarrow> disjoint_regions p m q k"
    and live_size: "has h L \<Longrightarrow> (p, m) \<in> L \<Longrightarrow> 0 < m \<and> m < 2 ^ 48"
begin

text \<open>The contents of a block, and a write of a prefix of it.\<close>

abbreviation block_bytes :: "'h \<Rightarrow> addr \<Rightarrow> nat \<Rightarrow> u8 list" where
  "block_bytes h p n \<equiv> load_bytes (contents h) p n"

lemma block_bytes_cong:
  assumes "\<And>x. in_range p m x \<Longrightarrow> contents h' x = contents h x" and "n \<le> m"
  shows "block_bytes h' p n = block_bytes h p n"
proof (rule load_bytes_cong)
  fix i
  assume "i < n"
  then have "in_range p m (p + of_nat i)"
    using assms(2) unat_of_nat [of i, where 'a = 64] mod_less_eq_dividend [of i "2 ^ 64"] by (simp add: in_range_def)
  then show "contents h' (p + of_nat i) = contents h (p + of_nat i)" by (rule assms(1))
qed

lemma alloc_keeps_blocks:
  assumes "has h L" and "unat n < 2 ^ 63" and "alloc n h = Inr (p, h')" and "(q, k) \<in> L" and "j \<le> k"
  shows "block_bytes h' q j = block_bytes h q j"
  using alloc_fresh [OF assms(1-3)] assms(4,5) by (intro block_bytes_cong [of q k]) auto

lemma put_prefix:
  assumes "has h L" and "(p, m) \<in> L" and "length bs \<le> m"
  shows "has (put p bs h) L" and "block_bytes (put p bs h) p (length bs) = bs"
    and "length bs \<le> n \<Longrightarrow> n \<le> m \<Longrightarrow> block_bytes (put p bs h) p n = bs @ drop (length bs) (block_bytes h p n)"
    and "(q, k) \<in> L \<Longrightarrow> (q, k) \<noteq> (p, m) \<Longrightarrow> j \<le> k \<Longrightarrow> block_bytes (put p bs h) q j = block_bytes h q j"
proof -
  have sz: "m < 2 ^ 48" using live_size assms by blast
  then have len: "length bs \<le> 2 ^ 63" "length bs \<le> 2 ^ 64" using assms(3) by simp_all
  show "has (put p bs h) L"
    using assms len(1) by (intro put_live [of h L p m]) (auto simp: in_range_def)
  show "block_bytes (put p bs h) p (length bs) = bs"
    using load_store_bytes_same [OF len(2)] by (simp add: put_contents)
  show "block_bytes (put p bs h) p n = bs @ drop (length bs) (block_bytes h p n)" if n: "length bs \<le> n" "n \<le> m"
  proof (rule nth_equalityI)
    fix i
    assume "i < length (block_bytes (put p bs h) p n)"
    then have i: "i < n" by simp
    then have "unat (of_nat i :: addr) = i" using n(2) sz by (simp add: unat_of_nat)
    then show "block_bytes (put p bs h) p n ! i = (bs @ drop (length bs) (block_bytes h p n)) ! i"
      using i n by (simp add: put_contents load_bytes_def store_bytes_apply [OF len(2)] nth_append)
  qed (use n in simp)
  show "block_bytes (put p bs h) q j = block_bytes h q j" if q: "(q, k) \<in> L" "(q, k) \<noteq> (p, m)" "j \<le> k"
  proof (rule block_bytes_cong [OF _ q(3)])
    fix x
    assume "in_range q k x"
    then have "\<not> in_range p m x" using blocks_apart [OF assms(1,2) q(1)] q(2) unfolding disjoint_regions_def by blast
    then have "\<not> in_range p (length bs) x" using assms(3) by (simp add: in_range_def)
    then show "contents (put p bs h) x = contents h x" using store_bytes_outside [OF len(2)] by (simp add: put_contents)
  qed
qed

text \<open>A write at an offset of a block.\<close>

lemma inside_block:
  assumes "has h L" and "(p, m) \<in> L" and "off + n \<le> m" and "in_range (p + of_nat off) n x"
  shows "in_range p m x"
proof -
  let ?j = "unat (x - (p + of_nat off))"
  have "x = p + of_nat (off + ?j)" by simp
  moreover have "off + ?j < m" using assms(3,4) by (simp add: in_range_def)
  ultimately show ?thesis using offset_range [of "off + ?j" 0 m p] live_size [OF assms(1,2)] by simp
qed

lemma put_inside:
  assumes "has h L" and "(p, m) \<in> L" and "off + length bs \<le> m"
  shows "has (put (p + of_nat off) bs h) L" and "block_bytes (put (p + of_nat off) bs h) (p + of_nat off) (length bs) = bs"
    and "off' + n \<le> m \<Longrightarrow> off' + n \<le> off \<or> off + length bs \<le> off' \<Longrightarrow>
      block_bytes (put (p + of_nat off) bs h) (p + of_nat off') n = block_bytes h (p + of_nat off') n"
    and "(q, k) \<in> L \<Longrightarrow> (q, k) \<noteq> (p, m) \<Longrightarrow> j \<le> k \<Longrightarrow> block_bytes (put (p + of_nat off) bs h) q j = block_bytes h q j"
proof -
  have sz: "m < 2 ^ 48" using live_size assms by blast
  then have len: "length bs \<le> 2 ^ 63" "length bs \<le> 2 ^ 64" "length bs < 2 ^ 48" "off < 2 ^ 48" using assms(2,3) live_size [OF assms(1,2)] by simp_all
  note inside = inside_block [OF assms]
  show "has (put (p + of_nat off) bs h) L" using assms len(1) inside by (intro put_live [of h L p m]) auto
  show "block_bytes (put (p + of_nat off) bs h) (p + of_nat off) (length bs) = bs"
    using load_store_bytes_same [OF len(2)] by (simp add: put_contents)
  show "block_bytes (put (p + of_nat off) bs h) (p + of_nat off') n = block_bytes h (p + of_nat off') n"
    if n: "off' + n \<le> m" "off' + n \<le> off \<or> off + length bs \<le> off'"
  proof (rule load_bytes_cong)
    fix i
    assume i: "i < n"
    have "\<not> in_range (p + of_nat off) (length bs) (p + of_nat (off' + i))"
      using offset_range [of "off' + i" off "length bs" p] n i sz len by auto
    then show "contents (put (p + of_nat off) bs h) (p + of_nat off' + of_nat i) = contents h (p + of_nat off' + of_nat i)"
      using store_bytes_outside [OF len(2)] by (simp add: put_contents add.assoc)
  qed
  show "block_bytes (put (p + of_nat off) bs h) q j = block_bytes h q j" if q: "(q, k) \<in> L" "(q, k) \<noteq> (p, m)" "j \<le> k"
  proof (rule block_bytes_cong [OF _ q(3)])
    fix x
    assume "in_range q k x"
    then have "\<not> in_range p m x" using blocks_apart [OF assms(1,2) q(1)] q(2) unfolding disjoint_regions_def by blast
    then show "contents (put (p + of_nat off) bs h) x = contents h x"
      using store_bytes_outside [OF len(2)] inside by (simp add: put_contents) blast
  qed
qed

lemma release_keeps_blocks:
  assumes "has h L" and "(p, m) \<in> L" and "release p h = Inr h'"
  shows "has h' (L - {(p, m)})"
    and "(q, k) \<in> L \<Longrightarrow> (q, k) \<noteq> (p, m) \<Longrightarrow> j \<le> k \<Longrightarrow> block_bytes h' q j = block_bytes h q j"
proof -
  have r: "has h' (L - {(p, m)})" "\<forall>(q, k)\<in>L - {(p, m)}. \<forall>x. in_range q k x \<longrightarrow> contents h' x = contents h x"
    using release_live [OF assms(1,2)] assms(3) by auto
  show "has h' (L - {(p, m)})" by (rule r(1))
  show "block_bytes h' q j = block_bytes h q j" if "(q, k) \<in> L" "(q, k) \<noteq> (p, m)" "j \<le> k"
    using r(2) that by (intro block_bytes_cong [of q k]) auto
qed

lemma live_unique:
  assumes "has h L" and "(p, m) \<in> L" and "(p, k) \<in> L"
  shows "m = k"
proof (rule ccontr)
  assume "m \<noteq> k"
  then have "disjoint_regions p m p k" using blocks_apart assms by blast
  moreover have "in_range p m p" "in_range p k p" using live_size assms by (simp_all add: in_range_def)
  ultimately show False by (auto simp: disjoint_regions_def)
qed

end

section \<open>The kernel heap keeps the contract\<close>

definition heap_has :: "heap_state \<Rightarrow> (addr \<times> nat) set \<Rightarrow> bool" where
  "heap_has h L \<longleftrightarrow> (\<exists>G F B. heap_inv h G F B \<and> L = heap_live G F B)"

definition heap_put :: "addr \<Rightarrow> u8 list \<Rightarrow> heap_state \<Rightarrow> heap_state" where
  "heap_put a bs h = h\<lparr>mem := store_bytes (mem h) a bs\<rparr>"

lemma heap_live_size:
  assumes "heap_inv s G F B" and "(p, m) \<in> heap_live G F B"
  shows "0 < m \<and> m < 2 ^ 48"
  using assms
proof (cases rule: heap_live_cases)
  case (slab i)
  then show ?thesis using ent_values [of i] by auto
next
  case (big f n)
  then have "big_ok s f n" using heap_invD(7) [OF assms(1)] by blast
  then show ?thesis using big heap_invD(5) [OF assms(1)] by (auto simp: big_ok_def)
qed

interpretation kheap: allocator heap_has "malloc c" "free c" mem heap_put for c
proof
  fix h :: heap_state and L n e p h' m q k a bs
  show "e = Panic ''Kernel OOM''" if "heap_has h L" "unat n < 2 ^ 63" "malloc c n h = Inl e"
    using that malloc_spec [where c = c and len = n] by (fastforce simp: heap_has_def)
  show "\<exists>m\<ge>unat n. p \<noteq> 0 \<and> heap_has h' (insert (p, m) L) \<and> (\<forall>x. in_range p m x \<longrightarrow> mem h' x = 0) \<and>
      (\<forall>(q, k)\<in>L. disjoint_regions p m q k \<and> (\<forall>x. in_range q k x \<longrightarrow> mem h' x = mem h x))"
    if pre: "heap_has h L" "unat n < 2 ^ 63" "malloc c n h = Inr (p, h')"
  proof -
    obtain G F B where inv: "heap_inv h G F B" "L = heap_live G F B" using pre(1) by (auto simp: heap_has_def)
    obtain G' F' B' where r: "heap_inv h' G' F' B'" "heap_extends h (heap_live G F B) (unat n) p h' (heap_live G' F' B')"
      using malloc_spec [OF inv(1) pre(2), of c] pre(3) by auto
    obtain m where m: "unat n \<le> m" "heap_live G' F' B' = insert (p, m) L" "p \<noteq> 0" "\<forall>x. in_range p m x \<longrightarrow> mem h' x = 0"
      "\<forall>(q, k)\<in>L. disjoint_regions p m q k \<and> (\<forall>x. in_range q k x \<longrightarrow> mem h' x = mem h x)"
      using r(2) unfolding heap_extends_def inv(2) [symmetric] by blast
    have "heap_has h' (insert (p, m) L)" using r(1) m(2) unfolding heap_has_def by metis
    then show ?thesis using m(1,3,4,5) by blast
  qed
  show "\<exists>h'. free c p h = Inr h' \<and> heap_has h' (L - {(p, m)}) \<and>
      (\<forall>(q, k)\<in>L - {(p, m)}. \<forall>x. in_range q k x \<longrightarrow> mem h' x = mem h x)"
    if pre: "heap_has h L" "(p, m) \<in> L"
  proof -
    obtain G F B where inv: "heap_inv h G F B" "L = heap_live G F B" using pre(1) by (auto simp: heap_has_def)
    obtain h' F' B' where r: "free c p h = Inr h'" "heap_inv h' G F' B'" "heap_live G F' B' = L - {(p, m)}"
      "\<forall>(q, k)\<in>L - {(p, m)}. \<forall>x. in_range q k x \<longrightarrow> mem h' x = mem h x"
      using free_spec [OF inv(1), of p m c] pre(2) inv(2) by blast
    have "heap_has h' (L - {(p, m)})" using r(2,3) unfolding heap_has_def by metis
    then show ?thesis using r(1,4) by blast
  qed
  show "heap_has (heap_put a bs h) L"
    if pre: "heap_has h L" "(p, m) \<in> L" "\<And>x. in_range a (length bs) x \<Longrightarrow> in_range p m x" "length bs \<le> 2 ^ 63"
  proof -
    obtain G F B where inv: "heap_inv h G F B" "L = heap_live G F B" using pre(1) by (auto simp: heap_has_def)
    have "heap_inv (heap_put a bs h) G F B"
    proof (rule heap_write [OF inv(1)])
      show "(p, m) \<in> heap_live G F B" using pre(2) inv(2) by simp
      show "mem (heap_put a bs h) x = mem h x" if "\<not> in_range p m x" for x
        using that pre(3,4) store_bytes_outside [of bs a x] by (simp add: heap_put_def) fastforce
    qed (simp add: heap_put_def)
    then show ?thesis using inv(2) by (auto simp: heap_has_def)
  qed
  show "mem (heap_put a bs h) = store_bytes (mem h) a bs" by (simp add: heap_put_def)
  show "disjoint_regions p m q k" if "heap_has h L" "(p, m) \<in> L" "(q, k) \<in> L" "(p, m) \<noteq> (q, k)"
    using that heap_live_disjoint unfolding heap_has_def by blast
  show "0 < m \<and> m < 2 ^ 48" if "heap_has h L" "(p, m) \<in> L"
    using that heap_live_size unfolding heap_has_def by blast
qed

end
