(* ===== verification/NetArp.thy ===== *)
theory NetArp
  imports NetRoute HeapUse MemBoot Semaphore
begin

text \<open>
  Network devices and address resolution (\<^verbatim>\<open>kernel/include/net/network.h\<close>, \<^verbatim>\<open>kernel/src/net/arp.c\<close>): the
  cache of resolved addresses, the request and reply frames, and the ring of packets that wait for a
  reply.

  A waiting packet is a heap block that the ring owns: it is freed when the ring overwrites its slot
  or when the packet has been sent.  Frames handed to a driver are recorded in order in \<open>transmitted\<close>;
  a received packet is read from the memory \<open>m\<close> of the driver's receive slots.
\<close>

section \<open>Devices\<close>

record packet_meta_t =
  meta_length :: u16
  meta_flags :: u16

record packet_queue_t =
  pq_data :: addr
  pq_meta :: "packet_meta_t list"
  slot_count :: u32
  slot_size :: u16
  pq_head :: u32
  pq_tail :: u32
  packet_ready :: semaphore_t

record network_device_t =
  dev_name :: string
  dev_transmit :: "u8 list \<Rightarrow> u16 \<Rightarrow> int"
  recv_queue :: packet_queue_t
  dev_flags :: u8
  mac :: "u8 list"
  ip4 :: "u8 list"

definition ARP_CACHE_SIZE :: nat where "ARP_CACHE_SIZE = 32"
definition ARP_PENDING_QUEUE_SIZE :: nat where "ARP_PENDING_QUEUE_SIZE = 32"

record arp_entry_t =
  arp_ip :: "u8 list"
  arp_mac :: "u8 list"

record arp_pending_entry_t =
  pkt :: addr
  pkt_len :: u16
  pkt_target :: "u8 list"
  occupied :: bool

record arp_state = route_state +
  device_at :: "addr \<Rightarrow> network_device_t"
  arp_cache :: "arp_entry_t list"
  last_arp_cache_entry :: u16
  arp_pending_queue :: "arp_pending_entry_t list"
  arp_pending_head :: u32
  arp_pending_tail :: u32
  heap :: heap_state
  transmitted :: "(addr \<times> u8 list) list"

text \<open>A call of the driver's \<^verbatim>\<open>transmit\<close>.\<close>

definition transmit :: "addr \<Rightarrow> u8 list \<Rightarrow> u16 \<Rightarrow> ('z) arp_state_scheme \<Rightarrow> int \<times> ('z) arp_state_scheme" where
  "transmit device bytes len s =
     (dev_transmit (device_at s device) (take (unat len) bytes) len,
      s\<lparr>transmitted := transmitted s @ [(device, take (unat len) bytes)]\<rparr>)"

section \<open>The cache and the requests\<close>

definition arp_cache_lookup :: "u8 list \<Rightarrow> ('z) arp_state_scheme \<Rightarrow> u8 list option" where
  "arp_cache_lookup ip s =
     (case first_index (\<lambda>e. arp_ip e = ip) (arp_cache s) of
        Some i \<Rightarrow> Some (arp_mac (arp_cache s ! i))
      | None \<Rightarrow> None)"

definition arp_request :: "network_device_t \<Rightarrow> u8 list \<Rightarrow> u8 list" where
  "arp_request d target_ip =
     replicate 6 0xFF @ mac d @ [0x08, 0x06] @
     [0x00, 0x01] @ [0x08, 0x00] @ [6] @ [4] @ [0x00, 0x01] @ mac d @ ip4 d @ replicate 6 0x00 @ target_ip"

definition arp_send_request :: "addr \<Rightarrow> u8 list \<Rightarrow> ('z) arp_state_scheme \<Rightarrow> ('z) arp_state_scheme" where
  "arp_send_request device target_ip s = snd (transmit device (arp_request (device_at s device) target_ip) 42 s)"

definition arp_lookup :: "addr \<Rightarrow> u8 list \<Rightarrow> ('z) arp_state_scheme \<Rightarrow> u8 list option \<times> ('z) arp_state_scheme" where
  "arp_lookup device ip s =
     (case arp_cache_lookup ip s of
        Some mac_out \<Rightarrow> (Some mac_out, s)
      | None \<Rightarrow> (None, arp_send_request device ip s))"

section \<open>Packets that wait for a reply\<close>

definition arp_pending_none :: arp_pending_entry_t where
  "arp_pending_none = \<lparr>pkt = 0, pkt_len = 0, pkt_target = [0, 0, 0, 0], occupied = False\<rparr>"

definition arp_pending_init :: "('z) arp_state_scheme \<Rightarrow> ('z) arp_state_scheme" where
  "arp_pending_init s =
     s\<lparr>arp_pending_queue := replicate ARP_PENDING_QUEUE_SIZE arp_pending_none, arp_pending_head := 0, arp_pending_tail := 0\<rparr>"

definition arp_pending_enqueue ::
  "cpu_ctx \<Rightarrow> addr \<Rightarrow> u16 \<Rightarrow> u8 list \<Rightarrow> ('z) arp_state_scheme \<Rightarrow> kstop + ('z) arp_state_scheme" where
  "arp_pending_enqueue c packet len target_ip s =
     (let t = unat (arp_pending_tail s); slot = arp_pending_queue s ! t
      in bindR (if occupied slot
                then bindR (free c (pkt slot) (heap s)) (\<lambda>h.
                       Inr (s\<lparr>heap := h, arp_pending_head := (arp_pending_head s + 1) mod 32\<rparr>))
                else Inr s) (\<lambda>s1.
           Inr (s1\<lparr>arp_pending_queue := (arp_pending_queue s1)[t := \<lparr>pkt = packet, pkt_len = len, pkt_target = target_ip, occupied = True\<rparr>],
                   arp_pending_tail := (arp_pending_tail s1 + 1) mod 32\<rparr>)))"

definition drain_slot ::
  "cpu_ctx \<Rightarrow> addr \<Rightarrow> u8 list \<Rightarrow> u8 list \<Rightarrow> nat \<Rightarrow> ('z) arp_state_scheme \<Rightarrow> kstop + ('z) arp_state_scheme" where
  "drain_slot c device resolved_ip resolved_mac i s =
     (let slot = arp_pending_queue s ! i
      in if \<not> occupied slot then Inr s
         else if pkt_target slot \<noteq> resolved_ip then Inr s
         else
           (let s1 = s\<lparr>heap := heap_put (pkt slot) resolved_mac (heap s)\<rparr>;
                s2 = snd (transmit device (load_bytes (mem (heap s1)) (pkt slot) (unat (pkt_len slot))) (pkt_len slot) s1)
            in bindR (free c (pkt slot) (heap s2)) (\<lambda>h.
                 Inr (s2\<lparr>heap := h, arp_pending_queue := (arp_pending_queue s2)[i := slot\<lparr>pkt := 0, occupied := False\<rparr>]\<rparr>))))"

primrec drain_slots ::
  "cpu_ctx \<Rightarrow> addr \<Rightarrow> u8 list \<Rightarrow> u8 list \<Rightarrow> nat list \<Rightarrow> ('z) arp_state_scheme \<Rightarrow> kstop + ('z) arp_state_scheme" where
  "drain_slots c device resolved_ip resolved_mac [] s = Inr s"
| "drain_slots c device resolved_ip resolved_mac (i # is) s =
     bindR (drain_slot c device resolved_ip resolved_mac i s) (drain_slots c device resolved_ip resolved_mac is)"

definition arp_pending_drain ::
  "cpu_ctx \<Rightarrow> addr \<Rightarrow> u8 list \<Rightarrow> u8 list \<Rightarrow> ('z) arp_state_scheme \<Rightarrow> kstop + ('z) arp_state_scheme" where
  "arp_pending_drain c device resolved_ip resolved_mac s =
     drain_slots c device resolved_ip resolved_mac [0..<ARP_PENDING_QUEUE_SIZE] s"

section \<open>Received ARP packets\<close>

record arp_header_t =
  hw_type :: u16
  proto_type :: u16
  hw_size :: u8
  proto_size :: u8
  opcode :: u16
  sender_mac :: "u8 list"
  sender_ip :: "u8 list"
  target_mac :: "u8 list"
  target_ip :: "u8 list"

definition load16 :: "memory \<Rightarrow> addr \<Rightarrow> u16" where
  "load16 m a = le_word (load_bytes m a 2)"

definition arp_header_at :: "memory \<Rightarrow> addr \<Rightarrow> arp_header_t" where
  "arp_header_at m a =
     \<lparr>hw_type = load16 m a, proto_type = load16 m (a + 2), hw_size = m (a + 4), proto_size = m (a + 5), opcode = load16 m (a + 6),
      sender_mac = load_bytes m (a + 8) 6, sender_ip = load_bytes m (a + 14) 4,
      target_mac = load_bytes m (a + 18) 6, target_ip = load_bytes m (a + 24) 4\<rparr>"

definition arp_reply :: "network_device_t \<Rightarrow> arp_header_t \<Rightarrow> u8 list" where
  "arp_reply d arp =
     sender_mac arp @ mac d @ [0x08, 0x06] @
     [0x00, 0x01] @ [0x08, 0x00] @ [6] @ [4] @ [0x00, 0x02] @ mac d @ ip4 d @ sender_mac arp @ sender_ip arp"

definition arp_learn :: "u8 list \<Rightarrow> u8 list \<Rightarrow> ('z) arp_state_scheme \<Rightarrow> ('z) arp_state_scheme" where
  "arp_learn ip hw s =
     (let s1 = s\<lparr>arp_cache := map (\<lambda>e. if arp_ip e = ip then e\<lparr>arp_mac := hw\<rparr> else e) (arp_cache s)\<rparr>;
          found = (\<exists>e\<in>set (arp_cache s). arp_ip e = ip)
      in if \<not> found \<and> unat (last_arp_cache_entry s1) < ARP_CACHE_SIZE
         then s1\<lparr>arp_cache := (arp_cache s1)[unat (last_arp_cache_entry s1) := \<lparr>arp_ip = ip, arp_mac = hw\<rparr>],
                 last_arp_cache_entry := last_arp_cache_entry s1 + 1\<rparr>
         else s1)"

definition net_handle_arp ::
  "cpu_ctx \<Rightarrow> memory \<Rightarrow> addr \<Rightarrow> addr \<Rightarrow> u16 \<Rightarrow> ('z) arp_state_scheme \<Rightarrow> kstop + ('z) arp_state_scheme" where
  "net_handle_arp c m device packet len s =
     (if len < 42 then Inr s
      else
        (let arp = arp_header_at m (packet + 14); op = ntohs (opcode arp)
         in if op = 1
            then (if target_ip arp = ip4 (device_at s device)
                  then Inr (snd (transmit device (arp_reply (device_at s device) arp) 42 s))
                  else Inr s)
            else if op = 2
            then arp_pending_drain c device (sender_ip arp) (sender_mac arp) (arp_learn (sender_ip arp) (sender_mac arp) s)
            else Inr s))"

section \<open>The ring owns the blocks of its packets\<close>

abbreviation pending :: "('z) arp_state_scheme \<Rightarrow> nat \<Rightarrow> arp_pending_entry_t" where
  "pending s i \<equiv> arp_pending_queue s ! i"

text \<open>
  \<open>pending_ok s L\<close>: with the live heap blocks \<open>L\<close>, every occupied slot owns a block that holds its
  packet, and no two slots own the same one.
\<close>

definition pending_ok :: "('z) arp_state_scheme \<Rightarrow> (addr \<times> nat) set \<Rightarrow> bool" where
  "pending_ok s L \<longleftrightarrow> heap_has (heap s) L \<and> length (arp_pending_queue s) = 32 \<and> arp_pending_tail s < 32 \<and>
     (\<forall>i<32. occupied (pending s i) \<longrightarrow> (\<exists>k. (pkt (pending s i), k) \<in> L \<and> unat (pkt_len (pending s i)) \<le> k \<and> 6 \<le> k)) \<and>
     (\<forall>i<32. \<forall>j<32. occupied (pending s i) \<longrightarrow> occupied (pending s j) \<longrightarrow> pkt (pending s i) = pkt (pending s j) \<longrightarrow> i = j)"

lemma pending_okD:
  assumes "pending_ok s L"
  shows "heap_has (heap s) L" "length (arp_pending_queue s) = 32" "unat (arp_pending_tail s) < 32"
    "i < 32 \<Longrightarrow> occupied (pending s i) \<Longrightarrow> \<exists>k. (pkt (pending s i), k) \<in> L \<and> unat (pkt_len (pending s i)) \<le> k \<and> 6 \<le> k"
    "i < 32 \<Longrightarrow> j < 32 \<Longrightarrow> occupied (pending s i) \<Longrightarrow> occupied (pending s j) \<Longrightarrow> pkt (pending s i) = pkt (pending s j) \<Longrightarrow> i = j"
  using assms by (auto simp: pending_ok_def word_less_nat_alt)

text \<open>The frame a waiting packet becomes: its bytes with the destination address filled in.\<close>

definition resolved_frame :: "('z) arp_state_scheme \<Rightarrow> u8 list \<Rightarrow> arp_pending_entry_t \<Rightarrow> u8 list" where
  "resolved_frame s hw e = take (unat (pkt_len e)) (hw @ drop 6 (load_bytes (mem (heap s)) (pkt e) (unat (pkt_len e))))"

definition waits_for :: "('z) arp_state_scheme \<Rightarrow> u8 list \<Rightarrow> nat \<Rightarrow> bool" where
  "waits_for s ip i \<longleftrightarrow> occupied (pending s i) \<and> pkt_target (pending s i) = ip"

lemma drain_slot_skip: "\<not> waits_for s ip i \<Longrightarrow> drain_slot c device ip hw i s = Inr s"
  by (auto simp: drain_slot_def waits_for_def Let_def)

lemma load_after_put:
  assumes "heap_has h L" and "(p, k) \<in> L" and "6 \<le> k" and "n \<le> k" and "length hw = 6"
  shows "load_bytes (mem (heap_put p hw h)) p n = take n (hw @ drop 6 (load_bytes (mem h) p n))"
proof (cases "6 \<le> n")
  case True
  then show ?thesis using kheap.put_prefix(3) [OF assms(1,2), of hw n] assms by simp
next
  case False
  then have "load_bytes (mem (heap_put p hw h)) p n = take n (load_bytes (mem (heap_put p hw h)) p 6)"
    by (simp add: load_bytes_def take_map)
  then show ?thesis using kheap.put_prefix(2) [OF assms(1,2), of hw] assms False by simp
qed

text \<open>The slot \<open>i\<close> after its packet has gone.\<close>

abbreviation vacate :: "arp_pending_entry_t \<Rightarrow> arp_pending_entry_t" where
  "vacate e \<equiv> e\<lparr>pkt := 0, occupied := False\<rparr>"

lemma pending_ok_vacate:
  assumes "pending_ok s L" and "i < 32" and "occupied (pending s i)" and "(pkt (pending s i), k) \<in> L"
    and "heap_has h (L - {(pkt (pending s i), k)})"
  shows "pending_ok (s\<lparr>heap := h, transmitted := tr, arp_pending_queue := (arp_pending_queue s)[i := vacate (pending s i)]\<rparr>)
    (L - {(pkt (pending s i), k)})"
proof -
  note ok = pending_okD [OF assms(1)]
  have "\<exists>k'. (pkt (pending s j), k') \<in> L - {(pkt (pending s i), k)} \<and> unat (pkt_len (pending s j)) \<le> k' \<and> 6 \<le> k'"
    if "j < 32" "j \<noteq> i" "occupied (pending s j)" for j
    using ok(4) [OF that(1,3)] ok(5) [OF that(1) assms(2) that(3) assms(3)] that(2) by blast
  moreover have "(arp_pending_queue s)[i := vacate (pending s i)] ! j = (if j = i then vacate (pending s i) else pending s j)" for j
    using ok(2) assms(2) by (simp add: nth_list_update)
  ultimately show ?thesis using assms(1,5) ok(5) unfolding pending_ok_def by simp
qed

lemma drain_slot_sends:
  assumes "pending_ok s L" and "i < 32" and "waits_for s ip i" and "length hw = 6"
  shows "\<exists>k h. (pkt (pending s i), k) \<in> L \<and>
    drain_slot c device ip hw i s = Inr (s\<lparr>heap := h, transmitted := transmitted s @ [(device, resolved_frame s hw (pending s i))],
      arp_pending_queue := (arp_pending_queue s)[i := vacate (pending s i)]\<rparr>) \<and>
    heap_has h (L - {(pkt (pending s i), k)}) \<and>
    (\<forall>(q, j)\<in>L - {(pkt (pending s i), k)}. \<forall>n\<le>j. load_bytes (mem h) q n = load_bytes (mem (heap s)) q n)"
proof -
  let ?e = "pending s i"
  note ok = pending_okD [OF assms(1)]
  have occ: "occupied ?e" "pkt_target ?e = ip" using assms(3) by (simp_all add: waits_for_def)
  obtain k where k: "(pkt ?e, k) \<in> L" "unat (pkt_len ?e) \<le> k" "6 \<le> k" using ok(4) [OF assms(2) occ(1)] by blast
  let ?h1 = "heap_put (pkt ?e) hw (heap s)"
  have h1: "heap_has ?h1 L" using kheap.put_prefix(1) [OF ok(1) k(1)] k(3) assms(4) by simp
  obtain h where h: "free c (pkt ?e) ?h1 = Inr h" "heap_has h (L - {(pkt ?e, k)})" using kheap.release_live [OF h1 k(1)] by blast
  have frame: "load_bytes (mem ?h1) (pkt ?e) (unat (pkt_len ?e)) = resolved_frame s hw ?e"
    using load_after_put [OF ok(1) k(1,3,2) assms(4)] by (simp add: resolved_frame_def)
  have "load_bytes (mem h) q n = load_bytes (mem (heap s)) q n" if q: "(q, j) \<in> L - {(pkt ?e, k)}" and n: "n \<le> j" for q j n
    using kheap.release_keeps_blocks(2) [OF h1 k(1) h(1), of q j n] kheap.put_prefix(4) [OF ok(1) k(1), of hw q j n] q n k(3) assms(4)
    by simp
  moreover have "drain_slot c device ip hw i s = Inr (s\<lparr>heap := h, transmitted := transmitted s @ [(device, resolved_frame s hw ?e)],
      arp_pending_queue := (arp_pending_queue s)[i := vacate ?e]\<rparr>)"
    using occ h(1) frame by (simp add: drain_slot_def transmit_def Let_def resolved_frame_def)
  ultimately show ?thesis using k(1) h(2) by blast
qed

text \<open>What draining the slots \<open>is\<close> does.\<close>

definition drains ::
  "addr \<Rightarrow> u8 list \<Rightarrow> u8 list \<Rightarrow> nat list \<Rightarrow> ('z) arp_state_scheme \<Rightarrow> (addr \<times> nat) set \<Rightarrow> ('z) arp_state_scheme \<Rightarrow> (addr \<times> nat) set \<Rightarrow> bool" where
  "drains device ip hw is s L s' L' \<longleftrightarrow>
     s' = s\<lparr>heap := heap s', transmitted := transmitted s @ map (\<lambda>i. (device, resolved_frame s hw (pending s i))) (filter (waits_for s ip) is),
            arp_pending_queue := arp_pending_queue s'\<rparr> \<and>
     (\<forall>j<32. pending s' j = (if j \<in> set is \<and> waits_for s ip j then vacate (pending s j) else pending s j)) \<and>
     L' = {(p, k) \<in> L. \<forall>i\<in>set is. waits_for s ip i \<longrightarrow> pkt (pending s i) \<noteq> p} \<and>
     (\<forall>(q, j)\<in>L'. \<forall>n\<le>j. load_bytes (mem (heap s')) q n = load_bytes (mem (heap s)) q n)"

lemma drains_fields:
  assumes "drains device ip hw is s L s' L'"
  shows "transmitted s' = transmitted s @ map (\<lambda>i. (device, resolved_frame s hw (pending s i))) (filter (waits_for s ip) is)"
    and "arp_cache s' = arp_cache s"
proof -
  have e: "s' = s\<lparr>heap := heap s', transmitted := transmitted s @ map (\<lambda>i. (device, resolved_frame s hw (pending s i))) (filter (waits_for s ip) is),
            arp_pending_queue := arp_pending_queue s'\<rparr>" using assms unfolding drains_def by blast
  show "transmitted s' = transmitted s @ map (\<lambda>i. (device, resolved_frame s hw (pending s i))) (filter (waits_for s ip) is)"
    by (subst e) simp
  show "arp_cache s' = arp_cache s" by (subst e) simp
qed

lemma drains_after_send:
  assumes inv: "pending_ok s L" and i: "i < 32" "i \<notin> set is" and sub: "set is \<subseteq> {..<32}" and True: "waits_for s ip i"
    and k: "(pkt (pending s i), k) \<in> L"
    and keep: "\<forall>(q, j)\<in>L - {(pkt (pending s i), k)}. \<forall>n\<le>j. load_bytes (mem h) q n = load_bytes (mem (heap s)) q n"
    and s1_def: "s1 = s\<lparr>heap := h, transmitted := transmitted s @ [(device, resolved_frame s hw (pending s i))],
        arp_pending_queue := (arp_pending_queue s)[i := vacate (pending s i)]\<rparr>"
    and r: "drains device ip hw is s1 (L - {(pkt (pending s i), k)}) s' L'"
  shows "drains device ip hw (i # is) s L s' L'"
proof -
  let ?p = "pkt (pending s i)"
  note ok = pending_okD [OF inv]
  have others: "pending s1 j = pending s j" if "j \<noteq> i" for j using that by (simp add: s1_def)
  have waits: "waits_for s1 ip j \<longleftrightarrow> waits_for s ip j" if "j \<noteq> i" for j using others [OF that] by (simp add: waits_for_def)
  have frames: "resolved_frame s1 hw (pending s1 j) = resolved_frame s hw (pending s j)" if j: "j \<in> set is" "waits_for s ip j" for j
  proof -
    have "j < 32" "j \<noteq> i" "occupied (pending s j)" using j sub i(2) by (auto simp: waits_for_def)
    then obtain k' where "(pkt (pending s j), k') \<in> L - {(?p, k)}" "unat (pkt_len (pending s j)) \<le> k'"
      using ok(4) [of j] ok(5) [of j i] i(1) True by (auto simp: waits_for_def)
    then have "load_bytes (mem h) (pkt (pending s j)) (unat (pkt_len (pending s j))) =
        load_bytes (mem (heap s)) (pkt (pending s j)) (unat (pkt_len (pending s j)))" using keep by blast
    then show ?thesis unfolding resolved_frame_def others [OF \<open>j \<noteq> i\<close>] by (simp add: s1_def)
  qed
  show ?thesis
    unfolding drains_def
  proof (intro conjI)
    have "map (\<lambda>j. (device, resolved_frame s1 hw (pending s1 j))) (filter (waits_for s1 ip) is) =
        map (\<lambda>j. (device, resolved_frame s hw (pending s j))) (filter (waits_for s ip) is)"
    proof -
      have "filter (waits_for s1 ip) is = filter (waits_for s ip) is" using waits i(2) by (intro filter_cong) (simp, metis)
      then show ?thesis using frames by simp
    qed
    then show "s' = s\<lparr>heap := heap s', transmitted := transmitted s @
        map (\<lambda>i. (device, resolved_frame s hw (pending s i))) (filter (waits_for s ip) (i # is)), arp_pending_queue := arp_pending_queue s'\<rparr>"
      using r True unfolding drains_def by (simp add: s1_def)
    show "\<forall>j<32. pending s' j = (if j \<in> set (i # is) \<and> waits_for s ip j then vacate (pending s j) else pending s j)"
      using r True waits others i ok(2) unfolding drains_def by (auto simp: s1_def nth_list_update)
    show "L' = {(p, k) \<in> L. \<forall>j\<in>set (i # is). waits_for s ip j \<longrightarrow> pkt (pending s j) \<noteq> p}"
    proof -
      have uniq: "k' = k" if "(?p, k') \<in> L" for k' using kheap.live_unique [OF ok(1) that k] by simp
      have "pkt (pending s1 j) = pkt (pending s j) \<and> (waits_for s1 ip j \<longleftrightarrow> waits_for s ip j)" if "j \<in> set is" for j
        using others [of j] waits [of j] that i(2) by (cases "j = i") auto
      then have same: "(\<forall>j\<in>set is. waits_for s1 ip j \<longrightarrow> pkt (pending s1 j) \<noteq> p) \<longleftrightarrow> (\<forall>j\<in>set is. waits_for s ip j \<longrightarrow> pkt (pending s j) \<noteq> p)" for p
        by simp
      have "L' = {(p, k') \<in> L - {(?p, k)}. \<forall>j\<in>set is. waits_for s1 ip j \<longrightarrow> pkt (pending s1 j) \<noteq> p}"
        using r unfolding drains_def by blast
      then show ?thesis unfolding same using uniq True by auto
    qed
    have "L' \<subseteq> L - {(?p, k)}" "heap s1 = h" using r unfolding drains_def by (auto simp: s1_def)
    then show "\<forall>(q, j)\<in>L'. \<forall>n\<le>j. load_bytes (mem (heap s')) q n = load_bytes (mem (heap s)) q n"
      using r keep unfolding drains_def by fastforce
  qed
qed

lemma drain_slots_spec:
  assumes "pending_ok s L" and "distinct is" and "set is \<subseteq> {..<32}" and "length hw = 6"
  shows "\<exists>s' L'. drain_slots c device ip hw is s = Inr s' \<and> pending_ok s' L' \<and> drains device ip hw is s L s' L'"
  using assms
proof (induction "is" arbitrary: s L)
  case Nil
  then show ?case by (intro exI [of _ s] exI [of _ L]) (auto simp: drains_def)
next
  case (Cons i "is")
  show ?case
  proof (cases "waits_for s ip i")
    case False
    obtain s' L' where r: "drain_slots c device ip hw is s = Inr s'" "pending_ok s' L'" "drains device ip hw is s L s' L'"
      using Cons.IH [OF Cons.prems(1)] Cons.prems(2-4) by auto
    have "drains device ip hw (i # is) s L s' L'" using r(3) False unfolding drains_def by auto
    then show ?thesis using r(1,2) drain_slot_skip [OF False] by auto
  next
    case True
    let ?p = "pkt (pending s i)"
    have i: "i < 32" "i \<notin> set is" using Cons.prems(2,3) by auto
    obtain k h where k: "(?p, k) \<in> L" and
      step: "drain_slot c device ip hw i s = Inr (s\<lparr>heap := h, transmitted := transmitted s @ [(device, resolved_frame s hw (pending s i))],
        arp_pending_queue := (arp_pending_queue s)[i := vacate (pending s i)]\<rparr>)" and h: "heap_has h (L - {(?p, k)})" and
      keep: "\<forall>(q, j)\<in>L - {(?p, k)}. \<forall>n\<le>j. load_bytes (mem h) q n = load_bytes (mem (heap s)) q n"
      using drain_slot_sends [OF Cons.prems(1) i(1) True Cons.prems(4), of c device] by blast
    define s1 where "s1 = s\<lparr>heap := h, transmitted := transmitted s @ [(device, resolved_frame s hw (pending s i))],
        arp_pending_queue := (arp_pending_queue s)[i := vacate (pending s i)]\<rparr>"
    have ok1: "pending_ok s1 (L - {(?p, k)})" unfolding s1_def
      using pending_ok_vacate [OF Cons.prems(1) i(1) _ k h] True by (simp add: waits_for_def)
    obtain s' L' where r: "drain_slots c device ip hw is s1 = Inr s'" "pending_ok s' L'" "drains device ip hw is s1 (L - {(?p, k)}) s' L'"
      using Cons.IH [OF ok1] Cons.prems(2-4) by auto
    have "drains device ip hw (i # is) s L s' L'"
      by (rule drains_after_send [OF Cons.prems(1) i _ True k keep s1_def r(3)]) (use Cons.prems(3) in auto)
    then show ?thesis using r(1,2) step by (auto simp: s1_def)
  qed
qed

lemma arp_pending_drain_spec:
  assumes "pending_ok s L" and "length hw = 6"
  shows "\<exists>s' L'. arp_pending_drain c device ip hw s = Inr s' \<and> pending_ok s' L' \<and> drains device ip hw [0..<32] s L s' L'"
  unfolding arp_pending_drain_def ARP_PENDING_QUEUE_SIZE_def
  using assms by (intro drain_slots_spec) auto

lemma arp_learn_fields:
  "arp_pending_queue (arp_learn ip hw s) = arp_pending_queue s" "heap (arp_learn ip hw s) = heap s"
  "transmitted (arp_learn ip hw s) = transmitted s" "arp_pending_tail (arp_learn ip hw s) = arp_pending_tail s"
  by (simp_all add: arp_learn_def Let_def)

lemma arp_learn_pending:
  "pending_ok (arp_learn ip hw s) L = pending_ok s L" "waits_for (arp_learn ip hw s) ip' i = waits_for s ip' i"
  "resolved_frame (arp_learn ip hw s) hw' e = resolved_frame s hw' e"
  by (simp_all add: pending_ok_def waits_for_def resolved_frame_def arp_learn_fields)

lemma arp_learn_lookup:
  assumes "(\<exists>e\<in>set (arp_cache s). arp_ip e = ip) \<or> unat (last_arp_cache_entry s) < length (arp_cache s)"
    and "length (arp_cache s) = ARP_CACHE_SIZE"
  shows "arp_cache_lookup ip (arp_learn ip hw s) = Some hw"
proof (cases "\<exists>e\<in>set (arp_cache s). arp_ip e = ip")
  case True
  then have c: "arp_cache (arp_learn ip hw s) = map (\<lambda>e. if arp_ip e = ip then e\<lparr>arp_mac := hw\<rparr> else e) (arp_cache s)"
    by (simp add: arp_learn_def Let_def)
  obtain i where i: "first_index (\<lambda>e. arp_ip e = ip) (arp_cache (arp_learn ip hw s)) = Some i"
  proof -
    obtain e where "e \<in> set (arp_cache s)" "arp_ip e = ip" using True by blast
    then have "e\<lparr>arp_mac := hw\<rparr> \<in> set (arp_cache (arp_learn ip hw s))" "arp_ip (e\<lparr>arp_mac := hw\<rparr>) = ip" unfolding c by auto
    then show ?thesis using that first_index_None [of "\<lambda>e. arp_ip e = ip" "arp_cache (arp_learn ip hw s)"] by blast
  qed
  have "i < length (arp_cache s)" "arp_ip (arp_cache s ! i) = ip"
    using i unfolding first_index_Some c by (auto split: if_splits)
  then show ?thesis using i by (simp add: arp_cache_lookup_def c)
next
  case False
  let ?l = "unat (last_arp_cache_entry s)"
  have l: "?l < length (arp_cache s)" using assms(1) False by blast
  have c: "arp_cache (arp_learn ip hw s) = (arp_cache s)[?l := \<lparr>arp_ip = ip, arp_mac = hw\<rparr>]"
  proof -
    have "map (\<lambda>e. if arp_ip e = ip then e\<lparr>arp_mac := hw\<rparr> else e) (arp_cache s) = arp_cache s"
      using False by (intro map_idI) auto
    then show ?thesis using False l assms(2) by (simp add: arp_learn_def Let_def)
  qed
  have "first_index (\<lambda>e. arp_ip e = ip) (arp_cache (arp_learn ip hw s)) = Some ?l"
    using False l unfolding c first_index_Some by (auto simp: nth_list_update)
  then show ?thesis using l by (simp add: arp_cache_lookup_def c)
qed

section \<open>Replies and waiting packets, properties\<close>

text \<open>
  C26: An ARP reply sends exactly the packets that wait for the address it resolves, in slot order, each with
  the resolved hardware address filled in; it frees exactly their blocks and leaves every other slot and
  block as it was; and the address is in the cache afterwards if it was there or the cache had room.
\<close>

theorem arp_reply_sends_waiting:
  assumes "pending_ok s L" and "42 \<le> len" and "arp = arp_header_at m (packet + 14)" and "ntohs (opcode arp) = 2"
  shows "\<exists>s' L'. net_handle_arp c m device packet len s = Inr s' \<and> pending_ok s' L' \<and>
    transmitted s' = transmitted s @
      map (\<lambda>i. (device, resolved_frame s (sender_mac arp) (pending s i))) (filter (waits_for s (sender_ip arp)) [0..<32]) \<and>
    (\<forall>i<32. \<not> waits_for s' (sender_ip arp) i \<and> (\<not> waits_for s (sender_ip arp) i \<longrightarrow> pending s' i = pending s i)) \<and>
    L' = {(p, k) \<in> L. \<forall>i<32. waits_for s (sender_ip arp) i \<longrightarrow> pkt (pending s i) \<noteq> p} \<and>
    (\<forall>(q, j)\<in>L'. load_bytes (mem (heap s')) q j = load_bytes (mem (heap s)) q j) \<and>
    ((\<exists>e\<in>set (arp_cache s). arp_ip e = sender_ip arp) \<or> unat (last_arp_cache_entry s) < length (arp_cache s) \<longrightarrow>
      length (arp_cache s) = ARP_CACHE_SIZE \<longrightarrow> arp_cache_lookup (sender_ip arp) s' = Some (sender_mac arp))"
proof -
  let ?s1 = "arp_learn (sender_ip arp) (sender_mac arp) s"
  have len: "\<not> len < 42" using assms(2) by simp
  have mac6: "length (sender_mac arp) = 6" using assms(3) by (simp add: arp_header_at_def)
  have run: "net_handle_arp c m device packet len s = arp_pending_drain c device (sender_ip arp) (sender_mac arp) ?s1"
    unfolding net_handle_arp_def using len assms(3,4) by (simp add: Let_def)
  obtain s' L' where r: "arp_pending_drain c device (sender_ip arp) (sender_mac arp) ?s1 = Inr s'" "pending_ok s' L'"
    "drains device (sender_ip arp) (sender_mac arp) [0..<32] ?s1 L s' L'"
    using arp_pending_drain_spec [of ?s1 L "sender_mac arp" c device "sender_ip arp"] mac6 assms(1) by (auto simp: arp_learn_pending)
  note d = r(3) [unfolded drains_def arp_learn_pending arp_learn_fields] and f = drains_fields [OF r(3)]
  have "arp_cache_lookup (sender_ip arp) s' = arp_cache_lookup (sender_ip arp) ?s1" unfolding arp_cache_lookup_def f(2) ..
  moreover have "transmitted s' = transmitted s @
      map (\<lambda>i. (device, resolved_frame s (sender_mac arp) (pending s i))) (filter (waits_for s (sender_ip arp)) [0..<32])"
    using f(1) by (simp add: arp_learn_pending arp_learn_fields cong: filter_cong)
  moreover have "\<forall>i<32. \<not> waits_for s' (sender_ip arp) i \<and> (\<not> waits_for s (sender_ip arp) i \<longrightarrow> pending s' i = pending s i)"
    using d by (auto simp: waits_for_def)
  moreover have "L' = {(p, k) \<in> L. \<forall>i<32. waits_for s (sender_ip arp) i \<longrightarrow> pkt (pending s i) \<noteq> p}"
    "\<forall>(q, j)\<in>L'. load_bytes (mem (heap s')) q j = load_bytes (mem (heap s)) q j"
    using d by auto
  ultimately show ?thesis using run r(1,2) arp_learn_lookup [of s "sender_ip arp" "sender_mac arp"]
    by (intro exI [of _ s'] exI [of _ L'] conjI) simp_all
qed

text \<open>
  C27: Queueing a packet hands its block to the ring.  The slot written is the one after the last written; if it
  still held a packet, that packet's block is freed, exactly once, and no other block is touched.
\<close>

theorem arp_pending_enqueue_owns:
  assumes "pending_ok s L" and "(packet, k) \<in> L" and "unat len \<le> k" and "6 \<le> k"
    and "\<forall>i<32. occupied (pending s i) \<longrightarrow> pkt (pending s i) \<noteq> packet"
  shows "\<exists>s' L'. arp_pending_enqueue c packet len ip s = Inr s' \<and> pending_ok s' L' \<and>
    (let t = unat (arp_pending_tail s)
     in arp_pending_queue s' = (arp_pending_queue s)[t := \<lparr>pkt = packet, pkt_len = len, pkt_target = ip, occupied = True\<rparr>] \<and>
        unat (arp_pending_tail s') = Suc t mod 32 \<and> transmitted s' = transmitted s \<and>
        L' = (if occupied (pending s t) then {(p, j) \<in> L. p \<noteq> pkt (pending s t)} else L)) \<and>
    (\<forall>(q, j)\<in>L'. load_bytes (mem (heap s')) q j = load_bytes (mem (heap s)) q j)"
proof -
  note ok = pending_okD [OF assms(1)]
  let ?t = "unat (arp_pending_tail s)" let ?e = "pending s ?t"
  define L' where "L' = (if occupied ?e then {(p, j) \<in> L. p \<noteq> pkt ?e} else L)"
  have tl: "unat ((arp_pending_tail s + 1) mod 32) = Suc ?t mod 32" "(arp_pending_tail s + 1) mod 32 < 32"
    using ok(3) by (simp_all add: unat_mod unat_word_ariths word_less_nat_alt)
  obtain h hd' where step: "(if occupied ?e then bindR (free c (pkt ?e) (heap s)) (\<lambda>h. Inr (s\<lparr>heap := h, arp_pending_head := (arp_pending_head s + 1) mod 32\<rparr>))
      else Inr s) = Inr (s\<lparr>heap := h, arp_pending_head := hd'\<rparr>)" and
    h: "heap_has h L'" "\<forall>(q, j)\<in>L'. load_bytes (mem h) q j = load_bytes (mem (heap s)) q j"
  proof (cases "occupied ?e")
    case True
    obtain k' where k': "(pkt ?e, k') \<in> L" using ok(4) [OF ok(3) True] by blast
    obtain h where h: "free c (pkt ?e) (heap s) = Inr h" "heap_has h (L - {(pkt ?e, k')})" using kheap.release_live [OF ok(1) k'] by blast
    have L: "L - {(pkt ?e, k')} = {(p, j) \<in> L. p \<noteq> pkt ?e}" using kheap.live_unique [OF ok(1) _ k'] by auto
    have "load_bytes (mem h) q j = load_bytes (mem (heap s)) q j" if "(q, j) \<in> L - {(pkt ?e, k')}" for q j
      using kheap.release_keeps_blocks(2) [OF ok(1) k' h(1), of q j j] that by simp
    then show thesis using that [of "(arp_pending_head s + 1) mod 32" h] True h L by (auto simp: L'_def)
  next
    case False
    then show thesis using that [of "arp_pending_head s" "heap s"] ok(1) False by (simp add: L'_def)
  qed
  let ?s' = "s\<lparr>heap := h, arp_pending_head := hd',
    arp_pending_queue := (arp_pending_queue s)[?t := \<lparr>pkt = packet, pkt_len = len, pkt_target = ip, occupied = True\<rparr>],
    arp_pending_tail := (arp_pending_tail s + 1) mod 32\<rparr>"
  have run: "arp_pending_enqueue c packet len ip s = Inr ?s'" unfolding arp_pending_enqueue_def Let_def step by simp
  have nth: "(arp_pending_queue s)[?t := x] ! i = (if i = ?t then x else pending s i)" for i x using ok(2,3) by (simp add: nth_list_update)
  have "(packet, k) \<in> L'" using assms(2,5) ok(3) by (auto simp: L'_def)
  moreover have "\<exists>j. (pkt (pending s i), j) \<in> L' \<and> unat (pkt_len (pending s i)) \<le> j \<and> 6 \<le> j"
    if "i < 32" "i \<noteq> ?t" "occupied (pending s i)" for i
    using ok(4) [OF that(1,3)] ok(5) [OF that(1) ok(3) that(3)] that(2) by (auto simp: L'_def)
  ultimately have "pending_ok ?s' L'"
    unfolding pending_ok_def using h(1) ok(2,5) tl(2) assms(3-5) by (simp add: nth) metis
  then show ?thesis using run h(2) tl(1) by (intro exI [of _ ?s'] exI [of _ L']) (simp add: Let_def L'_def)
qed

text \<open>
  An unused cache slot holds the address 0.0.0.0, so that address resolves although nothing was learnt.
\<close>

lemma arp_unused_entries_resolve:
  assumes "arp_cache s = replicate 32 \<lparr>arp_ip = [0, 0, 0, 0], arp_mac = [0, 0, 0, 0, 0, 0]\<rparr>"
  shows "arp_lookup device [0, 0, 0, 0] s = (Some [0, 0, 0, 0, 0, 0], s)"
proof -
  have "first_index (\<lambda>e. arp_ip e = [0, 0, 0, 0]) (arp_cache s) = Some 0" by (simp add: assms first_index_Some)
  then show ?thesis by (simp add: arp_lookup_def arp_cache_lookup_def assms)
qed

text \<open>A full cache keeps what it has: a reply for a new address sends the waiting packets but is not remembered.\<close>

lemma arp_full_cache_forgets:
  assumes "32 \<le> unat (last_arp_cache_entry s)" and "\<forall>e\<in>set (arp_cache s). arp_ip e \<noteq> ip"
  shows "arp_cache_lookup ip (arp_learn ip hw s) = None"
proof -
  have "map (\<lambda>e. if arp_ip e = ip then e\<lparr>arp_mac := hw\<rparr> else e) (arp_cache s) = arp_cache s"
    using assms(2) by (intro map_idI) auto
  then have "arp_cache (arp_learn ip hw s) = arp_cache s" using assms by (simp add: arp_learn_def Let_def ARP_CACHE_SIZE_def)
  then show ?thesis using assms(2) first_index_None [of "\<lambda>e. arp_ip e = ip" "arp_cache s"] by (simp add: arp_cache_lookup_def)
qed

section \<open>A concrete network\<close>

definition demo_device :: network_device_t where
  "demo_device =
     \<lparr>dev_name = ''E1000'', dev_transmit = (\<lambda>bytes len. uint len),
      recv_queue = \<lparr>pq_data = 0, pq_meta = [], slot_count = 32, slot_size = 2048, pq_head = 0, pq_tail = 0,
        packet_ready = \<lparr>sem_lock = LOCK_INITIALIZER (Some ''semaphore''), sem_count = 0, waiters = replicate 64 0, wait_head = 0, wait_tail = 0\<rparr>\<rparr>,
      dev_flags = 7, mac = [0x52, 0x54, 0, 0x12, 0x34, 0x56], ip4 = [10, 0, 2, 15]\<rparr>"

text \<open>One packet of 60 bytes waits for 10.0.2.2.\<close>

definition demo_arp :: "heap_state \<Rightarrow> addr \<Rightarrow> arp_state" where
  "demo_arp h p =
     \<lparr>route_table = route_table (qemu_routes 0x9000), route_table_lock = route_table_lock (qemu_routes 0x9000),
      device_at = (\<lambda>d. demo_device), arp_cache = replicate 32 \<lparr>arp_ip = [0, 0, 0, 0], arp_mac = [0, 0, 0, 0, 0, 0]\<rparr>, last_arp_cache_entry = 0,
      arp_pending_queue = \<lparr>pkt = p, pkt_len = 60, pkt_target = [10, 0, 2, 2], occupied = True\<rparr> # replicate 31 arp_pending_none,
      arp_pending_head = 0, arp_pending_tail = 1, heap = h, transmitted = []\<rparr>"

text \<open>The reply of 10.0.2.2, at address \<open>0x1000\<close>.\<close>

definition demo_reply :: memory where
  "demo_reply a =
     [0x52, 0x54, 0, 0x12, 0x34, 0x56, 0x52, 0x55, 10, 0, 2, 2, 8, 6,
      0, 1, 8, 0, 6, 4, 0, 2, 0x52, 0x55, 10, 0, 2, 2, 10, 0, 2, 2, 0x52, 0x54, 0, 0x12, 0x34, 0x56, 10, 0, 2, 15] ! unat (a - 0x1000)"

lemma demo_reply_header:
  "ntohs (opcode (arp_header_at demo_reply (0x1000 + 14))) = 2"
  "sender_ip (arp_header_at demo_reply (0x1000 + 14)) = [10, 0, 2, 2]"
  "sender_mac (arp_header_at demo_reply (0x1000 + 14)) = [0x52, 0x55, 10, 0, 2, 2]"
  by (simp_all add: arp_header_at_def load16_def load_bytes_def upt_rec demo_reply_def ntohs_def)

lemma demo_heap_block:
  obtains p h L k where "malloc (debug_cpu 0) 100 demo_heap = Inr (p, h)" "heap_has h L" "(p, k) \<in> L" "100 \<le> k"
proof -
  obtain p h G F m where "malloc (debug_cpu 0) 100 demo_heap = Inr (p, h)" "heap_inv h G F Map.empty"
    "(p, m) \<in> heap_live G F Map.empty" "100 \<le> m" by (rule demo_malloc)
  then show thesis using that unfolding heap_has_def by blast
qed

lemma demo_pending_nth:
  "i < 32 \<Longrightarrow> pending (demo_arp h p) i = (if i = 0 then \<lparr>pkt = p, pkt_len = 60, pkt_target = [10, 0, 2, 2], occupied = True\<rparr> else arp_pending_none)"
  by (simp add: demo_arp_def nth_Cons')

lemma demo_pending_ok:
  assumes "heap_has h L" and "(p, k) \<in> L" and "100 \<le> k"
  shows "pending_ok (demo_arp h p) L"
proof -
  have "heap (demo_arp h p) = h" "length (arp_pending_queue (demo_arp h p)) = 32" "arp_pending_tail (demo_arp h p) < 32"
    by (simp_all add: demo_arp_def)
  then show ?thesis using assms unfolding pending_ok_def by (auto simp: demo_pending_nth arp_pending_none_def split: if_splits)
qed

theorem arp_reply_sends_waiting_witness:
  "\<exists>p h s'. malloc (debug_cpu 0) 100 demo_heap = Inr (p, h) \<and>
     net_handle_arp (debug_cpu 0) demo_reply 0x9000 0x1000 42 (demo_arp h p) = Inr s' \<and>
     transmitted s' = [(0x9000, resolved_frame (demo_arp h p) [0x52, 0x55, 10, 0, 2, 2] (pending (demo_arp h p) 0))] \<and>
     arp_cache_lookup [10, 0, 2, 2] s' = Some [0x52, 0x55, 10, 0, 2, 2]"
proof -
  obtain p h L k where h: "malloc (debug_cpu 0) 100 demo_heap = Inr (p, h)" "heap_has h L" "(p, k) \<in> L" "100 \<le> k"
    by (rule demo_heap_block)
  note ok = demo_pending_ok [OF h(2-4)]
  have waits: "filter (waits_for (demo_arp h p) [10, 0, 2, 2]) [0..<32] = [0]"
  proof -
    have "filter (waits_for (demo_arp h p) [10, 0, 2, 2]) [0..<32] = filter (\<lambda>i. i = 0) [0..<32]"
      by (intro filter_cong) (auto simp: waits_for_def demo_pending_nth arp_pending_none_def)
    then show ?thesis by (simp add: upt_rec)
  qed
  have room: "unat (last_arp_cache_entry (demo_arp h p)) < length (arp_cache (demo_arp h p))" "length (arp_cache (demo_arp h p)) = ARP_CACHE_SIZE"
    "transmitted (demo_arp h p) = []"
    by (simp_all add: demo_arp_def ARP_CACHE_SIZE_def)
  have "42 \<le> (42 :: u16)" by simp
  from arp_reply_sends_waiting [OF ok this refl demo_reply_header(1), of "debug_cpu 0" "0x9000"]
  show ?thesis using h(1) room unfolding demo_reply_header waits by auto
qed

lemma empty_pending_ok:
  assumes "heap_has (heap s) L"
  shows "pending_ok (arp_pending_init s) L" and "i < 32 \<Longrightarrow> \<not> occupied (pending (arp_pending_init s) i)"
  using assms by (auto simp: pending_ok_def arp_pending_init_def arp_pending_none_def ARP_PENDING_QUEUE_SIZE_def)

theorem arp_pending_enqueue_owns_witness:
  "\<exists>p h s'. malloc (debug_cpu 0) 100 demo_heap = Inr (p, h) \<and>
     arp_pending_enqueue (debug_cpu 0) p 70 [10, 0, 2, 3] (arp_pending_init (demo_arp h p)) = Inr s' \<and> pkt (pending s' 0) = p"
proof -
  obtain p h L k where h: "malloc (debug_cpu 0) 100 demo_heap = Inr (p, h)" "heap_has h L" "(p, k) \<in> L" "100 \<le> k"
    by (rule demo_heap_block)
  let ?s = "arp_pending_init (demo_arp h p)"
  have "heap_has (heap (demo_arp h p)) L" using h(2) by (simp add: demo_arp_def)
  note ok = empty_pending_ok [OF this]
  have free: "\<forall>i<32. occupied (pending ?s i) \<longrightarrow> pkt (pending ?s i) \<noteq> p" using ok(2) by blast
  have "unat (70 :: u16) \<le> k" "6 \<le> k" using h(4) by simp_all
  from arp_pending_enqueue_owns [OF ok(1) h(3) this free, of "debug_cpu 0" "[10, 0, 2, 3]"]
  obtain s' where "arp_pending_enqueue (debug_cpu 0) p 70 [10, 0, 2, 3] ?s = Inr s'"
    "arp_pending_queue s' = (arp_pending_queue ?s)[0 := \<lparr>pkt = p, pkt_len = 70, pkt_target = [10, 0, 2, 3], occupied = True\<rparr>]"
    by (auto simp: Let_def arp_pending_init_def)
  then show ?thesis using h(1) by (auto simp: arp_pending_init_def ARP_PENDING_QUEUE_SIZE_def)
qed

end
