(* ===== verification/NetIp.thy ===== *)
theory NetIp
  imports NetArp
begin

text \<open>
  Received IPv4 packets (\<^verbatim>\<open>kernel/src/net/ipv4.c\<close>, \<^verbatim>\<open>icmp.c\<close>, \<^verbatim>\<open>udp.c\<close>), the device list and the network
  thread (\<^verbatim>\<open>kernel/src/net/network.c\<close>) and the boot configuration (\<^verbatim>\<open>netcfg.c\<close>).

  A received datagram is a heap block; a socket's receive queue is a ring of pointers to such blocks
  and a semaphore that counts them.
\<close>

section \<open>Sockets and their queues\<close>

record net_addr_t =
  family :: u16
  port :: u16
  ipv4 :: u32

abbreviation (input) AF_IPV4 :: u16 where "AF_IPV4 \<equiv> 1"

definition RECV_QUEUE_SIZE :: nat where "RECV_QUEUE_SIZE = 32"

record udp_pcb_t =
  udp_queue :: "addr list"
  recv_queue_head :: u32
  recv_queue_tail :: u32
  udp_sem :: semaphore_t

datatype resource_ops = No_ops | Socket_ops

record socket_resource_t =
  res_ops :: resource_ops
  res_mode :: u32
  sock_domain :: u32
  sock_type :: u32
  sock_protocol :: u32
  sock_state :: u32
  local_addr :: net_addr_t
  remote_addr :: net_addr_t
  pcb :: addr

record net_state = arp_state +
  net_devices :: "(string \<times> addr) list"
  udp_port_table :: "u16 \<Rightarrow> addr"
  udp_port_table_lock :: lock_t
  socket_at :: "addr \<Rightarrow> socket_resource_t"
  pcb_at :: "addr \<Rightarrow> udp_pcb_t"

definition udp_push :: "addr \<Rightarrow> udp_pcb_t \<Rightarrow> udp_pcb_t option" where
  "udp_push d b =
     (if (recv_queue_tail b + 1) mod 32 = recv_queue_head b then None
      else Some (b\<lparr>udp_queue := (udp_queue b)[unat (recv_queue_tail b) := d], recv_queue_tail := (recv_queue_tail b + 1) mod 32\<rparr>))"

section \<open>UDP\<close>

record udp_header_t =
  src_port :: u16
  dest_port :: u16
  payload_len :: u16
  checksum :: u16

definition udp_header_at :: "memory \<Rightarrow> addr \<Rightarrow> udp_header_t" where
  "udp_header_at m a = \<lparr>src_port = load16 m a, dest_port = load16 m (a + 2), payload_len = load16 m (a + 4), checksum = load16 m (a + 6)\<rparr>"

text \<open>The layout of a datagram: the address at 0, its port at 2 and IPv4 address at 4, the length at 24, the payload at 32.\<close>

definition store_datagram :: "addr \<Rightarrow> u8 list \<Rightarrow> u16 \<Rightarrow> u64 \<Rightarrow> u8 list \<Rightarrow> heap_state \<Rightarrow> heap_state" where
  "store_datagram d src_ip sport len payload h =
     heap_put (d + 32) payload
       (heap_put (d + 24) (le_bytes 8 len)
         (heap_put (d + 2) (le_bytes 2 sport)
           (heap_put d (le_bytes 2 AF_IPV4)
             (heap_put (d + 4) src_ip h))))"

definition net_handle_udp ::
  "cpu_ctx \<Rightarrow> nat \<Rightarrow> memory \<Rightarrow> addr \<Rightarrow> addr \<Rightarrow> u16 \<Rightarrow> ('z) net_state_scheme \<Rightarrow> sched_state \<Rightarrow>
     kstop + (cpu_ctx \<times> ('z) net_state_scheme \<times> sched_state)" where
  "net_handle_udp c k m ip payload plen s sc =
     (if plen < 8 then Inr (c, s, sc)
      else
        (let udp = udp_header_at m payload; sock = udp_port_table s (ntohs (dest_port udp))
         in if sock = 0 then Inr (c, s, sc)
            else
              (let pa = pcb (socket_at s sock); b = pcb_at s pa
               in if (recv_queue_tail b + 1) mod 32 = recv_queue_head b then Inr (c, s, sc)
                  else bindR (malloc c (32 + ucast plen - 8) (heap s)) (\<lambda>(d, h).
                    let h1 = store_datagram d (load_bytes m (ip + 12) 4) (src_port udp) (ucast plen - 8)
                               (load_bytes m (payload + 8) (unat (plen - 8))) h;
                        b1 = b\<lparr>udp_queue := (udp_queue b)[unat (recv_queue_tail b) := d],
                               recv_queue_tail := (recv_queue_tail b + 1) mod 32\<rparr>
                    in bindR (sem_signal c k (udp_sem b1) sc) (\<lambda>(c1, sem, sc1).
                         Inr (c1, s\<lparr>heap := h1, pcb_at := (pcb_at s)(pa := b1\<lparr>udp_sem := sem\<rparr>)\<rparr>, sc1))))))"

section \<open>ICMP\<close>

record icmp_header_t =
  icmp_type :: u8
  icmp_code :: u8
  icmp_checksum :: u16
  icmp_id :: u16
  icmp_sequence :: u16

definition icmp_header_at :: "memory \<Rightarrow> addr \<Rightarrow> icmp_header_t" where
  "icmp_header_at m a =
     \<lparr>icmp_type = m a, icmp_code = m (a + 1), icmp_checksum = load16 m (a + 2), icmp_id = load16 m (a + 4), icmp_sequence = load16 m (a + 6)\<rparr>"

definition icmp_header_bytes :: "icmp_header_t \<Rightarrow> u8 list" where
  "icmp_header_bytes h =
     [icmp_type h, icmp_code h] @ le_bytes 2 (icmp_checksum h) @ le_bytes 2 (icmp_id h) @ le_bytes 2 (icmp_sequence h)"

definition icmp_reply_body :: "memory \<Rightarrow> addr \<Rightarrow> u16 \<Rightarrow> u8 list" where
  "icmp_reply_body m payload plen =
     (let icmp = icmp_header_at m payload;
          hdr = \<lparr>icmp_type = 0, icmp_code = 0, icmp_checksum = 0, icmp_id = icmp_id icmp, icmp_sequence = icmp_sequence icmp\<rparr>
      in icmp_header_bytes hdr @ load_bytes m (payload + 8) (unat (plen - 8)))"

definition icmp_echo_reply :: "memory \<Rightarrow> network_device_t \<Rightarrow> addr \<Rightarrow> addr \<Rightarrow> addr \<Rightarrow> u16 \<Rightarrow> u8 list" where
  "icmp_echo_reply m d packet ip payload plen =
     (let body = icmp_reply_body m payload plen; cksum = net_checksum body
      in eth_build_header (load_bytes m (packet + 6) 6) (mac d) 0x0800 @
         ipv4_build_header (ip4 d) (load_bytes m (ip + 12) 4) 1 plen 64 @
         body[2 := ucast (cksum AND 0xFF), 3 := ucast (drop_bit 8 cksum AND 0xFF)])"

definition net_handle_icmp ::
  "memory \<Rightarrow> addr \<Rightarrow> addr \<Rightarrow> addr \<Rightarrow> addr \<Rightarrow> u16 \<Rightarrow> ('z) arp_state_scheme \<Rightarrow> ('z) arp_state_scheme" where
  "net_handle_icmp m device packet ip payload plen s =
     (if plen < 8 then s
      else if icmp_type (icmp_header_at m payload) = 8
        then snd (transmit device (icmp_echo_reply m (device_at s device) packet ip payload plen) (14 + 20 + plen) s)
        else s)"

section \<open>IPv4\<close>

record ipv4_header_t =
  version_ihl :: u8
  tos :: u8
  total_length :: u16
  ip_ident :: u16
  flags_frag :: u16
  ttl :: u8
  protocol :: u8
  ip_checksum :: u16
  src_ip :: "u8 list"
  dest_ip :: "u8 list"

definition ipv4_header_at :: "memory \<Rightarrow> addr \<Rightarrow> ipv4_header_t" where
  "ipv4_header_at m a =
     \<lparr>version_ihl = m a, tos = m (a + 1), total_length = load16 m (a + 2), ip_ident = load16 m (a + 4), flags_frag = load16 m (a + 6),
      ttl = m (a + 8), protocol = m (a + 9), ip_checksum = load16 m (a + 10),
      src_ip = load_bytes m (a + 12) 4, dest_ip = load_bytes m (a + 16) 4\<rparr>"

definition net_handle_ipv4 ::
  "cpu_ctx \<Rightarrow> nat \<Rightarrow> memory \<Rightarrow> addr \<Rightarrow> addr \<Rightarrow> u16 \<Rightarrow> ('z) net_state_scheme \<Rightarrow> sched_state \<Rightarrow>
     kstop + (cpu_ctx \<times> ('z) net_state_scheme \<times> sched_state)" where
  "net_handle_ipv4 c k m device packet len s sc =
     (if len < 34 then Inr (c, s, sc)
      else
        (let ip = packet + 14; h = ipv4_header_at m ip;
             version = drop_bit 4 (version_ihl h) AND 0x0F;
             ihl = version_ihl h AND 0x0F;
             header_len = ihl * 4
         in if version \<noteq> 4 then Inr (c, s, sc)
            else if dest_ip h \<noteq> ip4 (device_at s device) then Inr (c, s, sc)
            else
              (let payload = ip + ucast header_len;
                   total_len = ntohs (total_length h);
                   plen = total_len - ucast header_len
               in if protocol h = 1 then Inr (c, net_handle_icmp m device packet ip payload plen s, sc)
                  else if protocol h = 6 then Inr (c, s, sc)
                  else if protocol h = 17 then net_handle_udp c k m ip payload plen s sc
                  else Inr (c, s, sc))))"

section \<open>Devices and the network thread\<close>

definition net_get_device :: "string \<Rightarrow> ('z) net_state_scheme \<Rightarrow> addr" where
  "net_get_device identifier s = (case find (\<lambda>(i, d). i = identifier) (net_devices s) of Some (i, d) \<Rightarrow> d | None \<Rightarrow> 0)"

definition net_get_mac :: "string \<Rightarrow> ('z) net_state_scheme \<Rightarrow> u8 list option" where
  "net_get_mac devid s =
     (case find (\<lambda>(i, d). i = devid) (net_devices s) of Some (i, d) \<Rightarrow> Some (mac (device_at s d)) | None \<Rightarrow> None)"

abbreviation (input) ENODEV :: int where "ENODEV \<equiv> 19"

definition net_write :: "string \<Rightarrow> u8 list \<Rightarrow> u64 \<Rightarrow> ('z) net_state_scheme \<Rightarrow> int \<times> ('z) net_state_scheme" where
  "net_write devid bytes len s =
     (case find (\<lambda>(i, d). i = devid) (net_devices s) of
        Some (i, d) \<Rightarrow> transmit d bytes (ucast len) s
      | None \<Rightarrow> (- ENODEV, s))"

definition net_init :: "('z) net_state_scheme \<Rightarrow> bool \<times> ('z) net_state_scheme" where
  "net_init s = (if net_devices s = [] then (False, s) else (True, arp_pending_init s))"

definition packet_queue_init ::
  "cpu_ctx \<Rightarrow> packet_queue_t \<Rightarrow> u32 \<Rightarrow> heap_state \<Rightarrow> kstop + (packet_queue_t \<times> heap_state)" where
  "packet_queue_init c q n h =
     bindR (pmm_alloc c (ucast (n * 2048) div PAGE_SIZE) h) (\<lambda>(p, h1).
       bindR (malloc c (ucast n * 4) h1) (\<lambda>(meta, h2).
         Inr (q\<lparr>pq_data := p + HIGHER_HALF, pq_meta := replicate (unat n) \<lparr>meta_length = 0, meta_flags = 0\<rparr>,
                slot_count := n, slot_size := 2048, pq_head := 0, pq_tail := 0, packet_ready := sem_init (packet_ready q) 0\<rparr>, h2)))"

text \<open>One turn of the network thread: wait for a packet, take it off the ring, hand it to its protocol.\<close>

definition knetwork_dispatch ::
  "cpu_ctx \<Rightarrow> nat \<Rightarrow> memory \<Rightarrow> addr \<Rightarrow> ('z) net_state_scheme \<Rightarrow> sched_state \<Rightarrow>
     kstop + (cpu_ctx \<times> ('z) net_state_scheme \<times> sched_state)" where
  "knetwork_dispatch c k m device s sc =
     (let d = device_at s device; q = recv_queue d; head = pq_head q; tail = pq_tail q
      in if head = tail then Inr (c, s, sc)
         else
           (let packet_data = pq_data q + ucast (head * ucast (slot_size q));
                packet_len = meta_length (pq_meta q ! unat head);
                s1 = s\<lparr>device_at := (device_at s)(device := d\<lparr>recv_queue := q\<lparr>pq_head := (head + 1) mod slot_count q\<rparr>\<rparr>)\<rparr>;
                ethertype = push_bit 8 (ucast (m (packet_data + 12))) OR (ucast (m (packet_data + 13)) :: u16)
            in if ethertype = 0x0806 then bindR (net_handle_arp c m device packet_data packet_len s1) (\<lambda>s2. Inr (c, s2, sc))
               else if ethertype = 0x0800 then net_handle_ipv4 c k m device packet_data packet_len s1 sc
               else Inr (c, s1, sc)))"

definition knetwork_thread ::
  "cpu_ctx \<Rightarrow> nat \<Rightarrow> memory \<Rightarrow> addr \<Rightarrow> ('z) net_state_scheme \<Rightarrow> sched_state \<Rightarrow>
     kstop + (wait_outcome \<times> cpu_ctx \<times> ('z) net_state_scheme \<times> sched_state)" where
  "knetwork_thread c k m device s sc =
     (let d = device_at s device
      in bindR (sem_wait c k (packet_ready (recv_queue d)) sc) (\<lambda>(w, c1, sem, sc1).
           let s1 = s\<lparr>device_at := (device_at s)(device := d\<lparr>recv_queue := (recv_queue d)\<lparr>packet_ready := sem\<rparr>\<rparr>)\<rparr>
           in case w of
                Taken \<Rightarrow> bindR (knetwork_dispatch c1 k m device s1 sc1) (\<lambda>(c2, s2, sc2). Inr (Taken, c2, s2, sc2))
              | Blocked flags \<Rightarrow> Inr (Blocked flags, c1, s1, sc1)))"

section \<open>Boot configuration\<close>

definition netcfg_init :: "cpu_ctx \<Rightarrow> ('z) net_state_scheme \<Rightarrow> kstop + ('z) net_state_scheme" where
  "netcfg_init c s =
     (let eth0 = net_get_device ''eth0'' s
      in if eth0 = 0 then Inr s
         else bindR (route_add c (htonl 0x0A000200) (htonl 0xFFFFFF00) 0 eth0 0 ROUTE_FLAG_UP s) (\<lambda>(r1, s1).
                bindR (route_add c 0 0 (htonl 0x0A000202) eth0 100 (ROUTE_FLAG_UP OR ROUTE_FLAG_GATEWAY) s1) (\<lambda>(r2, s2). Inr s2)))"

section \<open>Echo requests are answered\<close>

lemma load_bytes_append: "load_bytes m a (i + j) = load_bytes m a i @ load_bytes m (a + of_nat i) j"
  by (rule nth_equalityI) (auto simp: load_bytes_def nth_append add.assoc simp flip: of_nat_add)

lemma le_bytes_load16: "le_bytes 2 (load16 m a) = load_bytes m a 2"
  using le_bytes_le_word [of "load_bytes m a 2", where 'a = 16] by (simp add: load16_def)

lemma icmp_reply_body_bytes:
  assumes "8 \<le> n"
  shows "icmp_reply_body m payload n = [0, 0, 0, 0] @ load_bytes m (payload + 4) (unat n - 4)"
    and "length (icmp_reply_body m payload n) = unat n"
proof -
  have n: "unat (n - 8) = unat n - 8" "8 \<le> unat n" using assms by (simp_all add: unat_sub word_le_nat_alt)
  have a: "payload + 4 + 2 = payload + 6" "payload + 6 + 2 = payload + 8" by simp_all
  have "load_bytes m (payload + 4) (2 + (2 + (unat n - 8))) =
      load_bytes m (payload + 4) 2 @ load_bytes m (payload + 6) 2 @ load_bytes m (payload + 8) (unat n - 8)"
    unfolding load_bytes_append by (simp add: a)
  moreover have "2 + (2 + (unat n - 8)) = unat n - 4" using n(2) by simp
  moreover have "le_bytes 2 (0 :: u16) = [0, 0]" by (simp add: numeral_2_eq_2)
  ultimately show b: "icmp_reply_body m payload n = [0, 0, 0, 0] @ load_bytes m (payload + 4) (unat n - 4)"
    by (simp add: icmp_reply_body_def Let_def icmp_header_bytes_def icmp_header_at_def le_bytes_load16 n(1))
  show "length (icmp_reply_body m payload n) = unat n" unfolding b using n(2) by simp
qed

lemma icmp_reply_sum:
  fixes m :: memory and payload :: addr and n :: u16
  assumes "8 \<le> n"
  defines "body \<equiv> icmp_reply_body m payload n"
  defines "reply \<equiv> body[2 := ucast (net_checksum body AND 0xFF), 3 := ucast (drop_bit 8 (net_checksum body) AND 0xFF)]"
  shows "rfc1071_sum reply = 65535" and "length reply = unat n" and "take 2 reply = [0, 0]"
    and "drop 4 reply = load_bytes m (payload + 4) (unat n - 4)"
proof -
  note b = icmp_reply_body_bytes [OF assms(1), of m payload, folded body_def]
  have n: "8 \<le> unat n" "unat n < 65536" using assms(1) u16_less [of n] by (simp_all add: word_le_nat_alt)
  have "body ! 2 = 0" "body ! Suc 2 = 0" unfolding b(1) by simp_all
  then show "rfc1071_sum reply = 65535" using checksum_inserted [of 2 body] b(2) n by (simp add: reply_def numeral_3_eq_3)
  show "length reply = unat n" by (simp add: reply_def b(2))
  have "reply = [0, 0, ucast (net_checksum body AND 0xFF), ucast (drop_bit 8 (net_checksum body) AND 0xFF)] @
      load_bytes m (payload + 4) (unat n - 4)"
    unfolding reply_def by (subst b(1)) (simp add: numeral_2_eq_2 numeral_3_eq_3)
  then show "take 2 reply = [0, 0]" "drop 4 reply = load_bytes m (payload + 4) (unat n - 4)" by simp_all
qed

text \<open>
  C28: An ICMP echo request addressed to the device is answered with exactly one frame: to the sender's hardware
  address, with source and destination address exchanged, type and code zero, the identifier, sequence number
  and data of the request, and IPv4 and ICMP checksums that verify.  Nothing else changes.
\<close>

theorem icmp_echo_replied:
  assumes "34 \<le> len" and "h = ipv4_header_at m (packet + 14)" and "version_ihl h = 0x45" and "protocol h = 1"
    and "d = device_at s device" and "dest_ip h = ip4 d" and "length (mac d) = 6"
    and "ntohs (total_length h) = 20 + n" and "8 \<le> n" and "n \<le> 65501" and "m (packet + 34) = 8"
  shows "\<exists>frame. net_handle_ipv4 c k m device packet len s sc = Inr (c, s\<lparr>transmitted := transmitted s @ [(device, frame)]\<rparr>, sc) \<and>
    length frame = 34 + unat n \<and> take 14 frame = load_bytes m (packet + 6) 6 @ mac d @ [0x08, 0x00] \<and>
    rfc1071_sum (take 20 (drop 14 frame)) = 65535 \<and> take 8 (drop 26 frame) = ip4 d @ src_ip h \<and>
    rfc1071_sum (drop 34 frame) = 65535 \<and> take 2 (drop 34 frame) = [0, 0] \<and>
    drop 38 frame = load_bytes m (packet + 38) (unat n - 4)"
proof -
  let ?p = "packet + 34"
  have ip: "length (ip4 d) = 4" "length (src_ip h) = 4" "src_ip h = load_bytes m (packet + 26) 4"
    using assms(2) assms(6) [symmetric] by (simp_all add: ipv4_header_at_def ac_simps)
  define icmp where "icmp = (let body = icmp_reply_body m ?p n
    in body[2 := ucast (net_checksum body AND 0xFF), 3 := ucast (drop_bit 8 (net_checksum body) AND 0xFF)])"
  note sum = icmp_reply_sum [OF assms(9), of m ?p, folded icmp_def [unfolded Let_def]]
  define eth where "eth = load_bytes m (packet + 6) 6 @ mac d @ [0x08, 0x00 :: u8]"
  define iph where "iph = ipv4_build_header (ip4 d) (src_ip h) 1 n 64"
  define frame where "frame = eth @ iph @ icmp"
  obtain ck where "iph = [0x45, 0, ucast (drop_bit 8 (20 + n)), ucast (20 + n), 0, 0, 0x40, 0, 64, 1, ucast ck, ucast (drop_bit 8 (ck :: u16))]
      @ ip4 d @ src_ip h" unfolding iph_def using ip(1,2) by (rule ipv4_header_fields)
  then have iph: "length iph = 20" "take 8 (drop 12 iph) = ip4 d @ src_ip h" using ip(1,2) by simp_all
  have iph_sum: "rfc1071_sum iph = 65535" unfolding iph_def using ip(1,2) by (rule ipv4_header_sum)
  have eth: "length eth = 14" "eth = eth_build_header (load_bytes m (packet + 6) 6) (mac d) 0x0800"
    using assms(7) by (simp_all add: eth_def eth_build_header_def)
  have reply: "icmp_echo_reply m d packet (packet + 14) ?p n = frame"
    by (simp add: icmp_echo_reply_def frame_def eth(2) iph_def icmp_def ip(3) Let_def add.assoc)
  have len: "length frame = 34 + unat n" using eth(1) iph(1) sum(2) by (simp add: frame_def)
  have tl: "unat (14 + 20 + n) = 34 + unat n" using assms(10) by (simp add: unat_word_ariths word_le_nat_alt)
  have "net_handle_ipv4 c k m device packet len s sc = Inr (c, net_handle_icmp m device packet (packet + 14) ?p n s, sc)"
    using assms(1-6,8) unfolding net_handle_ipv4_def by (simp add: Let_def not_less [symmetric] add.assoc)
  moreover have "net_handle_icmp m device packet (packet + 14) ?p n s = s\<lparr>transmitted := transmitted s @ [(device, frame)]\<rparr>"
    using assms(5,9,11) reply len tl by (simp add: net_handle_icmp_def icmp_header_at_def transmit_def not_less [symmetric])
  moreover have "take 14 frame = eth" "take 20 (drop 14 frame) = iph" "drop 34 frame = icmp" "take 8 (drop 26 frame) = ip4 d @ src_ip h"
    using eth(1) iph(1,2) ip(1,2) by (simp_all add: frame_def)
  moreover have "drop 38 frame = drop 4 (drop 34 frame)" by simp
  ultimately show ?thesis using len iph_sum sum by (intro exI [of _ frame]) (simp add: eth_def add.assoc)
qed

section \<open>Rings with 32-bit indices\<close>

lemma u32_ring:
  fixes h t :: u32
  assumes "length xs = N" and "N < 2 ^ 31" and "unat h < N" and "unat t < N"
  defines "next \<equiv> \<lambda>w. (w + 1) mod of_nat N"
  shows "unat (next t) = Suc (unat t) mod N" and "unat (next t) < N"
    and "next t = h \<longleftrightarrow> length (ring_list xs (unat h) (unat t)) = N - 1"
    and "next t \<noteq> h \<Longrightarrow> ring_list (xs[unat t := x]) (unat h) (unat (next t)) = ring_list xs (unat h) (unat t) @ [x]"
    and "ring_list xs (unat h) (unat t) = [] \<longleftrightarrow> h = t"
proof -
  have N: "unat (of_nat N :: u32) = N" using assms(2) by (simp add: unat_of_nat)
  have "unat (t + 1) = Suc (unat t)" using assms(2,4) by (simp add: unat_word_ariths)
  then show n: "unat (next t) = Suc (unat t) mod N" unfolding next_def by (simp add: unat_mod N)
  then show "unat (next t) < N" using assms(4) by (simp only:) simp
  show full: "next t = h \<longleftrightarrow> length (ring_list xs (unat h) (unat t)) = N - 1"
    using ring_full [OF assms(3,4)] n assms(1) by (simp flip: unat_inject)
  show "ring_list (xs[unat t := x]) (unat h) (unat (next t)) = ring_list xs (unat h) (unat t) @ [x]" if "next t \<noteq> h"
    using ring_push [of "unat h" xs "unat t" x] assms(1,3,4) n that by (simp flip: unat_inject)
  show "ring_list xs (unat h) (unat t) = [] \<longleftrightarrow> h = t"
    using ring_list_Nil [of "unat h" xs "unat t"] assms(1,3,4) by (simp add: unat_inject)
qed

section \<open>The receive queue of a socket\<close>

definition pcb_inv :: "udp_pcb_t \<Rightarrow> bool" where
  "pcb_inv b \<longleftrightarrow> length (udp_queue b) = RECV_QUEUE_SIZE \<and> unat (recv_queue_head b) < 32 \<and> unat (recv_queue_tail b) < 32"

definition udp_waiting :: "udp_pcb_t \<Rightarrow> addr list" where
  "udp_waiting b = ring_list (udp_queue b) (unat (recv_queue_head b)) (unat (recv_queue_tail b))"

definition udp_pop :: "udp_pcb_t \<Rightarrow> (addr \<times> udp_pcb_t) option" where
  "udp_pop b =
     (if recv_queue_head b \<noteq> recv_queue_tail b
      then Some (udp_queue b ! unat (recv_queue_head b), b\<lparr>recv_queue_head := (recv_queue_head b + 1) mod 32\<rparr>)
      else None)"

interpretation udpq: bounded_fifo pcb_inv udp_waiting 31 udp_push udp_pop
proof
  fix b x
  assume inv: "pcb_inv b"
  then have l: "length (udp_queue b) = 32" "unat (recv_queue_head b) < 32" "unat (recv_queue_tail b) < 32"
    by (simp_all add: pcb_inv_def RECV_QUEUE_SIZE_def)
  note r = u32_ring [OF l(1) _ l(2,3), simplified, folded udp_waiting_def]
  show "\<exists>b'. udp_push x b = Some b' \<and> pcb_inv b' \<and> udp_waiting b' = udp_waiting b @ [x]" if "length (udp_waiting b) < 31"
    using that r l by (auto simp: udp_push_def pcb_inv_def RECV_QUEUE_SIZE_def udp_waiting_def)
  show "udp_push x b = None" if "31 \<le> length (udp_waiting b)"
  proof -
    have "length (udp_waiting b) < 32" using ring_count_less [OF l(2,3)] by (simp add: udp_waiting_def l(1))
    then show ?thesis using that r(3) by (simp add: udp_push_def udp_waiting_def)
  qed
  show "udp_pop b = None" if "udp_waiting b = []" using that r(5) by (simp add: udp_pop_def)
  show "\<exists>b'. udp_pop b = Some (x, b') \<and> pcb_inv b' \<and> udp_waiting b' = xs" if q: "udp_waiting b = x # xs" for xs
  proof -
    have ne: "recv_queue_head b \<noteq> recv_queue_tail b" using q r(5) by auto
    note n = u32_ring [OF l(1) _ l(3,2), simplified]
    show ?thesis using ring_pop [of "unat (recv_queue_head b)" "udp_queue b" "unat (recv_queue_tail b)"] ne q l n(1,2)
      by (auto simp: udp_pop_def udp_waiting_def pcb_inv_def RECV_QUEUE_SIZE_def unat_inject)
  qed
qed

section \<open>Datagrams in the heap\<close>

definition datagram_at :: "heap_state \<Rightarrow> addr \<Rightarrow> u8 list \<Rightarrow> u16 \<Rightarrow> u8 list \<Rightarrow> bool" where
  "datagram_at h d sip sport payload \<longleftrightarrow>
     load_bytes (mem h) d 2 = le_bytes 2 AF_IPV4 \<and> load_bytes (mem h) (d + 2) 2 = le_bytes 2 sport \<and>
     load_bytes (mem h) (d + 4) 4 = sip \<and> load_bytes (mem h) (d + 24) 8 = le_bytes 8 (of_nat (length payload) :: u64) \<and>
     load_bytes (mem h) (d + 32) (length payload) = payload"

lemma store_datagram_spec:
  assumes "heap_has h L" and "(d, k) \<in> L" and "32 + length payload \<le> k" and "length sip = 4"
  shows "heap_has (store_datagram d sip sport (of_nat (length payload)) payload h) L"
    and "datagram_at (store_datagram d sip sport (of_nat (length payload)) payload h) d sip sport payload"
    and "(q, j) \<in> L \<Longrightarrow> (q, j) \<noteq> (d, k) \<Longrightarrow> load_bytes (mem (store_datagram d sip sport (of_nat (length payload)) payload h)) q j = load_bytes (mem h) q j"
proof -
  have off: "d = d + of_nat 0" "d + 2 = d + of_nat 2" "d + 4 = d + of_nat 4" "d + 24 = d + of_nat 24" "d + 32 = d + of_nat 32" by simp_all
  define h1 where "h1 = heap_put (d + of_nat 4) sip h"
  define h2 where "h2 = heap_put (d + of_nat 0) (le_bytes 2 AF_IPV4) h1"
  define h3 where "h3 = heap_put (d + of_nat 2) (le_bytes 2 sport) h2"
  define h4 where "h4 = heap_put (d + of_nat 24) (le_bytes 8 (of_nat (length payload) :: u64)) h3"
  define h5 where "h5 = heap_put (d + of_nat 32) payload h4"
  have e: "store_datagram d sip sport (of_nat (length payload)) payload h = h5"
    unfolding store_datagram_def h5_def h4_def h3_def h2_def h1_def by simp
  note p1 = kheap.put_inside [OF assms(1,2), of 4 sip, folded h1_def]
  have i1: "heap_has h1 L" using p1(1) assms(3,4) by simp
  note p2 = kheap.put_inside [OF i1 assms(2), of 0 "le_bytes 2 AF_IPV4", folded h2_def]
  have i2: "heap_has h2 L" using p2(1) assms(3) by simp
  note p3 = kheap.put_inside [OF i2 assms(2), of 2 "le_bytes 2 sport", folded h3_def]
  have i3: "heap_has h3 L" using p3(1) assms(3) by simp
  note p4 = kheap.put_inside [OF i3 assms(2), of 24 "le_bytes 8 (of_nat (length payload) :: u64)", folded h4_def]
  have i4: "heap_has h4 L" using p4(1) assms(3) by simp
  note p5 = kheap.put_inside [OF i4 assms(2), of 32 payload, folded h5_def]
  show "heap_has (store_datagram d sip sport (of_nat (length payload)) payload h) L" unfolding e using p5(1) assms(3) by simp
  have b: "4 + length sip \<le> k" "0 + length (le_bytes 2 AF_IPV4) \<le> k" "2 + length (le_bytes 2 sport) \<le> k"
    "24 + length (le_bytes 8 (of_nat (length payload) :: u64)) \<le> k" "32 + length payload \<le> k" using assms(3,4) by simp_all
  have "load_bytes (mem h5) (d + of_nat 0) 2 = le_bytes 2 AF_IPV4"
    using p5(3) [OF b(5), of 0 2] p4(3) [OF b(4), of 0 2] p3(3) [OF b(3), of 0 2] p2(2) [OF b(2)] assms(3) by simp
  moreover have "load_bytes (mem h5) (d + of_nat 2) 2 = le_bytes 2 sport"
    using p5(3) [OF b(5), of 2 2] p4(3) [OF b(4), of 2 2] p3(2) [OF b(3)] assms(3) by simp
  moreover have "load_bytes (mem h5) (d + of_nat 4) 4 = sip"
    using p5(3) [OF b(5), of 4 4] p4(3) [OF b(4), of 4 4] p3(3) [OF b(3), of 4 4] p2(3) [OF b(2), of 4 4] p1(2) [OF b(1)] assms(3,4) by simp
  moreover have "load_bytes (mem h5) (d + of_nat 24) 8 = le_bytes 8 (of_nat (length payload) :: u64)"
    using p5(3) [OF b(5), of 24 8] p4(2) [OF b(4)] assms(3) by simp
  moreover have "load_bytes (mem h5) (d + of_nat 32) (length payload) = payload" using p5(2) [OF b(5)] by simp
  ultimately show "datagram_at (store_datagram d sip sport (of_nat (length payload)) payload h) d sip sport payload"
    unfolding e datagram_at_def by simp
  show "load_bytes (mem (store_datagram d sip sport (of_nat (length payload)) payload h)) q j = load_bytes (mem h) q j"
    if "(q, j) \<in> L" "(q, j) \<noteq> (d, k)"
    unfolding e using p5(4) [OF b(5) that, of j] p4(4) [OF b(4) that, of j] p3(4) [OF b(3) that, of j] p2(4) [OF b(2) that, of j] p1(4) [OF b(1) that, of j]
    by simp
qed

section \<open>Delivery of a datagram\<close>

text \<open>The state after the datagram \<open>d\<close> with the given source and payload has joined the queue \<open>pa\<close>.\<close>

definition udp_delivered ::
  "('z) net_state_scheme \<Rightarrow> (addr \<times> nat) set \<Rightarrow> addr \<Rightarrow> u8 list \<Rightarrow> u16 \<Rightarrow> u8 list \<Rightarrow> addr \<Rightarrow> ('z) net_state_scheme \<Rightarrow> (addr \<times> nat) set \<Rightarrow> bool" where
  "udp_delivered s L pa sip sport payload d s' L' \<longleftrightarrow>
     s' = s\<lparr>heap := heap s', pcb_at := (pcb_at s)(pa := pcb_at s' pa)\<rparr> \<and>
     (\<exists>k\<ge>32 + length payload. L' = insert (d, k) L) \<and> (\<forall>k. (d, k) \<notin> L) \<and> d \<noteq> 0 \<and> heap_has (heap s') L' \<and>
     datagram_at (heap s') d sip sport payload \<and>
     (\<forall>(q, j)\<in>L. load_bytes (mem (heap s')) q j = load_bytes (mem (heap s)) q j) \<and>
     pcb_inv (pcb_at s' pa) \<and> udp_waiting (pcb_at s' pa) = udp_waiting (pcb_at s pa) @ [d] \<and>
     sem_ok (udp_sem (pcb_at s' pa)) \<and> sem_abs (udp_sem (pcb_at s' pa)) = spec_signal (sem_abs (udp_sem (pcb_at s pa)))"

lemma fresh_block:
  assumes "heap_has h (insert (d, k) L)" and "\<forall>(q, j)\<in>L. disjoint_regions d k q j" and "heap_has h0 L"
  shows "(d, j) \<notin> L"
proof
  assume d: "(d, j) \<in> L"
  then have "disjoint_regions d k d j" using assms(2) by blast
  moreover have "in_range d k d" "in_range d j d" using kheap.live_size [OF assms(1), of d k] kheap.live_size [OF assms(3) d] by (simp_all add: in_range_def)
  ultimately show False by (auto simp: disjoint_regions_def)
qed

text \<open>A queue with room after the next datagram has been entered.\<close>

abbreviation udp_enter :: "addr \<Rightarrow> udp_pcb_t \<Rightarrow> udp_pcb_t" where
  "udp_enter d b \<equiv> b\<lparr>udp_queue := (udp_queue b)[unat (recv_queue_tail b) := d], recv_queue_tail := (recv_queue_tail b + 1) mod 32\<rparr>"

lemma udp_enter_spec:
  assumes "pcb_inv b"
  shows "(recv_queue_tail b + 1) mod 32 = recv_queue_head b \<longleftrightarrow> length (udp_waiting b) = 31"
    and "length (udp_waiting b) \<noteq> 31 \<Longrightarrow> pcb_inv (udp_enter d b)"
    and "length (udp_waiting b) \<noteq> 31 \<Longrightarrow> udp_waiting (udp_enter d b) = udp_waiting b @ [d]"
proof -
  have b: "length (udp_queue b) = 32" "unat (recv_queue_head b) < 32" "unat (recv_queue_tail b) < 32"
    using assms by (simp_all add: pcb_inv_def RECV_QUEUE_SIZE_def)
  show full: "(recv_queue_tail b + 1) mod 32 = recv_queue_head b \<longleftrightarrow> length (udp_waiting b) = 31"
    using u32_ring(3) [OF b(1) _ b(2,3), simplified] by (simp add: udp_waiting_def b(1))
  have "length (udp_waiting b) < 32" using ring_count_less [OF b(2,3)] by (simp add: udp_waiting_def b(1))
  then show "pcb_inv (udp_enter d b)" "udp_waiting (udp_enter d b) = udp_waiting b @ [d]" if "length (udp_waiting b) \<noteq> 31"
    using udpq.push_room [OF assms, of d] full that by (auto simp: udp_push_def)
qed

lemma udp_store_delivers:
  assumes "heap_has (heap s) L" and "malloc c (of_nat (32 + length payload)) (heap s) = Inr (d, h)" and "length payload < 65536" and "length sip = 4"
    and "pcb_inv (pcb_at s pa)" and "length (udp_waiting (pcb_at s pa)) \<noteq> 31"
    and "sem_ok sem" and "sem_abs sem = spec_signal (sem_abs (udp_sem (pcb_at s pa)))"
  shows "\<exists>L'. udp_delivered s L pa sip sport payload d
    (s\<lparr>heap := store_datagram d sip sport (of_nat (length payload)) payload h,
       pcb_at := (pcb_at s)(pa := (udp_enter d (pcb_at s pa))\<lparr>udp_sem := sem\<rparr>)\<rparr>) L'"
proof -
  let ?h = "store_datagram d sip sport (of_nat (length payload)) payload h"
  have sz: "unat (of_nat (32 + length payload) :: u64) = 32 + length payload" using assms(3) by (intro unat_of_nat_u64) simp
  then have "unat (of_nat (32 + length payload) :: u64) < 2 ^ 63" using assms(3) by simp
  from kheap.alloc_fresh [OF assms(1) this assms(2)] obtain k where k: "32 + length payload \<le> k" "d \<noteq> 0" "heap_has h (insert (d, k) L)"
    "\<forall>(q, j)\<in>L. disjoint_regions d k q j \<and> (\<forall>x. in_range q j x \<longrightarrow> mem h x = mem (heap s) x)" unfolding sz by blast
  have fresh: "(d, j) \<notin> L" for j using fresh_block [OF k(3) _ assms(1)] k(4) by blast
  note st = store_datagram_spec [OF k(3) insertI1 k(1) assms(4), where sport = sport]
  have keep: "load_bytes (mem ?h) q j = load_bytes (mem (heap s)) q j" if q: "(q, j) \<in> L" for q j
  proof -
    have "load_bytes (mem h) q j = load_bytes (mem (heap s)) q j" using k(4) q by (intro kheap.block_bytes_cong [of q j]) auto
    then show ?thesis using st(3) [of q j] fresh [of j] q by (cases "q = d") auto
  qed
  have "pcb_inv ((udp_enter d (pcb_at s pa))\<lparr>udp_sem := sem\<rparr>)" "udp_waiting ((udp_enter d (pcb_at s pa))\<lparr>udp_sem := sem\<rparr>) = udp_waiting (pcb_at s pa) @ [d]"
    using udp_enter_spec(2,3) [OF assms(5,6), of d] by (simp_all add: pcb_inv_def udp_waiting_def)
  then show ?thesis using k(1,2) fresh st(1,2) keep assms(7,8)
    by (intro exI [of _ "insert (d, k) L"]) (auto simp: udp_delivered_def)
qed

lemma net_handle_udp_spec:
  assumes "heap_has (heap s) L" and "8 \<le> plen" and "sock = udp_port_table s (ntohs (dest_port (udp_header_at m payload)))" and "sock \<noteq> 0"
    and "pa = pcb (socket_at s sock)" and "pcb_inv (pcb_at s pa)" and "sem_ok (udp_sem (pcb_at s pa))"
    and "sint (sem_count (udp_sem (pcb_at s pa))) < 2 ^ 63 - 1"
  shows "if length (udp_waiting (pcb_at s pa)) = 31 then net_handle_udp c k m ip payload plen s sc = Inr (c, s, sc)
    else case net_handle_udp c k m ip payload plen s sc of
        Inl e \<Rightarrow> e = Panic ''Kernel OOM'' \<and> malloc c (32 + ucast plen - 8) (heap s) = Inl e
      | Inr (c', s', sc') \<Rightarrow>
          (\<exists>d L'. udp_delivered s L pa (load_bytes m (ip + 12) 4) (src_port (udp_header_at m payload)) (load_bytes m (payload + 8) (unat plen - 8)) d s' L') \<and>
          sc' = (case sem_waiting (udp_sem (pcb_at s pa)) of [] \<Rightarrow> sc | t # _ \<Rightarrow> snd (enqueue_thread t False sc))"
proof -
  let ?b = "pcb_at s pa"
  note en = udp_enter_spec [OF assms(6)]
  define n where "n = unat plen - 8"
  let ?sip = "load_bytes m (ip + 12) 4" and ?sport = "src_port (udp_header_at m payload)" and ?data = "load_bytes m (payload + 8) n"
  have pl: "\<not> plen < 8" "8 \<le> unat plen" "unat (plen - 8) = n" "n < 65528"
    using assms(2) u16_less [of plen] by (simp_all add: unat_sub word_le_nat_alt word_less_nat_alt n_def)
  have sz: "32 + ucast plen - 8 = (of_nat (32 + n) :: u64)" "ucast plen - 8 = (of_nat n :: u64)"
    using pl(2) by (simp_all add: n_def of_nat_diff)
  show ?thesis
  proof (cases "length (udp_waiting ?b) = 31")
    case True
    then show ?thesis using en(1) pl(1) assms(3-5) by (simp add: net_handle_udp_def Let_def)
  next
    case False
    obtain c' sem' where sig: "sem_signal c k (udp_sem ?b) sc = Inr (c', sem',
        case sem_waiting (udp_sem ?b) of [] \<Rightarrow> sc | t # _ \<Rightarrow> snd (enqueue_thread t False sc))"
      "sem_ok sem'" "sem_abs sem' = spec_signal (sem_abs (udp_sem ?b))"
      by (rule sem_signal_spec [OF assms(7,8)])
    have run: "net_handle_udp c k m ip payload plen s sc = bindR (malloc c (of_nat (32 + n)) (heap s)) (\<lambda>(d, h).
        Inr (c', s\<lparr>heap := store_datagram d ?sip ?sport (of_nat n) ?data h, pcb_at := (pcb_at s)(pa := (udp_enter d ?b)\<lparr>udp_sem := sem'\<rparr>)\<rparr>,
             case sem_waiting (udp_sem ?b) of [] \<Rightarrow> sc | t # _ \<Rightarrow> snd (enqueue_thread t False sc)))"
      using False en(1) pl(1) assms(3-5) sig(1) unfolding net_handle_udp_def Let_def sz pl(3) by simp
    show ?thesis
    proof (cases "malloc c (of_nat (32 + n)) (heap s)")
      case (Inl e)
      have "unat (of_nat (32 + n) :: u64) < 2 ^ 63" using pl(4) by (subst unat_of_nat_u64) simp_all
      then show ?thesis using kheap.alloc_stops [OF assms(1) _ Inl] False Inl unfolding sz run by simp
    next
      case (Inr r)
      obtain d h where r: "malloc c (of_nat (32 + n)) (heap s) = Inr (d, h)" using Inr by (cases r) simp
      then show ?thesis using False udp_store_delivers [OF assms(1), of c ?data d h ?sip pa sem' ?sport] assms(6) sig(2,3) pl(4)
        unfolding run n_def [symmetric] by auto
    qed
  qed
qed

text \<open>
  C29: A UDP datagram for a bound port is dropped exactly when the socket's queue holds 31 datagrams.  Otherwise,
  unless the heap is exhausted, a fresh heap block with its source and payload is appended to the queue, every
  other block keeps its contents, and the queue's semaphore is signalled once.
\<close>

theorem udp_datagram_queued:
  assumes "heap_has (heap s) L" and "8 \<le> plen" and "sock = udp_port_table s (ntohs (dest_port (udp_header_at m payload)))" and "sock \<noteq> 0"
    and "pa = pcb (socket_at s sock)" and "pcb_inv (pcb_at s pa)" and "sem_ok (udp_sem (pcb_at s pa))"
    and "sint (sem_count (udp_sem (pcb_at s pa))) < 2 ^ 63 - 1"
  shows "if length (udp_waiting (pcb_at s pa)) = 31 then net_handle_udp c k m ip payload plen s sc = Inr (c, s, sc)
    else case net_handle_udp c k m ip payload plen s sc of
        Inl e \<Rightarrow> e = Panic ''Kernel OOM''
      | Inr (c', s', sc') \<Rightarrow>
          (\<exists>d L'. udp_delivered s L pa (load_bytes m (ip + 12) 4) (src_port (udp_header_at m payload)) (load_bytes m (payload + 8) (unat plen - 8)) d s' L') \<and>
          sc' = (case sem_waiting (udp_sem (pcb_at s pa)) of [] \<Rightarrow> sc | t # _ \<Rightarrow> snd (enqueue_thread t False sc))"
  using net_handle_udp_spec [OF assms, where c = c and k = k and ip = ip and sc = sc] by (auto split: if_splits sum.splits)

section \<open>Concrete packets\<close>

definition demo_pcb :: udp_pcb_t where
  "demo_pcb = \<lparr>udp_queue = replicate 32 0, recv_queue_head = 0, recv_queue_tail = 0, udp_sem = demo_sem []\<rparr>"

definition demo_socket :: socket_resource_t where
  "demo_socket =
     \<lparr>res_ops = Socket_ops, res_mode = 0xC000, sock_domain = 1, sock_type = 2, sock_protocol = 1, sock_state = 1,
      local_addr = \<lparr>family = 1, port = 0x3500, ipv4 = 0\<rparr>, remote_addr = \<lparr>family = 0, port = 0, ipv4 = 0\<rparr>, pcb = 0x7000\<rparr>"

text \<open>A machine at 10.0.2.15 with a socket on port 53.\<close>

definition demo_net :: "heap_state \<Rightarrow> net_state" where
  "demo_net h =
     \<lparr>route_table = route_table (qemu_routes 0x9000), route_table_lock = route_table_lock (qemu_routes 0x9000),
      device_at = (\<lambda>d. demo_device), arp_cache = replicate 32 \<lparr>arp_ip = [0, 0, 0, 0], arp_mac = [0, 0, 0, 0, 0, 0]\<rparr>, last_arp_cache_entry = 0,
      arp_pending_queue = replicate 32 arp_pending_none, arp_pending_head = 0, arp_pending_tail = 0, heap = h, transmitted = [],
      net_devices = [(''eth0'', 0x9000)], udp_port_table = (\<lambda>p. if p = 53 then 0x6000 else 0), udp_port_table_lock = LOCK_INITIALIZER None,
      socket_at = (\<lambda>a. demo_socket), pcb_at = (\<lambda>a. demo_pcb)\<rparr>"

text \<open>An echo request of 10.0.2.2, and the payload of a UDP packet for port 53.\<close>

definition demo_ping :: memory where
  "demo_ping a =
     [0x52, 0x54, 0, 0x12, 0x34, 0x56, 0x52, 0x55, 10, 0, 2, 2, 8, 0,
      0x45, 0, 0, 28, 0, 0, 0, 0, 64, 1, 0, 0, 10, 0, 2, 2, 10, 0, 2, 15, 8, 0, 0, 0, 0x12, 0x34, 0, 1] ! unat (a - 0x1000)"

definition demo_query :: memory where
  "demo_query a = (if unat a = 0x2002 then 0 else if unat a = 0x2003 then 53 else 7)"

theorem icmp_echo_replied_witness:
  "\<exists>frame. net_handle_ipv4 (debug_cpu 0) 0 demo_ping 0x9000 0x1000 42 (demo_net demo_heap) demo_sched =
       Inr (debug_cpu 0, (demo_net demo_heap)\<lparr>transmitted := [(0x9000, frame)]\<rparr>, demo_sched) \<and>
     rfc1071_sum (drop 34 frame) = 65535 \<and> drop 38 frame = [0x12, 0x34, 0, 1]"
proof -
  let ?h = "ipv4_header_at demo_ping (0x1000 + 14)" and ?d = "device_at (demo_net demo_heap) 0x9000"
  have hd: "version_ihl ?h = 0x45" "protocol ?h = 1" "dest_ip ?h = ip4 ?d" "length (mac ?d) = 6" "ntohs (total_length ?h) = 20 + 8"
    "demo_ping (0x1000 + 34) = 8"
    by (simp_all add: ipv4_header_at_def demo_ping_def demo_net_def demo_device_def load_bytes_def load16_def upt_rec ntohs_def)
  have "34 \<le> (42 :: u16)" "8 \<le> (8 :: u16)" "8 \<le> (65501 :: u16)" by simp_all
  note e = icmp_echo_replied [OF this(1) refl hd(1,2) refl hd(3,4,5) this(2,3) hd(6), where c = "debug_cpu 0" and k = 0 and sc = demo_sched]
  moreover have "load_bytes demo_ping (0x1000 + 38) (unat (8 :: u16) - 4) = [0x12, 0x34, 0, 1]"
    by (simp add: load_bytes_def upt_rec demo_ping_def)
  moreover have "transmitted (demo_net demo_heap) = []" by (simp add: demo_net_def)
  ultimately show ?thesis by auto
qed

theorem udp_datagram_queued_witness:
  "\<exists>c' s' sc' L d L'. net_handle_udp (debug_cpu 0) 0 demo_query 0x1F00 0x2000 76 (demo_net demo_heap) demo_sched = Inr (c', s', sc') \<and>
     udp_delivered (demo_net demo_heap) L 0x7000 [7, 7, 7, 7] 0x0707 (replicate 68 7) d s' L'"
proof -
  let ?s = "demo_net demo_heap"
  have hdr: "ntohs (dest_port (udp_header_at demo_query 0x2000)) = 53" "src_port (udp_header_at demo_query 0x2000) = 0x0707"
    by (simp_all add: udp_header_at_def load16_def load_bytes_def upt_rec demo_query_def ntohs_def)
  have data: "load_bytes demo_query (0x1F00 + 12) 4 = [7, 7, 7, 7]" by (simp add: load_bytes_def upt_rec demo_query_def)
  have pay: "load_bytes demo_query (0x2000 + 8) (unat (76 :: u16) - 8) = replicate 68 7"
  proof (rule nth_equalityI)
    fix i
    assume "i < length (load_bytes demo_query (0x2000 + 8) (unat (76 :: u16) - 8))"
    then have "i < 68" by simp
    then have "unat (0x2008 + of_nat i :: u64) = 0x2008 + i" by (simp add: unat_word_ariths unat_of_nat_u64)
    then show "load_bytes demo_query (0x2000 + 8) (unat (76 :: u16) - 8) ! i = replicate 68 7 ! i"
      using \<open>i < 68\<close> by (simp add: load_bytes_def demo_query_def)
  qed simp
  obtain G F where "heap_inv demo_heap G F Map.empty" by (rule demo_heap_inv)
  then have h: "heap_has (heap ?s) (heap_live G F Map.empty)" by (auto simp: heap_has_def demo_net_def)
  obtain p h' where m: "malloc (debug_cpu 0) 100 demo_heap = Inr (p, h')" by (rule demo_malloc)
  have pcb: "pcb_at ?s 0x7000 = demo_pcb" "pcb_inv demo_pcb" "udp_waiting demo_pcb = []" "sem_ok (udp_sem demo_pcb)" "sint (sem_count (udp_sem demo_pcb)) < 2 ^ 63 - 1"
    using demo_sem_ok [of "[]"] by (simp_all add: demo_net_def demo_pcb_def pcb_inv_def RECV_QUEUE_SIZE_def udp_waiting_def ring_list_def ring_count_def)
  have sock: "0x6000 = udp_port_table ?s (ntohs (dest_port (udp_header_at demo_query 0x2000)))" "(0x6000 :: addr) \<noteq> 0" "0x7000 = pcb (socket_at ?s 0x6000)"
    unfolding hdr by (simp_all add: demo_net_def demo_socket_def)
  have "8 \<le> (76 :: u16)" by simp
  note q = udp_datagram_queued [OF h this sock, unfolded pcb, OF pcb(2,4,5), where c = "debug_cpu 0" and k = 0 and ip = "0x1F00" and sc = demo_sched,
      unfolded hdr data pay]
  have "net_handle_udp (debug_cpu 0) 0 demo_query 0x1F00 0x2000 76 ?s demo_sched \<noteq> Inl (Panic ''Kernel OOM'')"
  proof -
    obtain c' sem' where sig: "sem_signal (debug_cpu 0) 0 (udp_sem demo_pcb) demo_sched = Inr (c', sem',
        case sem_waiting (udp_sem demo_pcb) of [] \<Rightarrow> demo_sched | t # _ \<Rightarrow> snd (enqueue_thread t False demo_sched))"
      by (rule sem_signal_spec [OF pcb(4,5)])
    have "heap ?s = demo_heap" by (simp add: demo_net_def)
    then show ?thesis using m sig sock(1,3) pcb(1) unfolding net_handle_udp_def Let_def
      by (simp add: demo_pcb_def split: sum.splits)
  qed
  then show ?thesis using q pcb(3) by (cases "net_handle_udp (debug_cpu 0) 0 demo_query 0x1F00 0x2000 76 ?s demo_sched") (simp, fastforce)
qed

end
