(* ===== verification/Socket.thy ===== *)
theory Socket
  imports NetIp
begin

text \<open>
  The socket system calls of \<^verbatim>\<open>kernel/src/socket/socket.c\<close> over the file descriptors of the calling process.

  Descriptors, handles and nodes are objects in typed stores, addressed by the heap blocks the calls
  allocate; \<open>m\<close> is the caller's memory.  The sizes of the C structures and the value of the random-number
  instruction are arguments.  A receive that has to wait is split at the wait, as the semaphore is.
\<close>

section \<open>Descriptors\<close>

definition PROC_MAX_FDS :: nat where "PROC_MAX_FDS = 256"

record file_handle_t =
  fh_lock :: lock_t
  fh_resource :: addr
  fh_node :: addr
  fh_refcount :: u64
  fh_location :: u64
  fh_flags :: u64
  can_dirlist :: bool
  dirlist :: addr
  dirlist_count :: u64
  dirlist_index :: u64

record file_descriptor_t =
  fd_handle :: addr
  fd_flags :: u32

record vfs_node_t =
  mountpoint :: addr
  redir :: addr
  vn_resource :: addr
  filesystem :: addr
  vn_name :: string
  parent :: addr
  children :: addr
  children_count :: u32
  symlink_target :: addr

record sock_state = net_state +
  fds :: "addr list"
  fds_lock :: lock_t
  fd_at :: "addr \<Rightarrow> file_descriptor_t"
  handle_at :: "addr \<Rightarrow> file_handle_t"
  node_at :: "addr \<Rightarrow> vfs_node_t"

record struct_sizes =
  size_socket_resource :: u64
  size_udp_pcb :: u64
  size_vfs_node :: u64
  size_file_handle :: u64
  size_file_descriptor :: u64

abbreviation (input) EBADF :: u64 where "EBADF \<equiv> 9"
abbreviation (input) EINVAL :: u64 where "EINVAL \<equiv> 22"
abbreviation (input) EMFILE :: u64 where "EMFILE \<equiv> 24"
abbreviation (input) ENOSYS :: u64 where "ENOSYS \<equiv> 38"
abbreviation (input) ENOTSOCK :: u64 where "ENOTSOCK \<equiv> 88"
abbreviation (input) EAFNOSUPPORT :: u64 where "EAFNOSUPPORT \<equiv> 97"
abbreviation (input) EADDRINUSE :: u64 where "EADDRINUSE \<equiv> 98"

abbreviation (input) STAT_IFMT :: u32 where "STAT_IFMT \<equiv> 0xF000"
abbreviation (input) STAT_IFSOCK :: u32 where "STAT_IFSOCK \<equiv> 0xC000"
abbreviation (input) SOCK_STATE_CLOSED :: u32 where "SOCK_STATE_CLOSED \<equiv> 0"
abbreviation (input) SOCK_STATE_BOUND :: u32 where "SOCK_STATE_BOUND \<equiv> 1"

definition net_addr_zero :: net_addr_t where
  "net_addr_zero = \<lparr>family = 0, port = 0, ipv4 = 0\<rparr>"

section \<open>Ephemeral ports\<close>

definition get_next_ephemeral_port :: "u32 \<Rightarrow> (u16 \<Rightarrow> addr) \<Rightarrow> u16" where
  "get_next_ephemeral_port rnd table =
     (let start = 49152 + (ucast (rnd mod 16384) :: u16);
          range = (16384 :: u16)
      in case find (\<lambda>i. table (49152 + (start - 49152 + of_nat i) mod range) = 0) [0..<16384] of
           Some i \<Rightarrow> 49152 + (start - 49152 + of_nat i) mod range
         | None \<Rightarrow> 0)"

section \<open>Creating and binding\<close>

definition socket_object :: "u64 \<Rightarrow> u64 \<Rightarrow> u64 \<Rightarrow> addr \<Rightarrow> socket_resource_t" where
  "socket_object domain ty proto pa =
     \<lparr>res_ops = Socket_ops, res_mode = STAT_IFSOCK, sock_domain = ucast domain, sock_type = ucast ty, sock_protocol = ucast proto,
      sock_state = SOCK_STATE_CLOSED, local_addr = net_addr_zero, remote_addr = net_addr_zero, pcb = pa\<rparr>"

definition pcb_zero :: udp_pcb_t where
  "pcb_zero =
     \<lparr>udp_queue = replicate RECV_QUEUE_SIZE 0, recv_queue_head = 0, recv_queue_tail = 0,
      udp_sem = sem_init \<lparr>sem_lock = LOCK_INITIALIZER None, sem_count = 0, waiters = replicate SEM_MAX_WAITERS 0, wait_head = 0, wait_tail = 0\<rparr> 0\<rparr>"

definition sock_node :: "addr \<Rightarrow> vfs_node_t" where
  "sock_node resource =
     \<lparr>mountpoint = 0, redir = 0, vn_resource = resource, filesystem = 0, vn_name = [], parent = 0, children = 0,
      children_count = - 1, symlink_target = 0\<rparr>"

definition sock_handle :: "addr \<Rightarrow> addr \<Rightarrow> file_handle_t" where
  "sock_handle resource node =
     \<lparr>fh_lock = \<lparr>is_locked = False, owner_cpu = 0, acquire_caller = 0, acquire_count = 0, lock_name = None\<rparr>,
      fh_resource = resource, fh_node = node, fh_refcount = 1, fh_location = 0, fh_flags = 0, can_dirlist = False,
      dirlist = 0, dirlist_count = 0, dirlist_index = 0\<rparr>"

definition sys_socket ::
  "cpu_ctx \<Rightarrow> struct_sizes \<Rightarrow> u64 \<Rightarrow> u64 \<Rightarrow> u64 \<Rightarrow> ('z) sock_state_scheme \<Rightarrow> kstop + (u64 \<times> ('z) sock_state_scheme)" where
  "sys_socket c sz domain ty proto s =
     (if domain \<noteq> 1 then Inr (- EAFNOSUPPORT, s)
      else if ty \<noteq> 2 then Inr (- EINVAL, s)
      else if proto \<noteq> 1 then Inr (- EINVAL, s)
      else bindR (lock_acquire c ''sys_socket'' (fds_lock s)) (\<lambda>l.
        case first_index (\<lambda>p. p = 0) (fds s) of
          None \<Rightarrow> bindR (lock_release c l) (\<lambda>l'. Inr (- EMFILE, s\<lparr>fds_lock := l'\<rparr>))
        | Some cur_fd \<Rightarrow>
            bindR (malloc c (size_socket_resource sz) (heap s)) (\<lambda>(sock, h1).
            bindR (malloc c (size_udp_pcb sz) h1) (\<lambda>(pa, h2).
            bindR (malloc c (size_vfs_node sz) h2) (\<lambda>(node, h3).
            bindR (malloc c (size_file_handle sz) h3) (\<lambda>(handle, h4).
            bindR (malloc c (size_file_descriptor sz) h4) (\<lambda>(fd, h5).
              let s1 = s\<lparr>heap := h5,
                         socket_at := (socket_at s)(sock := socket_object domain ty proto pa),
                         pcb_at := (pcb_at s)(pa := pcb_zero),
                         node_at := (node_at s)(node := sock_node sock),
                         handle_at := (handle_at s)(handle := sock_handle sock node),
                         fd_at := (fd_at s)(fd := \<lparr>fd_handle = handle, fd_flags = 0\<rparr>),
                         fds := (fds s)[cur_fd := fd]\<rparr>
              in bindR (lock_release c l) (\<lambda>l'. Inr (of_nat cur_fd, s1\<lparr>fds_lock := l'\<rparr>)))))))))"

text \<open>The checks every other call makes on its descriptor.\<close>

definition fd_socket :: "u64 \<Rightarrow> ('z) sock_state_scheme \<Rightarrow> u64 + addr" where
  "fd_socket fd s =
     (if unat fd \<ge> PROC_MAX_FDS then Inl (- EINVAL)
      else if fds s ! unat fd = 0 then Inl (- EBADF)
      else
        (let r = fh_resource (handle_at s (fd_handle (fd_at s (fds s ! unat fd))))
         in if res_mode (socket_at s r) AND STAT_IFMT \<noteq> STAT_IFSOCK then Inl (- ENOTSOCK) else Inr r))"

definition load32 :: "memory \<Rightarrow> addr \<Rightarrow> u32" where
  "load32 m a = le_word (load_bytes m a 4)"

definition net_addr_at :: "memory \<Rightarrow> addr \<Rightarrow> net_addr_t" where
  "net_addr_at m a = \<lparr>family = load16 m a, port = load16 m (a + 2), ipv4 = load32 m (a + 4)\<rparr>"

definition sys_bind ::
  "cpu_ctx \<Rightarrow> memory \<Rightarrow> u64 \<Rightarrow> addr \<Rightarrow> ('z) sock_state_scheme \<Rightarrow> kstop + (u64 \<times> ('z) sock_state_scheme)" where
  "sys_bind c m fd a s =
     (case fd_socket fd s of
        Inl e \<Rightarrow> Inr (e, s)
      | Inr sock \<Rightarrow>
          if sock_state (socket_at s sock) = SOCK_STATE_BOUND then Inr (- EINVAL, s)
          else bindR (lock_acquire c ''sys_bind'' (udp_port_table_lock s)) (\<lambda>l.
            let p = ntohs (port (net_addr_at m a))
            in if udp_port_table s p \<noteq> 0
               then bindR (lock_release c l) (\<lambda>l'. Inr (- EADDRINUSE, s\<lparr>udp_port_table_lock := l'\<rparr>))
               else
                 (let s1 = s\<lparr>socket_at := (socket_at s)(sock := (socket_at s sock)\<lparr>local_addr := net_addr_at m a, sock_state := SOCK_STATE_BOUND\<rparr>),
                             udp_port_table := (udp_port_table s)(p := sock)\<rparr>
                  in bindR (lock_release c l) (\<lambda>l'. Inr (0, s1\<lparr>udp_port_table_lock := l'\<rparr>)))))"

section \<open>Sending\<close>

text \<open>The source port of a datagram: the bound one, or a fresh ephemeral port that the socket is bound to.\<close>

definition source_port :: "u32 \<Rightarrow> addr \<Rightarrow> ('z) sock_state_scheme \<Rightarrow> (u16 \<times> ('z) sock_state_scheme) option" where
  "source_port rnd sock s =
     (let sp = ntohs (port (local_addr (socket_at s sock)))
      in if sp \<noteq> 0 then Some (sp, s)
         else
           (let np = get_next_ephemeral_port rnd (udp_port_table s)
            in if np = 0 then None
               else Some (np, s\<lparr>socket_at := (socket_at s)(sock := (socket_at s sock)
                                  \<lparr>local_addr := (local_addr (socket_at s sock))\<lparr>port := htons np\<rparr>, sock_state := SOCK_STATE_BOUND\<rparr>),
                                udp_port_table := (udp_port_table s)(np := sock)\<rparr>)))"

definition sys_sendto ::
  "cpu_ctx \<Rightarrow> u32 \<Rightarrow> u8 list \<Rightarrow> memory \<Rightarrow> u64 \<Rightarrow> addr \<Rightarrow> u64 \<Rightarrow> addr \<Rightarrow> ('z) sock_state_scheme \<Rightarrow>
     kstop + (u64 \<times> ('z) sock_state_scheme)" where
  "sys_sendto c rnd stack_mac m fd buf len dest s =
     (case fd_socket fd s of
        Inl e \<Rightarrow> Inr (e, s)
      | Inr sock \<Rightarrow>
          let dest_addr = net_addr_at m dest;
              total_len = 14 + 20 + 8 + len
          in bindR (route_lookup c (ipv4 dest_addr) s) (\<lambda>(route, s1).
            case route of
              None \<Rightarrow> Inr (- ENOSYS, s1)
            | Some r \<Rightarrow>
                let next_hop_bytes = ip4_to_bytes (ntohl (next_hop r));
                    device = res_device r;
                    d = device_at s1 device;
                    (hit, s2) = arp_lookup device next_hop_bytes s1;
                    dest_mac = (case hit of Some hw \<Rightarrow> hw | None \<Rightarrow> stack_mac)
                in bindR (malloc c total_len (heap s2)) (\<lambda>(packet, h1).
                  let h2 = heap_put packet (eth_build_header dest_mac (mac d) 0x0800) h1;
                      h3 = heap_put (packet + 14)
                             (ipv4_build_header (ip4 d) (ip4_to_bytes (ntohl (ipv4 dest_addr))) 17 (ucast (8 + len)) 64) h2
                  in case source_port rnd sock (s2\<lparr>heap := h3\<rparr>) of
                       None \<Rightarrow> bindR (free c packet h3) (\<lambda>h4. Inr (- EADDRINUSE, s2\<lparr>heap := h4\<rparr>))
                     | Some (sp, s3) \<Rightarrow>
                         let h5 = heap_put (packet + 34) (udp_build_header sp (ntohs (port dest_addr)) (ucast len)) (heap s3);
                             h6 = heap_put (packet + 42) (load_bytes m buf (unat len)) h5;
                             s4 = s3\<lparr>heap := h6\<rparr>
                         in case hit of
                              None \<Rightarrow> bindR (arp_pending_enqueue c packet (ucast total_len) next_hop_bytes s4) (\<lambda>s5. Inr (len, s5))
                            | Some hw \<Rightarrow>
                                let s5 = snd (transmit device (load_bytes (mem (heap s4)) packet (unat (ucast total_len :: u16))) (ucast total_len) s4)
                                in bindR (free c packet (heap s5)) (\<lambda>h7. Inr (len, s5\<lparr>heap := h7\<rparr>)))))"

section \<open>Receiving\<close>

definition sys_recvfrom_begin ::
  "cpu_ctx \<Rightarrow> nat \<Rightarrow> u64 \<Rightarrow> ('z) sock_state_scheme \<Rightarrow> sched_state \<Rightarrow>
     kstop + (u64 + (addr \<times> wait_outcome \<times> cpu_ctx \<times> ('z) sock_state_scheme \<times> sched_state))" where
  "sys_recvfrom_begin c k fd s sc =
     (if unat fd \<ge> PROC_MAX_FDS then Inr (Inl (- EINVAL))
      else if fds s ! unat fd = 0 then Inr (Inl (- EBADF))
      else if fd_handle (fd_at s (fds s ! unat fd)) = 0 then Inr (Inl (- EBADF))
      else
        (let sock = fh_resource (handle_at s (fd_handle (fd_at s (fds s ! unat fd))))
         in if res_mode (socket_at s sock) AND STAT_IFMT \<noteq> STAT_IFSOCK then Inr (Inl (- ENOTSOCK))
            else
              (let pa = pcb (socket_at s sock)
               in bindR (sem_wait c k (udp_sem (pcb_at s pa)) sc) (\<lambda>(w, c1, sem, sc1).
                    Inr (Inr (pa, w, c1, s\<lparr>pcb_at := (pcb_at s)(pa := (pcb_at s pa)\<lparr>udp_sem := sem\<rparr>)\<rparr>, sc1))))))"

definition sys_recvfrom_end ::
  "cpu_ctx \<Rightarrow> memory \<Rightarrow> addr \<Rightarrow> addr \<Rightarrow> u64 \<Rightarrow> addr \<Rightarrow> ('z) sock_state_scheme \<Rightarrow>
     kstop + (u64 \<times> memory \<times> ('z) sock_state_scheme)" where
  "sys_recvfrom_end c m pa buf len src s =
     (let b = pcb_at s pa; datagram = udp_queue b ! unat (recv_queue_head b)
      in if datagram = 0 then Inr (- EINVAL, m, s)
         else
           (let s1 = s\<lparr>pcb_at := (pcb_at s)(pa := b\<lparr>recv_queue_head := (recv_queue_head b + 1) mod 32\<rparr>)\<rparr>;
                m1 = (if src \<noteq> 0 then store_bytes m src (load_bytes (mem (heap s)) datagram 20) else m);
                dlen = load64 (mem (heap s)) (datagram + 24);
                result_len = (if len < dlen then len else dlen);
                m2 = store_bytes m1 buf (load_bytes (mem (heap s)) (datagram + 32) (unat result_len))
            in bindR (free c datagram (heap s1)) (\<lambda>h. Inr (result_len, m2, s1\<lparr>heap := h\<rparr>))))"

definition sys_close_socket :: "u64 \<Rightarrow> u64" where
  "sys_close_socket fd = - ENOSYS"

text \<open>The operations a socket offers as a file: none of them transfers data.\<close>

definition socket_grow :: "u64 \<Rightarrow> bool" where "socket_grow sz = False"
definition socket_read :: "u64 \<Rightarrow> u64 \<Rightarrow> u64" where "socket_read loc n = - ENOSYS"
definition socket_write :: "u64 \<Rightarrow> u64 \<Rightarrow> u64" where "socket_write loc n = - ENOSYS"
definition socket_ioctl :: "u64 \<Rightarrow> addr \<Rightarrow> int" where "socket_ioctl request argp = - 38"
definition socket_unref :: "addr \<Rightarrow> bool" where "socket_unref self = False"
definition socket_link :: "addr \<Rightarrow> bool" where "socket_link self = False"
definition socket_unlink :: "addr \<Rightarrow> bool" where "socket_unlink self = False"
definition socket_mmap :: "u64 \<Rightarrow> addr" where "socket_mmap pg = 0"

section \<open>A frame on the wire\<close>

definition udp_frame :: "u8 list \<Rightarrow> u8 list \<Rightarrow> u8 list \<Rightarrow> u8 list \<Rightarrow> u16 \<Rightarrow> u16 \<Rightarrow> u8 list \<Rightarrow> u8 list" where
  "udp_frame dmac smac sip dip sp dp payload =
     eth_build_header dmac smac 0x0800 @ ipv4_build_header sip dip 17 (8 + of_nat (length payload)) 64 @
     udp_build_header sp dp (of_nat (length payload)) @ payload"

lemma load_bytes_part:
  assumes "load_bytes m a n = xs" and "off + k \<le> n"
  shows "load_bytes m (a + of_nat off) k = take k (drop off xs)"
proof -
  have "xs = load_bytes m a off @ load_bytes m (a + of_nat off) k @ load_bytes m (a + of_nat off + of_nat k) (n - off - k)"
    using load_bytes_append [of m a off "k + (n - off - k)"] load_bytes_append [of m "a + of_nat off" k "n - off - k"] assms by simp
  then show ?thesis by simp
qed

lemma load_byte_part:
  assumes "load_bytes m a n = xs" and "off < n"
  shows "m (a + of_nat off) = xs ! off"
  using assms by (auto simp: load_bytes_def)

lemma load16_part:
  assumes "load_bytes m a n = xs" and "off + 2 \<le> n"
  shows "load16 m (a + of_nat off) = le_word (take 2 (drop off xs))"
  using load_bytes_part [OF assms] by (simp add: load16_def)

lemma wire_load: "le_word [ucast (drop_bit 8 x), ucast x] = htons x"
  using le_word_le_bytes [of 2 "htons x"] by (simp add: wire_u16)

lemma udp_frame_bytes:
  fixes payload :: "u8 list"
  assumes "length dmac = 6" "length smac = 6" "length sip = 4" "length dip = 4"
  defines "n \<equiv> length payload"
  obtains ck where "udp_frame dmac smac sip dip sp dp payload = dmac @ smac @ [8, 0] @
    [0x45, 0, ucast (drop_bit 8 (28 + of_nat n :: u16)), ucast (28 + of_nat n :: u16), 0, 0, 0x40, 0, 64, 17, ucast ck, ucast (drop_bit 8 (ck :: u16))] @ sip @ dip @
    [ucast (drop_bit 8 sp), ucast sp, ucast (drop_bit 8 dp), ucast dp, ucast (drop_bit 8 (of_nat n + 8 :: u16)), ucast (of_nat n + 8 :: u16), 0, 0] @ payload"
proof -
  obtain ck where "ipv4_build_header sip dip 17 (8 + of_nat n) 64 =
    [0x45, 0, ucast (drop_bit 8 (20 + (8 + of_nat n) :: u16)), ucast (20 + (8 + of_nat n) :: u16), 0, 0, 0x40, 0, 64, 17, ucast ck, ucast (drop_bit 8 (ck :: u16))] @ sip @ dip"
    using assms(3,4) by (rule ipv4_header_fields)
  moreover have "eth_build_header dmac smac 0x0800 = dmac @ smac @ [8, 0]" using assms(1,2) by (simp add: eth_build_header_def)
  ultimately show thesis using that [of ck] by (simp add: udp_frame_def udp_build_header_def wire_u16 n_def)
qed

lemma udp_frame_received:
  assumes len4: "length dmac = 6" "length smac = 6" "length sip = 4" "length dip = 4" and "length payload \<le> 65507"
    and mem: "load_bytes m packet (42 + length payload) = udp_frame dmac smac sip dip sp dp payload"
    and "ip4 (device_at s device) = dip" and "34 \<le> len"
  shows "net_handle_ipv4 c k m device packet len s sc = net_handle_udp c k m (packet + 14) (packet + 34) (of_nat (8 + length payload)) s sc"
    and "load_bytes m (packet + 14 + 12) 4 = sip" and "load_bytes m (packet + 34 + 8) (length payload) = payload"
    and "src_port (udp_header_at m (packet + 34)) = htons sp" and "dest_port (udp_header_at m (packet + 34)) = htons dp"
proof -
  let ?n = "length payload"
  obtain ck where f: "udp_frame dmac smac sip dip sp dp payload = dmac @ smac @ [8, 0] @
    [0x45, 0, ucast (drop_bit 8 (28 + of_nat ?n :: u16)), ucast (28 + of_nat ?n :: u16), 0, 0, 0x40, 0, 64, 17, ucast ck, ucast (drop_bit 8 (ck :: u16))] @ sip @ dip @
    [ucast (drop_bit 8 sp), ucast sp, ucast (drop_bit 8 dp), ucast dp, ucast (drop_bit 8 (of_nat ?n + 8 :: u16)), ucast (of_nat ?n + 8 :: u16), 0, 0] @ payload"
    using len4 by (rule udp_frame_bytes)
  note part = load_bytes_part [OF mem [unfolded f]] and byte = load_byte_part [OF mem [unfolded f]] and word = load16_part [OF mem [unfolded f]]
  show sip: "load_bytes m (packet + 14 + 12) 4 = sip" using part [of 26 4] len4 by (simp add: add.assoc)
  show "load_bytes m (packet + 34 + 8) ?n = payload" using part [of 42 ?n] len4 by (simp add: add.assoc)
  show "src_port (udp_header_at m (packet + 34)) = htons sp"
    using word [of 34] len4 by (simp add: udp_header_at_def wire_load del: le_word.simps)
  show "dest_port (udp_header_at m (packet + 34)) = htons dp"
    using word [of 36] len4 by (simp add: udp_header_at_def wire_load add.assoc del: le_word.simps)
  have "m (packet + 14) = 0x45" "m (packet + 23) = 17" "load16 m (packet + 16) = htons (28 + of_nat ?n)" "load_bytes m (packet + 30) 4 = dip"
    using byte [of 14] byte [of 23] word [of 16] part [of 30 4] len4 by (simp_all add: nth_append wire_load del: le_word.simps)
  then have h: "version_ihl (ipv4_header_at m (packet + 14)) = 0x45" "protocol (ipv4_header_at m (packet + 14)) = 17"
    "ntohs (total_length (ipv4_header_at m (packet + 14))) = 28 + of_nat ?n" "dest_ip (ipv4_header_at m (packet + 14)) = dip"
    by (simp_all add: ipv4_header_at_def add.assoc)
  show "net_handle_ipv4 c k m device packet len s sc = net_handle_udp c k m (packet + 14) (packet + 34) (of_nat (8 + ?n)) s sc"
    using h assms(7,8) unfolding net_handle_ipv4_def by (simp add: Let_def not_less [symmetric] add.assoc)
qed

section \<open>Building a packet in a heap block\<close>

lemma put_append:
  assumes "heap_has h L" and "(p, k) \<in> L" and "load_bytes (mem h) p (length xs) = xs" and "length xs + length ys \<le> k"
  shows "heap_has (heap_put (p + of_nat (length xs)) ys h) L"
    and "load_bytes (mem (heap_put (p + of_nat (length xs)) ys h)) p (length xs + length ys) = xs @ ys"
    and "(q, j) \<in> L \<Longrightarrow> (q, j) \<noteq> (p, k) \<Longrightarrow> load_bytes (mem (heap_put (p + of_nat (length xs)) ys h)) q j = load_bytes (mem h) q j"
proof -
  note pi = kheap.put_inside [OF assms(1,2,4)]
  show "heap_has (heap_put (p + of_nat (length xs)) ys h) L" by (rule pi(1))
  show "load_bytes (mem (heap_put (p + of_nat (length xs)) ys h)) p (length xs + length ys) = xs @ ys"
    using pi(2) pi(3) [of 0 "length xs"] assms(3,4) by (simp add: load_bytes_append)
  show "load_bytes (mem (heap_put (p + of_nat (length xs)) ys h)) q j = load_bytes (mem h) q j" if "(q, j) \<in> L" "(q, j) \<noteq> (p, k)"
    using pi(4) [OF that, of j] by simp
qed

lemma packet_built:
  fixes p :: addr
  assumes "heap_has h L" and "(p, k) \<in> L" and "length eth = 14" and "length ip = 20" and "length udp = 8" and "42 + length payload \<le> k"
  defines "h' \<equiv> heap_put (p + 42) payload (heap_put (p + 34) udp (heap_put (p + 14) ip (heap_put p eth h)))"
  shows "heap_has h' L" and "load_bytes (mem h') p (42 + length payload) = eth @ ip @ udp @ payload"
    and "(q, j) \<in> L \<Longrightarrow> (q, j) \<noteq> (p, k) \<Longrightarrow> load_bytes (mem h') q j = load_bytes (mem h) q j"
proof -
  define h1 where "h1 = heap_put p eth h"
  define h2 where "h2 = heap_put (p + 14) ip h1"
  define h3 where "h3 = heap_put (p + 34) udp h2"
  note a1 = put_append [OF assms(1,2), of "[]" eth, simplified, folded h1_def]
  have h1: "heap_has h1 L" "load_bytes (mem h1) p 14 = eth" using a1(1,2) assms(3,6) by (simp_all add: load_bytes_def)
  note a2 = put_append [OF h1(1) assms(2), of eth ip, unfolded assms(3,4), simplified, folded h2_def]
  have h2: "heap_has h2 L" "load_bytes (mem h2) p 34 = eth @ ip" using a2(1,2) h1(2) assms(6) by simp_all
  note a3 = put_append [OF h2(1) assms(2), of "eth @ ip" udp, unfolded length_append assms(3-5), simplified, folded h3_def]
  have h3: "heap_has h3 L" "load_bytes (mem h3) p 42 = eth @ ip @ udp" using a3(1,2) h2(2) assms(6) by simp_all
  note a4 = put_append [OF h3(1) assms(2), of "eth @ ip @ udp" payload, unfolded length_append assms(3-5), simplified]
  have e: "h' = heap_put (p + 42) payload h3" by (simp add: h'_def h3_def h2_def h1_def)
  show "heap_has h' L" "load_bytes (mem h') p (42 + length payload) = eth @ ip @ udp @ payload"
    unfolding e using a4(1,2) h3(2) assms(6) by simp_all
  show "load_bytes (mem h') q j = load_bytes (mem h) q j" if "(q, j) \<in> L" "(q, j) \<noteq> (p, k)"
    unfolding e using a4(3) [OF _ _ that(1)] a3(3) [OF _ _ that(1)] a2(3) [OF _ _ that(1)] a1(3) [OF _ _ that(1)] h1(2) h2(2) h3(2) that(2) assms(3,6)
    by (simp add: load_bytes_def)
qed

section \<open>Sending, properties\<close>

lemma source_port_frame:
  "source_port rnd sock (s\<lparr>route_table_lock := l, heap := h\<rparr>) =
     map_option (\<lambda>(sp, s'). (sp, s'\<lparr>route_table_lock := l, heap := h\<rparr>)) (source_port rnd sock s)"
  by (simp add: source_port_def Let_def)

lemma source_port_fields:
  assumes "source_port rnd sock s = Some (sp, s')"
  shows "heap s' = heap s" "transmitted s' = transmitted s" "device_at s' = device_at s"
  using assms by (auto simp: source_port_def Let_def split: if_splits)

text \<open>What a call that finds a route and a cached hardware address does.\<close>

definition send_ready ::
  "cpu_ctx \<Rightarrow> u32 \<Rightarrow> memory \<Rightarrow> u64 \<Rightarrow> addr \<Rightarrow> ('z) sock_state_scheme \<Rightarrow> route_result_t \<Rightarrow> u8 list \<Rightarrow> u16 \<Rightarrow> bool" where
  "send_ready c rnd m fd dest s r hw sp \<longleftrightarrow>
     (\<exists>sock l. fd_socket fd s = Inr sock \<and> route_lookup c (ipv4 (net_addr_at m dest)) s = Inr (Some r, s\<lparr>route_table_lock := l\<rparr>) \<and>
        map_option fst (source_port rnd sock s) = Some sp) \<and>
     arp_cache_lookup (ip4_to_bytes (ntohl (next_hop r))) s = Some hw \<and> length hw = 6 \<and>
     length (mac (device_at s (res_device r))) = 6 \<and> length (ip4 (device_at s (res_device r))) = 4"

lemma sys_sendto_hit:
  assumes "heap_has (heap s) L" and "send_ready c rnd m fd dest s r hw sp" and "unat len \<le> 65493"
  shows "case sys_sendto c rnd junk m fd buf len dest s of
      Inl e \<Rightarrow> e = Panic ''Kernel OOM'' \<and> malloc c (42 + len) (heap s) = Inl e
    | Inr (res, s') \<Rightarrow> res = len \<and> heap_has (heap s') L \<and>
        transmitted s' = transmitted s @ [(res_device r, udp_frame hw (mac (device_at s (res_device r))) (ip4 (device_at s (res_device r)))
          (le_bytes 4 (ipv4 (net_addr_at m dest))) sp (ntohs (port (net_addr_at m dest))) (load_bytes m buf (unat len)))] \<and>
        (\<forall>(q, j)\<in>L. load_bytes (mem (heap s')) q j = load_bytes (mem (heap s)) q j)"
proof -
  let ?a = "net_addr_at m dest" and ?d = "device_at s (res_device r)" and ?data = "load_bytes m buf (unat len)"
  obtain sock l s3 where rdy: "fd_socket fd s = Inr sock" "route_lookup c (ipv4 ?a) s = Inr (Some r, s\<lparr>route_table_lock := l\<rparr>)"
    "source_port rnd sock s = Some (sp, s3)" using assms(2) unfolding send_ready_def by auto
  have cache: "arp_cache_lookup (ip4_to_bytes (ntohl (next_hop r))) (s\<lparr>route_table_lock := l\<rparr>) = Some hw"
    using assms(2) by (simp add: send_ready_def arp_cache_lookup_def cong: option.case_cong)
  have six: "length hw = 6" "length (mac ?d) = 6" "length (ip4 ?d) = 4" using assms(2) by (simp_all add: send_ready_def)
  have tl: "unat (42 + len) = 42 + unat len" "unat (ucast (42 + len) :: u16) = 42 + unat len" "of_nat (unat len) = (ucast len :: u16)"
    "(8 + ucast len :: u16) = ucast (8 + len)"
  proof -
    show u: "unat (42 + len) = 42 + unat len" using assms(3) by (simp add: unat_word_ariths)
    show "unat (ucast (42 + len) :: u16) = 42 + unat len" unfolding unsigned_ucast_eq u using assms(3) by (simp add: take_bit_eq_mod)
    show "of_nat (unat len) = (ucast len :: u16)" by (simp add: unsigned_of_nat)
    have "unat (8 + len) = 8 + unat len" using assms(3) by (simp add: unat_word_ariths)
    then have "(of_nat (unat (8 + len)) :: u16) = 8 + of_nat (unat len)" by simp
    then show "(8 + ucast len :: u16) = ucast (8 + len)" by (simp add: unsigned_of_nat)
  qed
  have al: "arp_lookup (res_device r) (ip4_to_bytes (ntohl (next_hop r))) (s\<lparr>route_table_lock := l\<rparr>) = (Some hw, s\<lparr>route_table_lock := l\<rparr>)"
    using cache by (simp add: arp_lookup_def)
  have sp: "source_port rnd sock (s\<lparr>route_table_lock := l, heap := x\<rparr>) = Some (sp, s3\<lparr>route_table_lock := l, heap := x\<rparr>)" for x
    using rdy(3) by (simp add: source_port_frame)
  show ?thesis
  proof (cases "malloc c (42 + len) (heap s)")
    case (Inl e)
    then have "e = Panic ''Kernel OOM''" using kheap.alloc_stops [OF assms(1) _ Inl] tl(1) assms(3) by simp
    then show ?thesis using Inl rdy(1,2) al unfolding sys_sendto_def by (simp add: Let_def)
  next
    case (Inr pr)
    obtain p h where m: "malloc c (42 + len) (heap s) = Inr (p, h)" using Inr by (cases pr) simp
    have "unat (42 + len) < 2 ^ 63" using tl(1) assms(3) by simp
    from kheap.alloc_fresh [OF assms(1) this m] obtain k where k: "42 + unat len \<le> k" "heap_has h (insert (p, k) L)"
      "\<forall>(q, j)\<in>L. disjoint_regions p k q j \<and> (\<forall>x. in_range q j x \<longrightarrow> mem h x = mem (heap s) x)" unfolding tl(1) by blast
    have fresh: "(p, j) \<notin> L" for j using fresh_block [OF k(2) _ assms(1)] k(3) by blast
    define eth where "eth = eth_build_header hw (mac ?d) 0x0800"
    define ip where "ip = ipv4_build_header (ip4 ?d) (ip4_to_bytes (ntohl (ipv4 ?a))) 17 (ucast (8 + len)) 64"
    define udp where "udp = udp_build_header sp (ntohs (port ?a)) (ucast len)"
    define h' where "h' = heap_put (p + 42) ?data (heap_put (p + 34) udp (heap_put (p + 14) ip (heap_put p eth h)))"
    have "length eth = 14" "length ip = 20" "length udp = 8" "42 + length ?data \<le> k"
      using six k(1) by (simp_all add: eth_def ip_def udp_def)
    note b = packet_built [OF k(2) insertI1 this, folded h'_def]
    obtain h7 where f: "free c p h' = Inr h7" using kheap.release_live [OF b(1) insertI1, of c] by blast
    have live: "heap_has h7 L" using kheap.release_keeps_blocks(1) [OF b(1) insertI1 f] fresh by (simp add: insert_Diff_if)
    have frame: "eth @ ip @ udp @ ?data = udp_frame hw (mac ?d) (ip4 ?d) (le_bytes 4 (ipv4 ?a)) sp (ntohs (port ?a)) ?data"
      unfolding udp_frame_def length_load_bytes tl(3,4) eth_def ip_def udp_def ip4_to_bytes_wire ..
    have keep: "load_bytes (mem h7) q j = load_bytes (mem (heap s)) q j" if q: "(q, j) \<in> L" for q j
    proof -
      have ne: "(q, j) \<noteq> (p, k)" using fresh q by blast
      have "load_bytes (mem h) q j = load_bytes (mem (heap s)) q j" using k(3) q by (intro kheap.block_bytes_cong [of q j]) auto
      then show ?thesis using kheap.release_keeps_blocks(2) [OF b(1) insertI1 f _ ne, of j] b(3) [OF _ ne] q by simp
    qed
    have sent: "load_bytes (mem h') p (unat (ucast (42 + len) :: u16)) = eth @ ip @ udp @ ?data" using b(2) tl(2) by simp
    have "sys_sendto c rnd junk m fd buf len dest s = Inr (len, s3\<lparr>route_table_lock := l, heap := h7,
        transmitted := transmitted s3 @ [(res_device r, eth @ ip @ udp @ ?data)]\<rparr>)"
      unfolding sys_sendto_def
      by (simp add: Let_def rdy(1,2) al m sp transmit_def eth_def [symmetric] ip_def [symmetric] udp_def [symmetric] h'_def [symmetric] sent f
           source_port_fields [OF rdy(3)])
    then show ?thesis using live keep frame source_port_fields [OF rdy(3)] by auto
  qed
qed

section \<open>Receiving, properties\<close>

lemma recvfrom_first:
  fixes len :: u64 and payload :: "u8 list"
  assumes "heap_has (heap s) L" and "pcb_inv (pcb_at s pa)" and "udp_waiting (pcb_at s pa) = d # ds" and "(d, k) \<in> L" and "d \<noteq> 0"
    and "datagram_at (heap s) d sip sport payload" and "length payload < 65536"
  defines "n \<equiv> min (unat len) (length payload)"
  shows "\<exists>s'. sys_recvfrom_end c m pa buf len 0 s = Inr (of_nat n, store_bytes m buf (take n payload), s') \<and>
    heap_has (heap s') (L - {(d, k)}) \<and> pcb_inv (pcb_at s' pa) \<and> udp_waiting (pcb_at s' pa) = ds"
proof -
  let ?b = "pcb_at s pa"
  obtain b' where pop: "udp_pop ?b = Some (d, b')" "pcb_inv b'" "udp_waiting b' = ds" using udpq.pop_first [OF assms(2,3)] by blast
  then have hd: "udp_queue ?b ! unat (recv_queue_head ?b) = d" "b' = ?b\<lparr>recv_queue_head := (recv_queue_head ?b + 1) mod 32\<rparr>"
    by (auto simp: udp_pop_def split: if_splits)
  have dlen: "load64 (mem (heap s)) (d + 24) = of_nat (length payload)"
    using assms(6) le_word_le_bytes [of 8 "of_nat (length payload) :: u64"] by (simp add: datagram_at_def load64_def)
  have len: "(if len < of_nat (length payload) then len else of_nat (length payload)) = (of_nat n :: u64)"
  proof -
    have "unat (of_nat (length payload) :: u64) = length payload" using assms(7) by (intro unat_of_nat_u64) simp
    then show ?thesis by (auto simp: n_def word_less_nat_alt min_def)
  qed
  have "unat (of_nat n :: u64) = n" using assms(7) by (intro unat_of_nat_u64) (simp add: n_def)
  moreover have "load_bytes (mem (heap s)) (d + 32) n = take n payload"
    using load_bytes_part [of "mem (heap s)" "d + 32" "length payload" payload 0 n] assms(6) by (simp add: datagram_at_def n_def)
  moreover obtain h where "free c d (heap s) = Inr h" "heap_has h (L - {(d, k)})" using kheap.release_live [OF assms(1,4)] by blast
  ultimately show ?thesis unfolding sys_recvfrom_end_def Let_def hd(1) dlen len
    using assms(5) pop(2,3) hd(2) by simp
qed


section \<open>Port numbers\<close>

text \<open>
  The port table agrees with the sockets: a registered socket is bound, to the port it is registered for; hence no
  socket has two ports.
\<close>

definition ports_ok :: "('z) sock_state_scheme \<Rightarrow> bool" where
  "ports_ok s \<longleftrightarrow> (\<forall>p. udp_port_table s p \<noteq> 0 \<longrightarrow>
     sock_state (socket_at s (udp_port_table s p)) = SOCK_STATE_BOUND \<and> ntohs (port (local_addr (socket_at s (udp_port_table s p)))) = p)"

lemma ports_ok_inj: "ports_ok s \<Longrightarrow> udp_port_table s p = udp_port_table s q \<Longrightarrow> udp_port_table s p \<noteq> 0 \<Longrightarrow> p = q"
  unfolding ports_ok_def by metis

lemma ephemeral_port:
  "get_next_ephemeral_port rnd table \<noteq> 0 \<Longrightarrow> 49152 \<le> get_next_ephemeral_port rnd table \<and> table (get_next_ephemeral_port rnd table) = 0"
  "get_next_ephemeral_port rnd table = 0 \<longleftrightarrow> (\<forall>p\<ge>49152. table p \<noteq> 0)"
proof -
  define a where "a = unat (rnd mod 16384)"
  have a: "a < 16384" by (simp add: a_def unat_mod)
  let ?port = "\<lambda>i. 49152 + (ucast (rnd mod 16384) + of_nat i) mod (16384 :: u16)"
  have port: "unat (?port i) = 49152 + (a + i) mod 16384" if "i < 16384" for i
  proof -
    have "unat (ucast (rnd mod 16384) :: u16) = a" using a by (simp add: unsigned_ucast_eq a_def take_bit_eq_mod)
    then have "unat (ucast (rnd mod 16384) + of_nat i :: u16) = a + i" using a that by (simp add: unat_word_ariths unat_of_nat)
    then have "unat ((ucast (rnd mod 16384) + of_nat i) mod (16384 :: u16)) = (a + i) mod 16384" by (simp add: unat_mod)
    moreover have "(a + i) mod 16384 < 16384" by simp
    ultimately show ?thesis by (simp add: unat_word_ariths)
  qed
  have ge: "49152 \<le> ?port i" "?port i \<noteq> 0" if "i < 16384" for i
    using port [OF that] by (simp_all add: word_le_nat_alt) (metis add_is_0 unat_0 zero_neq_numeral)
  have all: "\<exists>i<16384. p = ?port i" if "49152 \<le> p" for p
  proof -
    define q where "q = unat p - 49152"
    have q: "unat p = 49152 + q" "q < 16384" using that u16_less [of p] by (simp_all add: q_def word_le_nat_alt)
    define i where "i = (q + 16384 - a) mod 16384"
    have "(a + i) mod 16384 = (a + (q + 16384 - a)) mod 16384" unfolding i_def by (simp add: mod_add_right_eq)
    then have "(a + i) mod 16384 = q" using a q(2) by simp
    then have "unat p = unat (?port i)" using port [of i] q(1) by (simp add: i_def)
    then show ?thesis unfolding unat_inject by (intro exI [of _ i]) (simp add: i_def)
  qed
  have def': "get_next_ephemeral_port rnd table = (case find (\<lambda>i. table (?port i) = 0) [0..<16384] of Some i \<Rightarrow> ?port i | None \<Rightarrow> 0)"
    by (simp add: get_next_ephemeral_port_def Let_def del: upt_rec_numeral cong: option.case_cong)
  show "49152 \<le> get_next_ephemeral_port rnd table \<and> table (get_next_ephemeral_port rnd table) = 0" if "get_next_ephemeral_port rnd table \<noteq> 0"
    using that ge unfolding def' by (auto split: option.splits simp: find_Some_iff simp del: upt_rec_numeral)
  show "get_next_ephemeral_port rnd table = 0 \<longleftrightarrow> (\<forall>p\<ge>49152. table p \<noteq> 0)"
  proof (cases "find (\<lambda>i. table (?port i) = 0) [0..<16384]")
    case None
    then have "\<forall>i<16384. table (?port i) \<noteq> 0" by (simp add: find_None_iff del: upt_rec_numeral)
    then have "\<forall>p\<ge>49152. table p \<noteq> 0" using all by metis
    then show ?thesis using None unfolding def' by simp
  next
    case (Some i)
    then have "i < 16384" "table (?port i) = 0" by (auto simp: find_Some_iff simp del: upt_rec_numeral)
    then show ?thesis using ge [of i] Some unfolding def' by auto
  qed
qed

lemma ports_ok_cong:
  "udp_port_table s' = udp_port_table s \<Longrightarrow> socket_at s' = socket_at s \<Longrightarrow> ports_ok s' = ports_ok s"
  by (simp add: ports_ok_def)

lemma ports_ok_register:
  assumes "ports_ok s" and "\<forall>q. udp_port_table s q \<noteq> sock \<or> sock = 0" and "ntohs (port (local_addr o')) = p" and "sock_state o' = SOCK_STATE_BOUND"
  shows "ports_ok (s\<lparr>socket_at := (socket_at s)(sock := o'), udp_port_table := (udp_port_table s)(p := sock)\<rparr>)"
  using assms by (auto simp: ports_ok_def)

lemma sys_bind_ports:
  assumes "ports_ok s" and "sys_bind c m fd a s = Inr (r, s')"
  shows "ports_ok s'"
proof (cases "fd_socket fd s")
  case (Inl e)
  then show ?thesis using assms by (simp add: sys_bind_def)
next
  case (Inr sock)
  show ?thesis
  proof (cases "sock_state (socket_at s sock) = SOCK_STATE_BOUND")
    case True
    then show ?thesis using assms Inr by (simp add: sys_bind_def)
  next
    case False
    have "\<forall>q. udp_port_table s q \<noteq> sock \<or> sock = 0" using assms(1) False by (auto simp: ports_ok_def)
    note reg = ports_ok_register [OF assms(1) this]
    let ?p = "ntohs (port (net_addr_at m a))" and ?o = "(socket_at s sock)\<lparr>local_addr := net_addr_at m a, sock_state := SOCK_STATE_BOUND\<rparr>"
    let ?s1 = "s\<lparr>socket_at := (socket_at s)(sock := ?o), udp_port_table := (udp_port_table s)(?p := sock)\<rparr>"
    have "ports_ok ?s1" by (rule reg) simp_all
    moreover have "\<exists>l. s' = s\<lparr>udp_port_table_lock := l\<rparr> \<or> s' = ?s1\<lparr>udp_port_table_lock := l\<rparr>"
      using assms(2) Inr False by (auto simp: sys_bind_def Let_def split: if_splits)
    ultimately show ?thesis using assms(1) by (auto simp: ports_ok_def)
  qed
qed

lemma source_port_ports:
  assumes "ports_ok s" and "udp_port_table s 0 = 0" and "source_port rnd sock s = Some (sp, s')"
  shows "ports_ok s'" and "udp_port_table s' 0 = 0"
proof -
  let ?np = "get_next_ephemeral_port rnd (udp_port_table s)"
  have "ports_ok s' \<and> udp_port_table s' 0 = 0"
  proof (cases "ntohs (port (local_addr (socket_at s sock))) = 0")
    case True
    have "udp_port_table s q \<noteq> sock \<or> sock = 0" for q using assms(1,2) True by (cases "q = 0") (auto simp: ports_ok_def)
    then have free: "\<forall>q. udp_port_table s q \<noteq> sock \<or> sock = 0" by blast
    have np: "?np \<noteq> 0" "s' = s\<lparr>socket_at := (socket_at s)(sock := (socket_at s sock)\<lparr>local_addr := (local_addr (socket_at s sock))\<lparr>port := htons ?np\<rparr>, sock_state := SOCK_STATE_BOUND\<rparr>),
        udp_port_table := (udp_port_table s)(?np := sock)\<rparr>" using assms(3) True by (auto simp: source_port_def Let_def split: if_splits)
    show ?thesis unfolding np(2) using np(1) assms(2) by (intro conjI ports_ok_register [OF assms(1) free]) simp_all
  next
    case False
    then show ?thesis using assms by (simp add: source_port_def Let_def)
  qed
  then show "ports_ok s'" "udp_port_table s' 0 = 0" by simp_all
qed

text \<open>The parts of a send other than the choice of the port leave the port table and the sockets alone.\<close>

abbreviation same_ports :: "('z) sock_state_scheme \<Rightarrow> ('z) sock_state_scheme \<Rightarrow> bool" where
  "same_ports s s' \<equiv> udp_port_table s' = udp_port_table s \<and> socket_at s' = socket_at s"

lemma route_lookup_ports: "route_lookup c ip s = Inr (r, s') \<Longrightarrow> same_ports s s'"
  by (auto simp: route_lookup_def Let_def split: if_splits)

lemma arp_lookup_ports: "arp_lookup device ip s = (r, s') \<Longrightarrow> same_ports s s'"
  by (auto simp: arp_lookup_def arp_send_request_def transmit_def split: option.splits)

lemma arp_pending_enqueue_ports: "arp_pending_enqueue c packet len ip s = Inr s' \<Longrightarrow> same_ports s s'"
  by (auto simp: arp_pending_enqueue_def Let_def split: if_splits)

lemma sys_sendto_ports:
  assumes "ports_ok s" and "udp_port_table s 0 = 0" and "sys_sendto c rnd junk m fd buf len dest s = Inr (res, s')"
  shows "ports_ok s' \<and> udp_port_table s' 0 = 0"
proof (cases "fd_socket fd s")
  case (Inl e)
  then show ?thesis using assms by (simp add: sys_sendto_def)
next
  case (Inr sock)
  obtain route s1 where r: "route_lookup c (ipv4 (net_addr_at m dest)) s = Inr (route, s1)" using assms(3) Inr by (auto simp: sys_sendto_def Let_def)
  have s1: "same_ports s s1" by (rule route_lookup_ports [OF r])
  show ?thesis
  proof (cases route)
    case None
    then show ?thesis using assms Inr r s1 ports_ok_cong [of s1 s] by (simp add: sys_sendto_def Let_def)
  next
    case (Some rt)
    obtain hit s2 where a: "arp_lookup (res_device rt) (ip4_to_bytes (ntohl (next_hop rt))) s1 = (hit, s2)" by fastforce
    have s2: "same_ports s s2" using arp_lookup_ports [OF a] s1 by simp
    define reaches where "reaches x \<longleftrightarrow> same_ports s x \<or> (\<exists>h sp s3. source_port rnd sock (s2\<lparr>heap := h\<rparr>) = Some (sp, s3) \<and> same_ports s3 x)" for x
    have via: "reaches x" if "source_port rnd sock (s2\<lparr>heap := h\<rparr>) = Some (sp, s3)" "udp_port_table x = udp_port_table s3" "socket_at x = socket_at s3" for h sp s3 x
      using that unfolding reaches_def by blast
    have "reaches (s2\<lparr>heap := h\<rparr>)" for h using s2 by (simp add: reaches_def)
    then have "reaches s'"
      using assms(3) Inr r Some a
      by (auto simp: sys_sendto_def Let_def transmit_def split: option.splits dest!: arp_pending_enqueue_ports) (erule via; simp)+
    then have "same_ports s s' \<or> (\<exists>h sp s3. source_port rnd sock (s2\<lparr>heap := h\<rparr>) = Some (sp, s3) \<and> same_ports s3 s')"
      by (simp add: reaches_def)
    then show ?thesis
    proof (elim disjE exE conjE)
      assume "udp_port_table s' = udp_port_table s" "socket_at s' = socket_at s"
      then show ?thesis using assms(1,2) ports_ok_cong [of s' s] by simp
    next
      fix h sp s3
      assume p: "source_port rnd sock (s2\<lparr>heap := h\<rparr>) = Some (sp, s3)" "udp_port_table s' = udp_port_table s3" "socket_at s' = socket_at s3"
      have "ports_ok (s2\<lparr>heap := h\<rparr>)" "udp_port_table (s2\<lparr>heap := h\<rparr>) 0 = 0" using assms(1,2) s2 ports_ok_cong [of "s2\<lparr>heap := h\<rparr>" s] by simp_all
      from source_port_ports [OF this p(1)] show ?thesis using p(2,3) ports_ok_cong [of s' s3] by simp
    qed
  qed
qed


text \<open>
  Port 0 is accepted as a port to bind to.  A later send takes the socket for unbound and registers it for a second
  port, while the entry for port 0 stays.
\<close>

lemma port_zero_binds_twice:
  assumes "fd_socket fd s = Inr sock" and "sock \<noteq> 0" and "sock_state (socket_at s sock) = SOCK_STATE_CLOSED" and "udp_port_table s 0 = 0"
    and "port (net_addr_at m a) = 0" and "lock_idle (udp_port_table_lock s)" and "get_next_ephemeral_port rnd ((udp_port_table s)(0 := sock)) = np" and "np \<noteq> 0"
  shows "\<exists>s1 s2. sys_bind c m fd a s = Inr (0, s1) \<and> source_port rnd sock s1 = Some (np, s2) \<and>
    udp_port_table s2 0 = sock \<and> udp_port_table s2 np = sock"
proof -
  obtain l1 l2 where "lock_acquire c ''sys_bind'' (udp_port_table_lock s) = Inr l1" "lock_release c l1 = Inr l2"
    using spinlock.section_runs [OF assms(6)] by metis
  moreover have "ntohs 0 = 0" by (simp add: ntohs_def)
  ultimately show ?thesis using assms(1-5,7,8) by (simp add: sys_bind_def source_port_def Let_def)
qed

section \<open>Two machines on one link\<close>

lemma demo_malloc_small:
  assumes "unat n \<le> 1000"
  shows "\<exists>p h. malloc (debug_cpu 0) n demo_heap = Inr (p, h)"
proof -
  obtain G F where h: "heap_inv demo_heap G F Map.empty" by (rule demo_heap_inv)
  have "next_fit 1 demo_heap \<noteq> None" using demo_heap_slab by metis
  then show ?thesis using malloc_small [OF h, of n "debug_cpu 0"] assms by (auto split: sum.splits)
qed

text \<open>A machine with one device at \<open>ip\<close>, a socket on port 53 as descriptor 0, and 10.0.2.2 in its ARP cache.\<close>

definition demo_host :: "u8 list \<Rightarrow> sock_state" where
  "demo_host ip =
     \<lparr>route_table = route_table (qemu_routes 0x9000), route_table_lock = route_table_lock (qemu_routes 0x9000),
      device_at = (\<lambda>d. demo_device\<lparr>ip4 := ip\<rparr>), arp_cache = [\<lparr>arp_ip = [10, 0, 2, 2], arp_mac = [0x52, 0x55, 10, 0, 2, 2]\<rparr>], last_arp_cache_entry = 1,
      arp_pending_queue = replicate 32 arp_pending_none, arp_pending_head = 0, arp_pending_tail = 0, heap = demo_heap, transmitted = [],
      net_devices = [(''eth0'', 0x9000)], udp_port_table = (\<lambda>p. if p = 53 then 0x6000 else 0), udp_port_table_lock = LOCK_INITIALIZER None,
      socket_at = (\<lambda>a. demo_socket), pcb_at = (\<lambda>a. demo_pcb),
      fds = [0x8000], fds_lock = LOCK_INITIALIZER None, fd_at = (\<lambda>a. \<lparr>fd_handle = 0x8100, fd_flags = 0\<rparr>),
      handle_at = (\<lambda>a. sock_handle 0x6000 0x8200), node_at = (\<lambda>a. sock_node 0x6000)\<rparr>"

text \<open>The caller's memory: the address 10.0.2.2, port 53, at \<open>0x4000\<close>.\<close>

definition demo_dest :: memory where
  "demo_dest a = (let i = unat a - 0x4000 in if i < 8 then [1, 0, 0, 53, 10, 0, 2, 2] ! i else 7)"

lemma demo_dest_addr: "net_addr_at demo_dest 0x4000 = \<lparr>family = 1, port = 0x3500, ipv4 = 0x0202000A\<rparr>"
  by (simp add: net_addr_at_def load16_def load32_def load_bytes_def upt_rec demo_dest_def)

lemma demo_host_ports: "ports_ok (demo_host ip)" "udp_port_table (demo_host ip) 0 = 0"
  by (simp_all add: ports_ok_def demo_host_def demo_socket_def ntohs_def)


lemma popcount_zero: "popcount 0 = 0" by (simp add: popcount_def)

lemma demo_dest_bytes: "le_bytes 4 (0x0202000A :: u32) = [10, 0, 2, 2]" by code_simp

abbreviation "demo_route \<equiv> \<lparr>res_entry = 0, next_hop = 0x0202000A, res_device = 0x9000\<rparr>"

lemma demo_send_ready:
  "send_ready (debug_cpu 0) 0 demo_dest 0 0x4000 (demo_host [10, 0, 2, 15]) demo_route [0x52, 0x55, 10, 0, 2, 2] 53"
proof -
  let ?s = "demo_host [10, 0, 2, 15]"
  have "lock_idle (route_table_lock ?s)" by (simp add: demo_host_def qemu_routes_def lock_idle_initializer)
  then obtain l1 l2 where "lock_acquire (debug_cpu 0) ''route_lookup'' (route_table_lock ?s) = Inr l1" "lock_release (debug_cpu 0) l1 = Inr l2"
    using spinlock.section_runs by metis
  moreover have "fst (route_scan 0x0202000A (route_table ?s) 0 (- 1, - 1)) = 0"
    by (simp add: demo_host_def qemu_routes_def route_entry_def popcount_nonneg not_less popcount_zero less_le_trans [of "- 1" 0])
  ultimately have "route_lookup (debug_cpu 0) 0x0202000A ?s = Inr (Some demo_route, ?s\<lparr>route_table_lock := l2\<rparr>)"
    by (simp add: route_lookup_def Let_def) (simp add: demo_host_def qemu_routes_def route_entry_def)
  moreover have "fd_socket 0 ?s = Inr 0x6000" by (simp add: fd_socket_def demo_host_def sock_handle_def demo_socket_def PROC_MAX_FDS_def)
  moreover have "map_option fst (source_port 0 0x6000 ?s) = Some 53" by (simp add: source_port_def demo_host_def demo_socket_def ntohs_def)
  moreover have "ip4_to_bytes (ntohl 0x0202000A) = [10, 0, 2, 2]" by (simp add: ip4_to_bytes_wire demo_dest_bytes)
  ultimately show ?thesis unfolding send_ready_def demo_dest_addr
    by (auto simp add: arp_cache_lookup_def demo_host_def demo_device_def first_index_def)
qed

lemma demo_host_heap: "\<exists>L. heap_has (heap (demo_host ip)) L"
proof -
  obtain G F where "heap_inv demo_heap G F Map.empty" by (rule demo_heap_inv)
  then show ?thesis by (auto simp: heap_has_def demo_host_def)
qed

lemma demo_host_pcb:
  "pcb_at (demo_host ip) pa = demo_pcb" "pcb_inv demo_pcb" "udp_waiting demo_pcb = []" "sem_ok (udp_sem demo_pcb)"
  "sint (sem_count (udp_sem demo_pcb)) < 2 ^ 63 - 1"
  using demo_sem_ok [of "[]"] by (simp_all add: demo_host_def demo_pcb_def pcb_inv_def RECV_QUEUE_SIZE_def udp_waiting_def ring_list_def ring_count_def)

lemma demo_sent:
  obtains s' hw smac where "sys_sendto (debug_cpu 0) 0 [] demo_dest 0 0x5000 58 0x4000 (demo_host [10, 0, 2, 15]) = Inr (58, s')"
    and "length hw = 6" and "length smac = 6"
    and "snd (last (transmitted s')) = udp_frame hw smac [10, 0, 2, 15] [10, 0, 2, 2] 53 53 (load_bytes demo_dest 0x5000 58)"
proof -
  let ?s = "demo_host [10, 0, 2, 15]"
  obtain L where L: "heap_has (heap ?s) L" using demo_host_heap by blast
  have heap: "heap ?s = demo_heap" and ip: "ip4 (device_at ?s 0x9000) = [10, 0, 2, 15]" and mac: "length (mac (device_at ?s 0x9000)) = 6"
    by (simp_all add: demo_host_def demo_device_def)
  have ok: "\<exists>p h. malloc (debug_cpu 0) (42 + 58) demo_heap = Inr (p, h)" by (rule demo_malloc_small) simp
  have dst: "le_bytes 4 (0x0202000A :: u32) = [10, 0, 2, 2]" "ntohs 0x3500 = 53" by (simp_all add: ntohs_def demo_dest_bytes)
  have "unat (58 :: u64) \<le> 65493" by simp
  note hit = sys_sendto_hit [OF L demo_send_ready this, where junk = "[]" and buf = "0x5000", unfolded heap demo_dest_addr]
  then obtain s' where s': "sys_sendto (debug_cpu 0) 0 [] demo_dest 0 0x5000 58 0x4000 ?s = Inr (58, s')" using ok
    by (auto split: sum.splits)
  show thesis using that [OF s' _ mac, of "[0x52, 0x55, 10, 0, 2, 2]"] hit ip dst unfolding s' by simp
qed


end
