(* ===== verification/Timer.thy ===== *)
theory Timer
  imports Apic Pagemap
begin

text \<open>
  Time: the high-precision counter and the clocks of \<^verbatim>\<open>kernel/src/time/timer.c\<close>, the interval timer of
  \<^verbatim>\<open>kernel/src/time/pit.c\<close> that drives them, and \<^verbatim>\<open>kernel/src/scheduler/event.c\<close>.  The counter and the interval
  timer are devices of \<open>Kio\<close>.  The address of the counter's registers, which the firmware tables give, is an
  argument of \<open>hpet_init\<close>.  Signed 64-bit fields are words that \<open>sint\<close> reads.
\<close>

section \<open>State\<close>

record timespec_t =
  tv_sec :: u64
  tv_nsec :: u64

record event_t =
  ev_lock :: lock_t
  ev_pending :: u64
  listeners_index :: u64
  ev_listeners :: "(addr \<times> u64) list"

record hpr_timer_t =
  timer_when :: timespec_t
  timer_event :: event_t
  timer_index :: u64
  fired :: bool

record time_state = platform +
  monotonic_clock :: timespec_t
  realtime_clock :: timespec_t
  timers_lock :: lock_t
  armed_timers :: "hpr_timer_t list"
  hpet_boot_value :: u64
  hpet_ticks_per_ms :: u64

definition TIMER_FREQUENCY :: u64 where "TIMER_FREQUENCY = 1000"
definition PIT_DIVIDEND :: u64 where "PIT_DIVIDEND = 1193182"

section \<open>The counter\<close>

definition hpet_init ::
  "cpu_ctx \<Rightarrow> u64 \<Rightarrow> ('v) vm_state_scheme \<Rightarrow> ('z) time_state_scheme \<Rightarrow> kstop + (('v) vm_state_scheme \<times> ('z) time_state_scheme)" where
  "hpet_init c hpet_phys vm s =
     (let hpet_virt = hpet_phys + HIGHER_HALF
      in bindR (map_page c (g_kernel_pagemap vm) hpet_virt hpet_phys (PTE_FLAG_PRESENT OR PTE_FLAG_WRITABLE) vm) (\<lambda>(_, vm1).
           let s1 = s\<lparr>hpet := hpet_virt\<rparr>;
               s2 = mmout64 (hpet s1 + 0x10) 1 s1;
               (boot, s3) = mmin64 (hpet s2 + 0xf0) s2
           in bindR (get_ticks_per_second (s3\<lparr>hpet_boot_value := boot\<rparr>)) (\<lambda>(tps, s4).
                Inr (vm1, s4\<lparr>hpet_ticks_per_ms := tps div 1000, have_hpet := True\<rparr>))))"

definition get_time_since_boot_ms :: "('z) time_state_scheme \<Rightarrow> kstop + (u64 \<times> ('z) time_state_scheme)" where
  "get_time_since_boot_ms s =
     (if \<not> have_hpet s then Inr (0, s)
      else
        (let (v, s1) = mmin64 (hpet s + 0xf0) s; elapsed_ticks = v - hpet_boot_value s1
         in if hpet_ticks_per_ms s1 = 0 then Inl divide_error else Inr (elapsed_ticks div hpet_ticks_per_ms s1, s1)))"

partial_function (option) sleep_until :: "u64 \<Rightarrow> 'a platform_scheme \<Rightarrow> 'a platform_scheme option" where
  "sleep_until deadline s =
     (let (v, s1) = mmin64 (hpet s + 0xf0) s in if v < deadline then sleep_until deadline s1 else Some s1)"

definition sleep :: "u32 \<Rightarrow> 'a platform_scheme \<Rightarrow> (kstop + 'a platform_scheme) option" where
  "sleep millis s =
     (let millis = millis div 8;
          (now, s1) = mmin64 (hpet s + 0xf0) s;
          (cap, s2) = mmin64 (hpet s1) s1;
          period = drop_bit 32 cap AND 0xffffffff
      in if period = 0 then Some (Inl divide_error)
         else map_option Inr (sleep_until (now + (ucast millis * 10000000000000) div period) s2))"

section \<open>Intervals\<close>

definition add_interval :: "timespec_t \<Rightarrow> timespec_t \<Rightarrow> timespec_t" where
  "add_interval dest src =
     (let dest1 = (if sint (tv_nsec dest + tv_nsec src) > 999999999
                   then (let diff = (tv_nsec dest + tv_nsec src) - 1000000000
                         in dest\<lparr>tv_nsec := diff, tv_sec := tv_sec dest + 1\<rparr>)
                   else dest\<lparr>tv_nsec := tv_nsec dest + tv_nsec src\<rparr>)
      in dest1\<lparr>tv_sec := tv_sec dest1 + tv_sec src\<rparr>)"

definition sub_interval :: "timespec_t \<Rightarrow> timespec_t \<Rightarrow> bool \<times> timespec_t" where
  "sub_interval dest src =
     (let done_at_zero = (True, \<lparr>tv_sec = 0, tv_nsec = 0\<rparr>);
          rest = (\<lambda>d. if sint (tv_sec src) > sint (tv_sec d) then done_at_zero
                      else (let d1 = d\<lparr>tv_sec := tv_sec d - tv_sec src\<rparr> in (tv_sec d1 = 0 \<and> tv_nsec d1 = 0, d1)))
      in if sint (tv_nsec src) > sint (tv_nsec dest)
         then (let diff = tv_nsec src - tv_nsec dest; d = dest\<lparr>tv_nsec := 999999999 - diff\<rparr>
               in if tv_sec d = 0 then done_at_zero else rest (d\<lparr>tv_sec := tv_sec d - 1\<rparr>))
         else rest (dest\<lparr>tv_nsec := tv_nsec dest - tv_nsec src\<rparr>))"

section \<open>The tick\<close>

definition event_trigger :: "event_t \<Rightarrow> bool \<Rightarrow> kstop + u64" where
  "event_trigger event dr = Inl (Panic ''Event triggering is not implemented'')"

text \<open>The loop over the armed timers works on a copy of each entry, so it has no result but the panic.\<close>

primrec scan_timers :: "timespec_t \<Rightarrow> hpr_timer_t list \<Rightarrow> kstop + unit" where
  "scan_timers interval [] = Inr ()"
| "scan_timers interval (t # ts) =
     (if fired t then scan_timers interval ts
      else (let (finished, _) = sub_interval (timer_when t) interval
            in if finished then bindR (event_trigger (timer_event t) False) (\<lambda>_. scan_timers interval ts)
               else scan_timers interval ts))"

definition tick_interval :: timespec_t where
  "tick_interval = \<lparr>tv_sec = 0, tv_nsec = 1000000000 div TIMER_FREQUENCY\<rparr>"

definition timer_handler :: "cpu_ctx \<Rightarrow> ('z) time_state_scheme \<Rightarrow> kstop + ('z) time_state_scheme" where
  "timer_handler c s =
     (let s1 = s\<lparr>monotonic_clock := add_interval (monotonic_clock s) tick_interval,
                 realtime_clock := add_interval (realtime_clock s) tick_interval\<rparr>;
          (acquired, l) = lock_test_and_acquire c ''timer_handler'' (timers_lock s1)
      in if acquired
         then bindR (scan_timers tick_interval (armed_timers s1)) (\<lambda>_.
                bindR (lock_release c l) (\<lambda>l'. Inr (s1\<lparr>timers_lock := l'\<rparr>)))
         else Inr (s1\<lparr>timers_lock := l\<rparr>))"

section \<open>The interval timer\<close>

definition pit_set_reload_value :: "u16 \<Rightarrow> 'a io_state_scheme \<Rightarrow> 'a io_state_scheme" where
  "pit_set_reload_value new_count s =
     outb 0x40 (drop_bit 8 (ucast new_count)) (outb 0x40 (ucast new_count) (outb 0x43 0x34 s))"

definition pit_set_frequency :: "u64 \<Rightarrow> 'a io_state_scheme \<Rightarrow> kstop + 'a io_state_scheme" where
  "pit_set_frequency freq s =
     (if freq = 0 then Inl divide_error
      else
        (let new_divisor = PIT_DIVIDEND div freq;
             new_divisor = (if PIT_DIVIDEND mod freq > freq div 2 then new_divisor + 1 else new_divisor)
         in Inr (pit_set_reload_value (ucast new_divisor) s)))"

definition pit_get_current_count :: "'a io_state_scheme \<Rightarrow> u16 \<times> 'a io_state_scheme" where
  "pit_get_current_count s =
     (let s1 = outb 0x43 0 s; (lo, s2) = inb 0x40 s1; (hi, s3) = inb 0x40 s2
      in (push_bit 8 (ucast hi) OR ucast lo, s3))"

definition pit_handler :: "cpu_ctx \<Rightarrow> ('z) time_state_scheme \<Rightarrow> kstop + ('z) time_state_scheme" where
  "pit_handler c s = bindR (timer_handler c s) (\<lambda>s1. Inr (lapic_eoi s1))"

definition pit_init :: "cpu_ctx \<Rightarrow> u32 \<Rightarrow> idt_state \<Rightarrow> ('z) time_state_scheme \<Rightarrow> kstop + (idt_state \<times> ('z) time_state_scheme)" where
  "pit_init c lapic_id i s =
     bindR (pit_set_frequency TIMER_FREQUENCY s) (\<lambda>s1.
     bindR (idt_allocate_vector c i) (\<lambda>(vector, i1).
       let i2 = set_handler (unat vector) Pit_handler i1
       in bindR (io_apic_set_irq_redirect lapic_id vector 0 True s1) (\<lambda>s2. Inr (i2, s2))))"

definition timer_init ::
  "cpu_ctx \<Rightarrow> u64 \<Rightarrow> u32 \<Rightarrow> idt_state \<Rightarrow> ('z) time_state_scheme \<Rightarrow> kstop + (idt_state \<times> ('z) time_state_scheme)" where
  "timer_init c epoch lapic_id i s =
     pit_init c lapic_id i (s\<lparr>monotonic_clock := \<lparr>tv_sec = epoch, tv_nsec = 0\<rparr>, realtime_clock := \<lparr>tv_sec = epoch, tv_nsec = 0\<rparr>\<rparr>)"

section \<open>Intervals, properties\<close>

text \<open>A time in nanoseconds, and the times whose fields are in their documented range.\<close>

definition ns :: "timespec_t \<Rightarrow> int" where
  "ns t = sint (tv_sec t) * 1000000000 + sint (tv_nsec t)"

definition ts_ok :: "timespec_t \<Rightarrow> bool" where
  "ts_ok t \<longleftrightarrow> 0 \<le> sint (tv_nsec t) \<and> sint (tv_nsec t) < 1000000000 \<and> 0 \<le> sint (tv_sec t) \<and> sint (tv_sec t) < 2 ^ 62"

lemma sint_plus_small:
  fixes a b :: u64
  assumes "- (2 ^ 63) \<le> sint a + sint b" and "sint a + sint b < 2 ^ 63"
  shows "sint (a + b) = sint a + sint b"
  using assms by (simp add: sint_word_ariths signed_take_bit_int_eq_self)

lemma sint_diff_small:
  fixes a b :: u64
  assumes "- (2 ^ 63) \<le> sint a - sint b" and "sint a - sint b < 2 ^ 63"
  shows "sint (a - b) = sint a - sint b"
  using assms by (simp add: sint_word_ariths signed_take_bit_int_eq_self)

lemma add_interval_spec:
  assumes "ts_ok d" and "ts_ok e"
  shows "ns (add_interval d e) = ns d + ns e" and "0 \<le> sint (tv_nsec (add_interval d e))" and "sint (tv_nsec (add_interval d e)) < 1000000000"
    and "sint (tv_sec d) + sint (tv_sec e) + 1 < 2 ^ 62 \<Longrightarrow> ts_ok (add_interval d e)"
proof -
  note ok = assms [unfolded ts_ok_def]
  have n: "sint (tv_nsec d + tv_nsec e) = sint (tv_nsec d) + sint (tv_nsec e)" using ok by (intro sint_plus_small) simp_all
  have n1: "sint (tv_nsec d + tv_nsec e - 1000000000) = sint (tv_nsec d) + sint (tv_nsec e) - 1000000000"
    using ok n by (subst sint_diff_small) simp_all
  have s1: "sint (tv_sec d + 1) = sint (tv_sec d) + 1" using ok by (subst sint_plus_small) simp_all
  have s2: "sint (tv_sec d + 1 + tv_sec e) = sint (tv_sec d) + 1 + sint (tv_sec e)" using ok s1 by (subst sint_plus_small) simp_all
  have s3: "sint (tv_sec d + tv_sec e) = sint (tv_sec d) + sint (tv_sec e)" using ok by (subst sint_plus_small) simp_all
  have sec: "sint (tv_sec (add_interval d e)) = sint (tv_sec d) + sint (tv_sec e) + (if sint (tv_nsec d) + sint (tv_nsec e) > 999999999 then 1 else 0)"
    using s2 s3 by (simp add: add_interval_def Let_def n)
  have nsec: "sint (tv_nsec (add_interval d e)) = sint (tv_nsec d) + sint (tv_nsec e) - (if sint (tv_nsec d) + sint (tv_nsec e) > 999999999 then 1000000000 else 0)"
    by (simp add: add_interval_def Let_def n n1)
  show "ns (add_interval d e) = ns d + ns e" unfolding ns_def sec nsec by simp
  show "0 \<le> sint (tv_nsec (add_interval d e))" "sint (tv_nsec (add_interval d e)) < 1000000000" unfolding nsec using ok by auto
  then show "ts_ok (add_interval d e)" if "sint (tv_sec d) + sint (tv_sec e) + 1 < 2 ^ 62"
    using that ok unfolding ts_ok_def sec by auto
qed

text \<open>
  Subtraction is exact unless it borrows a second: then it takes one nanosecond too much, since it
  replenishes 999999999 nanoseconds instead of a thousand million.
\<close>

lemma sub_interval_spec:
  assumes "ts_ok d" and "ts_ok e" and "sub_interval d e = (finished, r)"
  defines "borrow \<equiv> (if sint (tv_nsec e) > sint (tv_nsec d) then 1 else 0)"
  shows "ts_ok r" and "ns d - ns e - borrow < 0 \<Longrightarrow> finished \<and> ns r = 0"
    and "0 \<le> ns d - ns e - borrow \<Longrightarrow> ns r = ns d - ns e - borrow \<and> (finished \<longleftrightarrow> ns r = 0)"
proof -
  note ok = assms(1,2) [unfolded ts_ok_def]
  let ?zero = "(True, \<lparr>tv_sec = 0, tv_nsec = 0\<rparr>)"
  define rest where "rest x = (if sint (tv_sec e) > sint (tv_sec x) then ?zero
    else (tv_sec x - tv_sec e = 0 \<and> tv_nsec x = 0, x\<lparr>tv_sec := tv_sec x - tv_sec e\<rparr>))" for x
  have rest: "ts_ok r'" "ns x - sint (tv_sec e) * 1000000000 < 0 \<Longrightarrow> f \<and> ns r' = 0"
    "0 \<le> ns x - sint (tv_sec e) * 1000000000 \<Longrightarrow> ns r' = ns x - sint (tv_sec e) * 1000000000 \<and> (f \<longleftrightarrow> ns r' = 0)"
    if x: "ts_ok x" and r: "rest x = (f, r')" for x f r'
  proof -
    have d: "sint (tv_sec x - tv_sec e) = sint (tv_sec x) - sint (tv_sec e)" using ok x [unfolded ts_ok_def] by (intro sint_diff_small) simp_all
    have z: "w = 0 \<longleftrightarrow> sint w = 0" for w :: u64 by (metis sint_0 signed_word_eqI)
    have k: "0 \<le> sint (tv_nsec x)" "sint (tv_nsec x) < 1000000000" "sint (tv_sec x) < 2 ^ 62" "0 \<le> sint (tv_sec e)" using x ok by (simp_all add: ts_ok_def)
    have "ts_ok r' \<and> (ns x - sint (tv_sec e) * 1000000000 < 0 \<longrightarrow> f \<and> ns r' = 0) \<and>
      (0 \<le> ns x - sint (tv_sec e) * 1000000000 \<longrightarrow> ns r' = ns x - sint (tv_sec e) * 1000000000 \<and> (f \<longleftrightarrow> ns r' = 0))"
    proof (cases "sint (tv_sec e) > sint (tv_sec x)")
      case True
      then have "f" "r' = \<lparr>tv_sec = 0, tv_nsec = 0\<rparr>" "ns x - sint (tv_sec e) * 1000000000 < 0" using r k(2) by (simp_all add: rest_def ns_def)
      then show ?thesis by (simp add: ts_ok_def ns_def)
    next
      case False
      then have "f \<longleftrightarrow> sint (tv_sec x) - sint (tv_sec e) = 0 \<and> sint (tv_nsec x) = 0" "r' = x\<lparr>tv_sec := tv_sec x - tv_sec e\<rparr>"
        using r unfolding rest_def z d [symmetric] by auto
      moreover have "ns x - sint (tv_sec e) * 1000000000 = (sint (tv_sec x) - sint (tv_sec e)) * 1000000000 + sint (tv_nsec x)"
        by (simp add: ns_def)
      ultimately show ?thesis using False k by (auto simp: ts_ok_def ns_def d)
    qed
    then show "ts_ok r'" "ns x - sint (tv_sec e) * 1000000000 < 0 \<Longrightarrow> f \<and> ns r' = 0"
      "0 \<le> ns x - sint (tv_sec e) * 1000000000 \<Longrightarrow> ns r' = ns x - sint (tv_sec e) * 1000000000 \<and> (f \<longleftrightarrow> ns r' = 0)" by blast+
  qed
  have "ts_ok r \<and> (ns d - ns e - borrow < 0 \<longrightarrow> finished \<and> ns r = 0) \<and>
    (0 \<le> ns d - ns e - borrow \<longrightarrow> ns r = ns d - ns e - borrow \<and> (finished \<longleftrightarrow> ns r = 0))"
  proof (cases "sint (tv_nsec e) > sint (tv_nsec d)")
    case False
    let ?x = "d\<lparr>tv_nsec := tv_nsec d - tv_nsec e\<rparr>"
    have n: "sint (tv_nsec d - tv_nsec e) = sint (tv_nsec d) - sint (tv_nsec e)" using ok by (intro sint_diff_small) simp_all
    have "rest ?x = (finished, r)" using False assms(3) unfolding sub_interval_def rest_def Let_def by (simp split: if_splits)
    moreover have "ts_ok ?x" using ok False by (simp add: ts_ok_def n)
    moreover have "ns ?x - sint (tv_sec e) * 1000000000 = ns d - ns e - borrow" using False by (simp add: ns_def n borrow_def)
    ultimately show ?thesis using rest [of ?x finished r] by simp
  next
    case True
    have m: "sint (tv_nsec e - tv_nsec d) = sint (tv_nsec e) - sint (tv_nsec d)" using ok by (intro sint_diff_small) simp_all
    have n: "sint (999999999 - (tv_nsec e - tv_nsec d)) = 999999999 - (sint (tv_nsec e) - sint (tv_nsec d))"
      using ok m by (subst sint_diff_small) simp_all
    show ?thesis
    proof (cases "tv_sec d = 0")
      case zero: True
      then have "finished" "r = \<lparr>tv_sec = 0, tv_nsec = 0\<rparr>" using True assms(3) by (simp_all add: sub_interval_def Let_def)
      then show ?thesis using True zero ok by (simp add: ts_ok_def ns_def borrow_def)
    next
      case False
      let ?x = "d\<lparr>tv_nsec := 999999999 - (tv_nsec e - tv_nsec d), tv_sec := tv_sec d - 1\<rparr>"
      have "sint (tv_sec d) \<noteq> 0" using False by (metis sint_0 signed_word_eqI)
      moreover have s: "sint (tv_sec d - 1) = sint (tv_sec d) - 1" using ok by (subst sint_diff_small) simp_all
      ultimately have "ts_ok ?x" using ok True by (simp add: ts_ok_def n)
      moreover have "rest ?x = (finished, r)" using False True assms(3) unfolding sub_interval_def rest_def Let_def by (simp split: if_splits)
      moreover have "ns ?x - sint (tv_sec e) * 1000000000 = ns d - ns e - borrow" using True by (simp add: ns_def n s borrow_def)
      ultimately show ?thesis using rest [of ?x finished r] by simp
    qed
  qed
  then show "ts_ok r" "ns d - ns e - borrow < 0 \<Longrightarrow> finished \<and> ns r = 0"
    "0 \<le> ns d - ns e - borrow \<Longrightarrow> ns r = ns d - ns e - borrow \<and> (finished \<longleftrightarrow> ns r = 0)" by blast+
qed

section \<open>The tick, properties\<close>

text \<open>A sequence of timer interrupts.\<close>

primrec timer_ticks :: "cpu_ctx \<Rightarrow> nat \<Rightarrow> ('z) time_state_scheme \<Rightarrow> kstop + ('z) time_state_scheme" where
  "timer_ticks c 0 s = Inr s"
| "timer_ticks c (Suc n) s = bindR (timer_handler c s) (timer_ticks c n)"

text \<open>No armed timer is due within a tick.\<close>

definition timers_quiet :: "hpr_timer_t list \<Rightarrow> bool" where
  "timers_quiet ts \<longleftrightarrow> (\<forall>t\<in>set ts. fired t \<or> \<not> fst (sub_interval (timer_when t) tick_interval))"

lemma scan_timers_quiet: "timers_quiet ts \<Longrightarrow> scan_timers tick_interval ts = Inr ()"
  by (induction ts) (auto simp: timers_quiet_def Let_def split: prod.splits)

lemma tick_interval_ok: "ts_ok tick_interval" "ns tick_interval = 1000000" "tv_sec tick_interval = 0"
  by (simp_all add: tick_interval_def TIMER_FREQUENCY_def ts_ok_def ns_def)

lemma timer_handler_spec:
  assumes "lock_idle (timers_lock s)" and "timers_quiet (armed_timers s)"
  shows "\<exists>l. lock_idle l \<and> timer_handler c s = Inr (s\<lparr>monotonic_clock := add_interval (monotonic_clock s) tick_interval,
    realtime_clock := add_interval (realtime_clock s) tick_interval, timers_lock := l\<rparr>)"
proof -
  obtain l where t: "lock_test_and_acquire c ''timer_handler'' (timers_lock s) = (True, l)" "lock_held_on c l"
    using assms(1) by (cases "cottage_debug c") (simp_all add: lock_test_and_acquire_def lock_idle_def lock_held_on_def Let_def)
  obtain l' where "lock_release c l = Inr l'" "lock_idle l'" using lock_release_held [OF t(2)] by blast
  then show ?thesis using t(1) scan_timers_quiet [OF assms(2)] by (auto simp: timer_handler_def Let_def)
qed

text \<open>
  C32: The clocks count ticks exactly.  As long as no armed timer falls due, \<open>n\<close> timer interrupts advance both clocks by
  exactly \<open>n\<close> milliseconds and keep the nanoseconds in range; the armed timers are the same as before.
\<close>

theorem clocks_count_ticks:
  assumes "lock_idle (timers_lock s)" and "timers_quiet (armed_timers s)" and "ts_ok (monotonic_clock s)" and "ts_ok (realtime_clock s)"
    and "sint (tv_sec (monotonic_clock s)) + int n < 2 ^ 62" and "sint (tv_sec (realtime_clock s)) + int n < 2 ^ 62"
  shows "\<exists>s'. timer_ticks c n s = Inr s' \<and> ns (monotonic_clock s') = ns (monotonic_clock s) + int n * 1000000 \<and>
    ns (realtime_clock s') = ns (realtime_clock s) + int n * 1000000 \<and> ts_ok (monotonic_clock s') \<and> ts_ok (realtime_clock s') \<and>
    armed_timers s' = armed_timers s"
  using assms
proof (induction n arbitrary: s)
  case 0
  then show ?case by simp
next
  case (Suc n)
  obtain l where l: "lock_idle l" and r: "timer_handler c s = Inr (s\<lparr>monotonic_clock := add_interval (monotonic_clock s) tick_interval,
      realtime_clock := add_interval (realtime_clock s) tick_interval, timers_lock := l\<rparr>)" (is "_ = Inr ?s1")
    using timer_handler_spec [OF Suc.prems(1,2)] by blast
  have step: "ts_ok (add_interval t tick_interval) \<and> ns (add_interval t tick_interval) = ns t + 1000000 \<and>
      sint (tv_sec (add_interval t tick_interval)) + int n < 2 ^ 62"
    if t: "ts_ok t" "sint (tv_sec t) + int (Suc n) < 2 ^ 62" for t
  proof -
    have ok: "ts_ok (add_interval t tick_interval)" using add_interval_spec(4) [OF t(1) tick_interval_ok(1)] t(2) tick_interval_ok(3) by simp
    have e: "ns (add_interval t tick_interval) = ns t + 1000000" using add_interval_spec(1) [OF t(1) tick_interval_ok(1)] tick_interval_ok(2) by simp
    have "sint (tv_sec (add_interval t tick_interval)) \<le> sint (tv_sec t) + 1"
      using e ok t(1) unfolding ns_def ts_ok_def by linarith
    then show ?thesis using ok e t(2) by simp
  qed
  have "\<exists>s'. timer_ticks c n ?s1 = Inr s' \<and> ns (monotonic_clock s') = ns (monotonic_clock ?s1) + int n * 1000000 \<and>
    ns (realtime_clock s') = ns (realtime_clock ?s1) + int n * 1000000 \<and> ts_ok (monotonic_clock s') \<and> ts_ok (realtime_clock s') \<and>
    armed_timers s' = armed_timers ?s1"
    using step [OF Suc.prems(3,5)] step [OF Suc.prems(4,6)] l Suc.prems(2) by (intro Suc.IH) simp_all
  then show ?case using step [OF Suc.prems(3,5)] step [OF Suc.prems(4,6)] by (auto simp: r algebra_simps)
qed

text \<open>An armed timer does not come closer by a tick, and one that falls due stops the kernel.\<close>

lemma due_timer_panics:
  assumes "t \<in> set ts" and "\<not> fired t" and "fst (sub_interval (timer_when t) tick_interval)"
  shows "scan_timers tick_interval ts = Inl (Panic ''Event triggering is not implemented'')"
  using assms by (induction ts) (auto simp: event_trigger_def Let_def split: prod.splits)

section \<open>The interval timer, properties\<close>

text \<open>
  The reload value for a thousand interrupts per second is 1193, or \<open>0x4A9\<close>, but the high byte is taken from the
  low one: the timer is programmed with \<open>0xA9\<close>, 169, and fires about seven times too often.
\<close>

lemma pit_reload_high_byte_lost:
  "pit_set_frequency TIMER_FREQUENCY s = Inr (s\<lparr>io_log := io_log s @ [PortOut 8 0x43 0x34, PortOut 8 0x40 0xA9, PortOut 8 0x40 0]\<rparr>)"
  by (simp add: pit_set_frequency_def pit_set_reload_value_def TIMER_FREQUENCY_def PIT_DIVIDEND_def io_defs)

section \<open>Waiting, properties\<close>

lemma sleep_until_returns:
  assumes "deadline \<le> io_device s (io_log s @ replicate (Suc n) (MmIn 64 (hpet s + 0xf0)))"
  shows "\<exists>s' k. sleep_until deadline s = Some s' \<and> io_log s' = io_log s @ replicate (Suc k) (MmIn 64 (hpet s + 0xf0)) \<and>
    deadline \<le> io_device s (io_log s') \<and> s' = s\<lparr>io_log := io_log s'\<rparr> \<and>
    (\<forall>j<k. io_device s (io_log s @ replicate (Suc j) (MmIn 64 (hpet s + 0xf0))) < deadline)"
  using assms
proof (induction n arbitrary: s)
  case 0
  then show ?case
    by (intro exI [of _ "s\<lparr>io_log := io_log s @ [MmIn 64 (hpet s + 0xf0)]\<rparr>"] exI [of _ 0])
      (subst sleep_until.simps, simp add: io_defs Let_def leD)
next
  case (Suc n)
  let ?r = "MmIn 64 (hpet s + 0xf0)"
  let ?s1 = "s\<lparr>io_log := io_log s @ [?r]\<rparr>"
  have rd: "mmin64 (hpet s + 0xf0) s = (io_device s (io_log s @ [?r]), ?s1)" by (simp add: io_defs Let_def)
  show ?case
  proof (cases "io_device s (io_log s @ [?r]) < deadline")
    case False
    then show ?thesis by (intro exI [of _ ?s1] exI [of _ 0]) (subst sleep_until.simps, simp add: rd Let_def leI)
  next
    case True
    then have e: "sleep_until deadline s = sleep_until deadline ?s1" by (subst sleep_until.simps) (simp add: rd Let_def)
    have "deadline \<le> io_device ?s1 (io_log ?s1 @ replicate (Suc n) (MmIn 64 (hpet ?s1 + 0xf0)))" using Suc.prems by simp
    from Suc.IH [OF this] obtain s' k where i: "sleep_until deadline ?s1 = Some s'" "io_log s' = io_log ?s1 @ replicate (Suc k) ?r"
      "deadline \<le> io_device s (io_log s')" "s' = ?s1\<lparr>io_log := io_log s'\<rparr>"
      "\<forall>j<k. io_device s (io_log s @ ?r # replicate (Suc j) ?r) < deadline" by auto
    have "io_device s (io_log s @ replicate (Suc j) ?r) < deadline" if "j < Suc k" for j
      using that True i(5) by (cases j) auto
    moreover have "io_log s' = io_log s @ replicate (Suc (Suc k)) ?r" "s' = s\<lparr>io_log := io_log s'\<rparr>" using i(2,4) by simp_all
    ultimately show ?thesis using e i(1,3) by (intro exI [of _ s'] exI [of _ "Suc k"]) simp
  qed
qed


text \<open>Less than eight milliseconds are rounded down to nothing: the deadline is the time of the call.\<close>

lemma sleep_ignores_short:
  assumes "ms < 8" and "hpet_period (io_device s (io_log s @ [MmIn 64 (hpet s + 0xf0), MmIn 64 (hpet s)])) \<noteq> 0"
  shows "sleep ms s = map_option Inr (sleep_until (io_device s (io_log s @ [MmIn 64 (hpet s + 0xf0)]))
    (s\<lparr>io_log := io_log s @ [MmIn 64 (hpet s + 0xf0), MmIn 64 (hpet s)]\<rparr>))"
proof -
  have "ms div 8 = 0" using assms(1) by (simp add: div_word_less)
  then show ?thesis using assms(2) by (simp add: sleep_def io_defs Let_def hpet_period_def)
qed

section \<open>A concrete clock\<close>

text \<open>A machine whose counter has a period of ten nanoseconds and stands still for ten accesses before it jumps ahead.\<close>

definition demo_time :: time_state where
  "demo_time =
     \<lparr>io_log = [],
      io_device = (\<lambda>log. if last log = MmIn 64 0xFFFF8000FED00000 then 0x0098968000000000 else if length log < 10 then 5 else - 1),
      lapic_base = 0, apic_base_msr = 0xFEE00900, hpet = 0xFFFF8000FED00000, have_hpet = True, madt_io_apics = [], madt_isos = [],
      monotonic_clock = \<lparr>tv_sec = 1700000000, tv_nsec = 999500000\<rparr>, realtime_clock = \<lparr>tv_sec = 1700000000, tv_nsec = 0\<rparr>,
      timers_lock = LOCK_INITIALIZER (Some ''timers_lock''), armed_timers = [], hpet_boot_value = 0, hpet_ticks_per_ms = 100000\<rparr>"

theorem clocks_count_ticks_witness:
  "\<exists>s'. timer_ticks (debug_cpu 0) 1500 demo_time = Inr s' \<and> ns (monotonic_clock s') = 1700000002499500000"
proof -
  have "lock_idle (timers_lock demo_time)" "timers_quiet (armed_timers demo_time)" "ts_ok (monotonic_clock demo_time)" "ts_ok (realtime_clock demo_time)"
    "sint (tv_sec (monotonic_clock demo_time)) + int 1500 < 2 ^ 62" "sint (tv_sec (realtime_clock demo_time)) + int 1500 < 2 ^ 62"
    by (simp_all add: demo_time_def timers_quiet_def ts_ok_def)
  from clocks_count_ticks [OF this, of "debug_cpu 0"] show ?thesis by (auto simp: demo_time_def ns_def)
qed


end
