(* ===== verification/HeapResize.thy ===== *)
theory HeapResize
  imports HeapUse
begin

text \<open>
  The contract of \<^verbatim>\<open>realloc\<close> for clients that grow a block again and again.  A block keeps its first \<open>used\<close>
  bytes when it is resized, where \<open>used\<close> is the size the heap has recorded for it; the locale \<open>resizer\<close>
  adds to the contract of \<^verbatim>\<open>malloc\<close> and \<^verbatim>\<open>free\<close> what every operation does to that size.
\<close>

locale resizer = allocator +
  fixes resize :: "addr \<Rightarrow> u64 \<Rightarrow> 'a \<Rightarrow> kstop + (addr \<times> 'a)"
    and used :: "'a \<Rightarrow> addr \<Rightarrow> nat \<Rightarrow> nat"
  assumes resize_stops: "has h L \<Longrightarrow> (p, m) \<in> L \<Longrightarrow> unat n < 2 ^ 63 \<Longrightarrow> resize p n h = Inl e \<Longrightarrow> e = Panic ''Kernel OOM''"
    and resize_live: "has h L \<Longrightarrow> (p, m) \<in> L \<Longrightarrow> unat n < 2 ^ 63 \<Longrightarrow> resize p n h = Inr (p', h') \<Longrightarrow>
      \<exists>m'\<ge>unat n. p' \<noteq> 0 \<and> has h' (insert (p', m') (L - {(p, m)})) \<and> unat n \<le> used h' p' m' \<and>
        load_bytes (contents h') p' (min (unat n) (used h p m)) = load_bytes (contents h) p (min (unat n) (used h p m)) \<and>
        (\<forall>(q, k)\<in>L - {(p, m)}. \<forall>x. in_range q k x \<longrightarrow> contents h' x = contents h x)"
    and resize_fresh: "has h L \<Longrightarrow> (p, m) \<in> L \<Longrightarrow> unat n < 2 ^ 63 \<Longrightarrow> resize p n h = Inr (p', h') \<Longrightarrow> (p', k) \<notin> L - {(p, m)}"
    and alloc_used: "has h L \<Longrightarrow> unat n < 2 ^ 63 \<Longrightarrow> alloc n h = Inr (p, h') \<Longrightarrow> has h' L' \<Longrightarrow> (p, m) \<in> L' \<Longrightarrow>
      unat n \<le> m \<Longrightarrow> unat n \<le> used h' p m"
    and put_used: "has h L \<Longrightarrow> (p, m) \<in> L \<Longrightarrow> (q, k) \<in> L \<Longrightarrow> (\<And>x. in_range a (length bs) x \<Longrightarrow> in_range p m x) \<Longrightarrow>
      length bs \<le> 2 ^ 63 \<Longrightarrow> used (put a bs h) q k = used h q k"
begin

lemma put_inside_used:
  assumes "has h L" and "(p, m) \<in> L" and "(q, k) \<in> L" and "off + length bs \<le> m"
  shows "used (put (p + of_nat off) bs h) q k = used h q k"
  using assms live_size [OF assms(1,2)] inside_block [OF assms(1,2,4)] by (intro put_used [OF assms(1-3)]) auto

lemma grow_keeps:
  assumes "has h L" and "(p, m) \<in> L" and "unat n < 2 ^ 63" and "resize p n h = Inr (p', h')" and "sz \<le> used h p m" and "sz \<le> unat n"
  shows "load_bytes (contents h') p' sz = load_bytes (contents h) p sz"
proof -
  let ?k = "min (unat n) (used h p m)"
  have "load_bytes (contents h') p' ?k = load_bytes (contents h) p ?k" using resize_live [OF assms(1-4)] by blast
  moreover have "load_bytes mm x sz = take sz (load_bytes mm x ?k)" for mm x using assms(5,6) by (simp add: load_bytes_def take_map min_def)
  ultimately show ?thesis by metis
qed

end

section \<open>The kernel heap keeps the contract\<close>

lemma heap_used_cong:
  assumes "\<And>x. p AND 0xFFF = 0 \<Longrightarrow> in_range (p - PAGE_SIZE) 16 x \<Longrightarrow> mem s' x = mem s x"
  shows "heap_used s' p m = heap_used s p m"
proof (cases "p AND 0xFFF = 0")
  case True
  have "ld64 s' (p - PAGE_SIZE + 8) = ld64 s (p - PAGE_SIZE + 8)" unfolding ld64_def
  proof (rule load64_cong)
    fix i :: nat
    assume "i < 8"
    then have "in_range a 16 (a + 8 + of_nat i)" for a using in_range_offset [of "8 + i" 16 a] by (simp add: add.assoc)
    then show "mem s' (p - PAGE_SIZE + 8 + of_nat i) = mem s (p - PAGE_SIZE + 8 + of_nat i)" by (rule assms [OF True])
  qed
  then show ?thesis by (simp add: heap_used_def)
qed (simp add: heap_used_def)

lemma heap_used_write:
  assumes "heap_inv s G F B" and "(p, m) \<in> heap_live G F B" and "(q, k) \<in> heap_live G F B"
    and "\<And>x. \<not> in_range p m x \<Longrightarrow> mem s' x = mem s x"
  shows "heap_used s' q k = heap_used s q k"
proof (rule heap_used_cong)
  fix x
  assume q: "q AND 0xFFF = 0" and x: "in_range (q - PAGE_SIZE) 16 x"
  obtain f n where "B f = Some n" "q - PAGE_SIZE = frame_addr f" using live_large [OF assms(1,3) q] by metis
  then show "mem s' x = mem s x" using live_apart(3) [OF assms(1,2)] x by (intro assms(4)) metis
qed

lemma heap_used_free:
  assumes "heap_inv s G F B" and "(p, m) \<in> heap_live G F B" and "(q, k) \<in> heap_live G F B" and "free c p s = Inr s'"
  shows "heap_used s' q k = heap_used s q k"
proof (rule heap_used_cong)
  fix x
  assume q: "q AND 0xFFF = 0" and x16: "in_range (q - PAGE_SIZE) 16 x"
  note inv = heap_invD [OF assms(1)]
  obtain f n where f: "B f = Some n" "q - PAGE_SIZE = frame_addr f" using live_large [OF assms(1,3) q] by metis
  have ff: "f \<in> heap_frame G B" using f(1) by (intro heap_frameI(2) [of B f n]) simp_all
  have x: "in_range (frame_addr f) 0x1000 x" using in_range_le [OF x16, of "0x1000"] f(2) by simp
  show "mem s' x = mem s x" using assms(1,2)
  proof (cases rule: heap_live_cases)
    case (slab i)
    have i: "i \<in> {..<SLAB_COUNT}" using slab(1) by simp
    have bl: "p \<in> blocks i (G i)" using slab(2) by (simp add: slab_live_def)
    note pg = block_page [OF slab(1) slab_frames_bound [OF inv(2) i] bl]
    obtain g where g: "g \<in> G i" "p AND NOT 0xFFF = frame_addr g" using pg(3) by blast
    have "ld64 s (frame_addr g) = slab_ptr s i" using slab_invD(7) [OF inv(2) i g(1)] by (simp add: slab_frame_def)
    then have fr: "free c p s = slab_free c (slab_ptr s i) p s" using pg(1,2) g(2) by (simp add: free_def Let_def)
    have "\<not> in_range (slab_ptr s i) 8 x"
      using heap_frame_facts(5) [OF assms(1) ff] x slab_ptr_in_table [OF inv(4) slab(1)] in_range_le [of _ 8 x 16]
      unfolding disjoint_regions_def by auto
    moreover have "\<not> in_range p 8 x"
      using live_apart(3) [OF assms(1,2) _ f(1), of x] in_range_le [of p 8 x m] ent_values(2) [OF slab(1)] slab(3) x16 f(2) by metis
    ultimately show ?thesis using slab_free_spec [OF inv(1) i slab(2), of c] assms(4) fr by auto
  next
    case (big g j)
    then show ?thesis using free_large [OF assms(1) big(1), of c] assms(4) ff x by auto
  qed
qed

lemma heap_used_malloc:
  assumes "heap_inv s G F B" and "unat len < 2 ^ 63" and "malloc c len s = Inr (p, s')" and "unat len \<le> m"
  shows "unat len \<le> heap_used s' p m"
proof (cases "p AND 0xFFF = 0")
  case True
  have big: "1016 < unat len"
  proof (rule ccontr)
    assume "\<not> 1016 < unat len"
    then obtain G' F' where r: "heap_inv s' G' F' B" "heap_extends s (heap_live G F B) (unat len) p s' (heap_live G' F' B)"
      using malloc_small [OF assms(1), of len c] assms(3) by auto
    then obtain k where k: "(p, k) \<in> heap_live G' F' B" "\<forall>(q, j)\<in>heap_live G F B. disjoint_regions p k q j"
      unfolding heap_extends_def by blast
    have "(p, k) \<in> heap_live G F B" using live_large [OF r(1) k(1) True] by (metis heap_live_iff)
    then show False using k live_pos [OF r(1) k(1)] by (auto simp: disjoint_regions_def in_range_def dest!: spec [where x = p])
  qed
  have "unat (8 + len) = 8 + unat len" using assms(2) by (subst unat_add_small) simp_all
  then have "find_slab (8 + len) s = 0" using find_slab_cases(1) [OF heap_invD(2) [OF assms(1)], of "8 + len"] big by simp
  then have "malloc c len s = bindR (big_malloc c len (s\<lparr>have_malloc := False\<rparr>)) (\<lambda>(ret, s2). Inr (ret, s2\<lparr>have_malloc := True\<rparr>))"
    by (simp add: malloc_def Let_def)
  moreover have "p \<noteq> 0" using malloc_spec [OF assms(1,2), of c] assms(3) by (auto simp: heap_extends_def)
  ultimately have "ld64 s' (p - PAGE_SIZE + 8) = len" using assms(3)
    by (cases "pmm_alloc c (div_roundup len PAGE_SIZE + 1) (s\<lparr>have_malloc := False\<rparr>)")
      (auto simp: big_malloc_def Let_def ld64_def st64_def split: if_splits)
  then show ?thesis using True by (simp add: heap_used_def)
qed (use assms(4) in \<open>simp add: heap_used_def\<close>)

text \<open>The ways \<^verbatim>\<open>realloc\<close> can return: in place, or by moving the contents to a fresh allocation.\<close>

lemma realloc_ways:
  assumes inv0: "heap_inv s G F B" and pm: "(p, m) \<in> heap_live G F B" and len: "unat len < 2 ^ 63" and r: "realloc c p len s = Inr (p', s')"
  shows "p' = p \<and> p AND 0xFFF \<noteq> 0 \<or> p' = p \<and> s' = st64 (p - PAGE_SIZE + 8) len s \<or>
    (\<exists>s1 n. malloc c len s = Inr (p', s1) \<and> unat n \<le> unat len \<and> free c p (s1\<lparr>mem := snd (memcpy (mem s1) p' p n)\<rparr>) = Inr s')"
proof (cases "p AND 0xFFF = 0")
  case True
  obtain f n where "p \<noteq> 0" "big_ok s f n" "p - PAGE_SIZE = frame_addr f" "m = n * 0x1000" using live_large [OF inv0 pm True] by metis
  show ?thesis
  proof (cases "div_roundup (ld64 s (p - PAGE_SIZE + 8)) PAGE_SIZE = div_roundup len PAGE_SIZE")
    case same: True
    then show ?thesis using r True \<open>p \<noteq> 0\<close> by (auto simp: realloc_def big_realloc_def Let_def)
  next
    case False
    have re: "realloc c p len s = big_realloc c p len s" using True \<open>p \<noteq> 0\<close> by (simp add: realloc_def)
    obtain p1 s1 where m: "malloc c len s = Inr (p1, s1)" using r False unfolding re
      by (cases "malloc c len s") (auto simp: big_realloc_def Let_def)
    have "p1 \<noteq> 0" using malloc_spec [OF inv0 len, of c] m by (auto simp: heap_extends_def)
    define k where "k = (if ld64 s1 (p - PAGE_SIZE + 8) > len then len else ld64 s1 (p - PAGE_SIZE + 8))"
    have "realloc c p len s = bindR (free c p (s1\<lparr>mem := snd (memcpy (mem s1) p1 p k)\<rparr>)) (\<lambda>s3. Inr (p1, s3))"
      using False \<open>p1 \<noteq> 0\<close> unfolding re by (simp add: big_realloc_def Let_def m k_def)
    then have "p' = p1" "free c p (s1\<lparr>mem := snd (memcpy (mem s1) p1 p k)\<rparr>) = Inr s'" using r
      by (cases "free c p (s1\<lparr>mem := snd (memcpy (mem s1) p1 p k)\<rparr>)"; simp)+
    moreover have "unat k \<le> unat len" by (simp add: k_def word_less_nat_alt)
    ultimately show ?thesis using m by blast
  qed
next
  case False
  note l = live_small [OF inv0 pm False]
  have um: "unat (of_nat m :: u64) = m" using l(2) by (intro unat_of_nat_u64) simp
  show ?thesis
  proof (cases "unat len \<le> m")
    case True
    then show ?thesis using r False l by (simp add: realloc_def Let_def word_less_nat_alt um)
  next
    case grow: False
    then have re: "realloc c p len s = bindR (malloc c len s) (\<lambda>(new_ptr, s1).
        let s2 = s1\<lparr>mem := snd (memcpy (mem s1) new_ptr p (ld64 s1 (ld64 s1 (p AND NOT 0xFFF) + 8)))\<rparr>
        in bindR (slab_free c (ld64 s2 (p AND NOT 0xFFF)) p s2) (\<lambda>s3. Inr (new_ptr, s3)))"
      using False l by (simp add: realloc_def Let_def word_less_nat_alt um)
    obtain p1 s1 where m: "malloc c len s = Inr (p1, s1)" using r unfolding re by (cases "malloc c len s") auto
    obtain G1 F1 B1 where e: "heap_inv s1 G1 F1 B1" "(p, m) \<in> heap_live G1 F1 B1"
      using malloc_spec [OF inv0 len, of c] m pm by (auto simp: heap_extends_def)
    let ?s2 = "s1\<lparr>mem := snd (memcpy (mem s1) p1 p (of_nat m))\<rparr>"
    have "realloc c p len s = bindR (free c p ?s2) (\<lambda>s3. Inr (p1, s3))"
      using False l(3) live_small(1) [OF e False] unfolding re by (simp add: m Let_def free_def)
    then have "p' = p1" "free c p ?s2 = Inr s'" using r by (cases "free c p ?s2"; simp)+
    then show ?thesis using m grow um by (metis nat_le_linear)
  qed
qed

lemma mempcpy_outside: "\<not> in_range d n x \<Longrightarrow> snd (mempcpy_loop m d s n) x = m x"
proof (induction n arbitrary: m d s)
  case (Suc n)
  have "x \<noteq> d" using Suc.prems by (auto simp: in_range_def)
  then have "\<not> in_range (d + 1) n x" using Suc.prems unat_minus_Suc [of x d] by (simp add: in_range_def)
  then show ?case using Suc.IH \<open>x \<noteq> d\<close> by simp
qed simp

lemma heap_used_realloc:
  assumes "heap_inv s G F B" and "(p, m) \<in> heap_live G F B" and "unat len < 2 ^ 63" and "realloc c p len s = Inr (p', s')" and "unat len \<le> m'"
  shows "unat len \<le> heap_used s' p' m'"
  using realloc_ways [OF assms(1-4)]
proof (elim disjE conjE exE)
  assume "p' = p" "p AND 0xFFF \<noteq> 0"
  then show ?thesis using assms(5) by (simp add: heap_used_def)
next
  assume "p' = p" "s' = st64 (p - PAGE_SIZE + 8) len s"
  then show ?thesis using assms(5) by (simp add: heap_used_def ld64_def st64_def)
next
  fix s1 n
  assume r: "malloc c len s = Inr (p', s1)" and n: "unat n \<le> unat len" and f: "free c p (s1\<lparr>mem := snd (memcpy (mem s1) p' p n)\<rparr>) = Inr s'"
  define s2 where "s2 = s1\<lparr>mem := snd (memcpy (mem s1) p' p n)\<rparr>"
  obtain G1 F1 B1 k where e: "heap_inv s1 G1 F1 B1" "heap_live G1 F1 B1 = insert (p', k) (heap_live G F B)" "unat len \<le> k"
    using malloc_spec [OF assms(1,3), of c] r unfolding heap_extends_def by auto
  have pk: "(p', k) \<in> heap_live G1 F1 B1" "(p, m) \<in> heap_live G1 F1 B1" using e(2) assms(2) by simp_all
  have out: "mem s2 x = mem s1 x" if "\<not> in_range p' k x" for x
    using that in_range_le [of p' "unat n" x k] n e(3) mempcpy_outside [of p' "unat n" x "mem s1" p]
    unfolding s2_def by (auto simp: memcpy_def mempcpy_def)
  have inv2: "heap_inv s2 G1 F1 B1" by (rule heap_write [OF e(1) pk(1) out]) (simp_all add: s2_def)
  have "unat len \<le> heap_used s1 p' k" by (rule heap_used_malloc [OF assms(1,3) r e(3)])
  also have "\<dots> = heap_used s2 p' k" using heap_used_write [OF e(1) pk(1,1) out] by simp
  also have "\<dots> = heap_used s' p' k" using heap_used_free [OF inv2 pk(2,1)] f by (simp add: s2_def)
  finally show ?thesis using assms(5) by (simp add: heap_used_def split: if_splits)
qed

lemma realloc_fresh:
  assumes "heap_has h L" and "(p, m) \<in> L" and "unat n < 2 ^ 63" and "realloc c p n h = Inr (p', h')"
  shows "(p', k) \<notin> L - {(p, m)}"
proof
  assume k: "(p', k) \<in> L - {(p, m)}"
  then have "p' \<noteq> p" using kheap.live_unique [OF assms(1,2)] by blast
  moreover obtain G F B where "heap_inv h G F B" "L = heap_live G F B" using assms(1) by (auto simp: heap_has_def)
  ultimately obtain s1 where r: "malloc c n h = Inr (p', s1)" using realloc_ways [of h G F B p m n c p' h'] assms by blast
  obtain j where j: "heap_has s1 (insert (p', j) L)" "\<forall>(q, k)\<in>L. disjoint_regions p' j q k"
    using kheap.alloc_fresh [OF assms(1,3) r] by blast
  then have "disjoint_regions p' j p' k" "0 < j" "0 < k" using k kheap.live_size by blast+
  then show False by (auto simp: disjoint_regions_def in_range_def dest!: spec [where x = p'])
qed

interpretation kresize: resizer heap_has "malloc c" "free c" mem heap_put "realloc c" heap_used for c
proof
  fix h :: heap_state and L n e p p' h' m q k a bs L'
  show "e = Panic ''Kernel OOM''" if "heap_has h L" "(p, m) \<in> L" "unat n < 2 ^ 63" "realloc c p n h = Inl e"
    using that realloc_spec [where c = c and len = n] by (fastforce simp: heap_has_def)
  show "\<exists>m'\<ge>unat n. p' \<noteq> 0 \<and> heap_has h' (insert (p', m') (L - {(p, m)})) \<and> unat n \<le> heap_used h' p' m' \<and>
      load_bytes (mem h') p' (min (unat n) (heap_used h p m)) = load_bytes (mem h) p (min (unat n) (heap_used h p m)) \<and>
      (\<forall>(q, k)\<in>L - {(p, m)}. \<forall>x. in_range q k x \<longrightarrow> mem h' x = mem h x)"
    if pre: "heap_has h L" "(p, m) \<in> L" "unat n < 2 ^ 63" "realloc c p n h = Inr (p', h')"
  proof -
    obtain G F B where inv: "heap_inv h G F B" "L = heap_live G F B" using pre(1) by (auto simp: heap_has_def)
    have pm: "(p, m) \<in> heap_live G F B" using pre(2) inv(2) by simp
    obtain G' F' B' where r: "heap_inv h' G' F' B'"
      "heap_resizes h L (p, m) (min (unat n) (heap_used h p m)) (unat n) p' h' (heap_live G' F' B')"
      using realloc_spec [OF inv(1) pm pre(3), of c] pre(4) inv(2) by auto
    then obtain m' where m': "unat n \<le> m'" "p' \<noteq> 0" "heap_live G' F' B' = insert (p', m') (L - {(p, m)})"
      "\<forall>i<min (unat n) (heap_used h p m). mem h' (p' + of_nat i) = mem h (p + of_nat i)"
      "\<forall>(q, k)\<in>L - {(p, m)}. \<forall>x. in_range q k x \<longrightarrow> mem h' x = mem h x"
      unfolding heap_resizes_def by auto
    have "heap_has h' (insert (p', m') (L - {(p, m)}))" using r(1) m'(3) unfolding heap_has_def by metis
    moreover have "unat n \<le> heap_used h' p' m'" by (rule heap_used_realloc [OF inv(1) pm pre(3,4) m'(1)])
    ultimately show ?thesis using m'(1,2,4,5) by (auto simp: load_bytes_def)
  qed
  show "(p', k) \<notin> L - {(p, m)}" if "heap_has h L" "(p, m) \<in> L" "unat n < 2 ^ 63" "realloc c p n h = Inr (p', h')"
    using that by (rule realloc_fresh)
  show "unat n \<le> heap_used h' p m" if "heap_has h L" "unat n < 2 ^ 63" "malloc c n h = Inr (p, h')" "unat n \<le> m"
    using that heap_used_malloc unfolding heap_has_def by blast
  show "heap_used (heap_put a bs h) q k = heap_used h q k"
    if pre: "heap_has h L" "(p, m) \<in> L" "(q, k) \<in> L" "\<And>x. in_range a (length bs) x \<Longrightarrow> in_range p m x" "length bs \<le> 2 ^ 63"
  proof -
    obtain G F B where inv: "heap_inv h G F B" "L = heap_live G F B" using pre(1) by (auto simp: heap_has_def)
    have "mem (heap_put a bs h) x = mem h x" if "\<not> in_range p m x" for x
      using that pre(4,5) store_bytes_outside [of bs a x] by (simp add: heap_put_def) fastforce
    then show ?thesis using heap_used_write [OF inv(1)] pre(2,3) inv(2) by blast
  qed
qed

end
