(* ===== verification/Tmpfs.thy ===== *)
theory Tmpfs
  imports Socket Timer HeapResize
begin

text \<open>
  The memory file system of \<^verbatim>\<open>kernel/src/fs/tmpfs.c\<close> with the node constructor of \<^verbatim>\<open>kernel/src/fs/fs.c\<close>.

  Nodes and resources are objects of typed stores at the addresses of their heap blocks; the contents of a file
  are a heap block of their own, in the byte memory of the heap, that grows by \<^verbatim>\<open>realloc\<close>.  The caller's memory is
  an argument.  The function pointers of a resource are the constant table of this file and are left out.
\<close>

section \<open>State\<close>

record tmpfs_resource_t =
  rs_lock :: lock_t
  st_device :: u64
  st_inode :: u64
  st_mode :: u32
  st_nlink :: u32
  st_size :: u64
  accessed_time :: timespec_t
  modified_time :: timespec_t
  created_time :: timespec_t
  st_block_size :: u64
  st_blocks :: u64
  rs_refcount :: u32
  can_mmap :: bool
  storage :: addr
  capacity :: u64

record tmpfs_t =
  fs_dev_id :: u64
  inode_counter :: u64

record tmpfs_state =
  kheap_of :: heap_state
  resource_at :: "addr \<Rightarrow> tmpfs_resource_t"
  vnode_at :: "addr \<Rightarrow> vfs_node_t"
  tmpfs_at :: "addr \<Rightarrow> tmpfs_t"
  dev_id_counter :: u64
  wall_clock :: timespec_t

record fs_sizes =
  sz_vfs_node :: u64
  sz_resource :: u64
  sz_tmpfs_resource :: u64
  sz_tmpfs :: u64

abbreviation (input) STAT_IFDIR :: u32 where "STAT_IFDIR \<equiv> 0x4000"
abbreviation (input) STAT_IFREG :: u32 where "STAT_IFREG \<equiv> 0x8000"
abbreviation (input) STAT_IFLNK :: u32 where "STAT_IFLNK \<equiv> 0xA000"
abbreviation (input) MMAP_MAP_SHARED :: u32 where "MMAP_MAP_SHARED \<equiv> 2"

definition stat_is_dir :: "u32 \<Rightarrow> bool" where "stat_is_dir mode \<longleftrightarrow> mode AND STAT_IFDIR = STAT_IFDIR"
definition stat_is_reg :: "u32 \<Rightarrow> bool" where "stat_is_reg mode \<longleftrightarrow> mode AND STAT_IFREG = STAT_IFREG"
definition stat_is_lnk :: "u32 \<Rightarrow> bool" where "stat_is_lnk mode \<longleftrightarrow> mode AND STAT_IFLNK = STAT_IFLNK"

definition resource_create_dev_id :: "tmpfs_state \<Rightarrow> u64 \<times> tmpfs_state" where
  "resource_create_dev_id s = (dev_id_counter s, s\<lparr>dev_id_counter := dev_id_counter s + 1\<rparr>)"

section \<open>Nodes\<close>

definition vfs_create_node ::
  "cpu_ctx \<Rightarrow> fs_sizes \<Rightarrow> addr \<Rightarrow> addr \<Rightarrow> string \<Rightarrow> bool \<Rightarrow> tmpfs_state \<Rightarrow> kstop + (addr \<times> tmpfs_state)" where
  "vfs_create_node c sz fs par nm dir s =
     bindR (malloc c (sz_vfs_node sz) (kheap_of s)) (\<lambda>(node, h1).
     bindR (malloc c (of_nat (length nm + 1)) h1) (\<lambda>(_, h2).
     bindR (malloc c (sz_resource sz) h2) (\<lambda>(res, h3).
     bindR (if dir then malloc c (sz_vfs_node sz) h3 else Inr (0, h3)) (\<lambda>(ch, h4).
       Inr (node, s\<lparr>kheap_of := h4, vnode_at := (vnode_at s)(node :=
         \<lparr>mountpoint = 0, redir = 0, vn_resource = res, filesystem = fs, vn_name = nm, parent = par, children = ch,
          children_count = (if dir then 0 else - 1), symlink_target = 0\<rparr>)\<rparr>)))))"

text \<open>The fields that every new resource of the file system gets; the rest of the zeroed block is zero.\<close>

definition new_resource :: "u32 \<Rightarrow> u64 \<Rightarrow> addr \<Rightarrow> u64 \<Rightarrow> bool \<Rightarrow> addr \<Rightarrow> tmpfs_state \<Rightarrow> tmpfs_resource_t" where
  "new_resource mode sz store cap mm self s =
     \<lparr>rs_lock = \<lparr>is_locked = False, owner_cpu = 0, acquire_caller = 0, acquire_count = 0, lock_name = None\<rparr>,
      st_device = fs_dev_id (tmpfs_at s self), st_inode = inode_counter (tmpfs_at s self), st_mode = mode, st_nlink = 1, st_size = sz,
      accessed_time = wall_clock s, modified_time = wall_clock s, created_time = wall_clock s, st_block_size = 512, st_blocks = 0,
      rs_refcount = 1, can_mmap = mm, storage = store, capacity = cap\<rparr>"

definition take_inode :: "addr \<Rightarrow> tmpfs_state \<Rightarrow> tmpfs_state" where
  "take_inode self s = s\<lparr>tmpfs_at := (tmpfs_at s)(self := (tmpfs_at s self)\<lparr>inode_counter := inode_counter (tmpfs_at s self) + 1\<rparr>)\<rparr>"

definition tmpfs_create_node ::
  "cpu_ctx \<Rightarrow> fs_sizes \<Rightarrow> addr \<Rightarrow> addr \<Rightarrow> string \<Rightarrow> u32 \<Rightarrow> tmpfs_state \<Rightarrow> kstop + (addr \<times> tmpfs_state)" where
  "tmpfs_create_node c sz self par nm mode s =
     bindR (vfs_create_node c sz self par nm (stat_is_dir mode) s) (\<lambda>(node, s1).
     bindR (malloc c (sz_tmpfs_resource sz) (kheap_of s1)) (\<lambda>(res, h1).
     bindR (if stat_is_reg mode then malloc c 4096 h1 else Inr (0, h1)) (\<lambda>(store, h2).
       let r = new_resource mode 0 store (if stat_is_reg mode then 4096 else 0) (stat_is_reg mode) self s1;
           s2 = take_inode self s1
       in Inr (node, s2\<lparr>kheap_of := h2, resource_at := (resource_at s2)(res := r),
                        vnode_at := (vnode_at s2)(node := (vnode_at s2 node)\<lparr>vn_resource := res\<rparr>)\<rparr>))))"

definition tmpfs_symlink ::
  "cpu_ctx \<Rightarrow> fs_sizes \<Rightarrow> addr \<Rightarrow> addr \<Rightarrow> addr \<Rightarrow> string \<Rightarrow> tmpfs_state \<Rightarrow> kstop + (addr \<times> tmpfs_state)" where
  "tmpfs_symlink c sz self par dest target s =
     bindR (vfs_create_node c sz self par target False s) (\<lambda>(node, s1).
     bindR (malloc c (sz_tmpfs_resource sz) (kheap_of s1)) (\<lambda>(res, h1).
       let r = new_resource (STAT_IFLNK OR 0x1FF) (of_nat (length target)) 0 0 False self s1;
           s2 = take_inode self s1
       in Inr (node, s2\<lparr>kheap_of := h1, resource_at := (resource_at s2)(res := r),
                        vnode_at := (vnode_at s2)(node := (vnode_at s2 node)\<lparr>vn_resource := res, symlink_target := dest\<rparr>)\<rparr>)))"

definition tmpfs_link ::
  "cpu_ctx \<Rightarrow> fs_sizes \<Rightarrow> addr \<Rightarrow> addr \<Rightarrow> string \<Rightarrow> addr \<Rightarrow> tmpfs_state \<Rightarrow> kstop + (addr \<times> tmpfs_state)" where
  "tmpfs_link c sz self par dest target s =
     bindR (vfs_create_node c sz self par dest False s) (\<lambda>(node, s1).
       let res = vn_resource (vnode_at s1 target);
           s2 = s1\<lparr>resource_at := (resource_at s1)(res := (resource_at s1 res)\<lparr>rs_refcount := rs_refcount (resource_at s1 res) + 1\<rparr>)\<rparr>
       in Inr (node, s2\<lparr>vnode_at := (vnode_at s2)(node := (vnode_at s2 node)
                          \<lparr>vn_resource := res, children := children (vnode_at s2 target)\<rparr>)\<rparr>))"

definition tmpfs_create :: "cpu_ctx \<Rightarrow> fs_sizes \<Rightarrow> tmpfs_state \<Rightarrow> kstop + (addr \<times> tmpfs_state)" where
  "tmpfs_create c sz s =
     bindR (malloc c (sz_tmpfs sz) (kheap_of s)) (\<lambda>(ret, h).
       Inr (ret, s\<lparr>kheap_of := h, tmpfs_at := (tmpfs_at s)(ret := \<lparr>fs_dev_id = 0, inode_counter = 0\<rparr>)\<rparr>))"

definition tmpfs_init :: "addr \<Rightarrow> addr" where "tmpfs_init self = self"

definition tmpfs_close :: "addr \<Rightarrow> kstop + unit" where
  "tmpfs_close self = Inl (Panic ''TMPFS should never be closed!'')"

definition tmpfs_mount ::
  "cpu_ctx \<Rightarrow> fs_sizes \<Rightarrow> addr \<Rightarrow> addr \<Rightarrow> string \<Rightarrow> tmpfs_state \<Rightarrow> kstop + (addr \<times> tmpfs_state)" where
  "tmpfs_mount c sz self par nm s =
     (let (dev, s1) = resource_create_dev_id s
      in tmpfs_create_node c sz self par nm (0x1A4 OR STAT_IFDIR)
           (s1\<lparr>tmpfs_at := (tmpfs_at s1)(self := (tmpfs_at s1 self)\<lparr>fs_dev_id := dev\<rparr>)\<rparr>))"

section \<open>File operations\<close>

text \<open>The loop that doubles the capacity.\<close>

partial_function (option) grow_capacity :: "u64 \<Rightarrow> u64 \<Rightarrow> u64 option" where
  "grow_capacity need new_capacity = (if need > new_capacity then grow_capacity need (new_capacity * 2) else Some new_capacity)"

definition upd_resource :: "addr \<Rightarrow> (tmpfs_resource_t \<Rightarrow> tmpfs_resource_t) \<Rightarrow> tmpfs_state \<Rightarrow> tmpfs_state" where
  "upd_resource self f s = s\<lparr>resource_at := (resource_at s)(self := f (resource_at s self))\<rparr>"

definition unlock_resource :: "cpu_ctx \<Rightarrow> addr \<Rightarrow> tmpfs_state \<Rightarrow> kstop + tmpfs_state" where
  "unlock_resource c self s =
     bindR (lock_release c (rs_lock (resource_at s self))) (\<lambda>l. Inr (upd_resource self (\<lambda>r. r\<lparr>rs_lock := l\<rparr>) s))"

definition tmpfs_resource_grow :: "cpu_ctx \<Rightarrow> addr \<Rightarrow> u64 \<Rightarrow> tmpfs_state \<Rightarrow> (kstop + (bool \<times> tmpfs_state)) option" where
  "tmpfs_resource_grow c self sz s =
     (case lock_acquire c ''tmpfs_resource_grow'' (rs_lock (resource_at s self)) of
        Inl e \<Rightarrow> Some (Inl e)
      | Inr l \<Rightarrow>
          (let s1 = upd_resource self (\<lambda>r. r\<lparr>rs_lock := l\<rparr>) s; r1 = resource_at s1 self
           in case grow_capacity sz (capacity r1) of
                None \<Rightarrow> None
              | Some new_capacity \<Rightarrow>
                  Some (bindR (realloc c (storage r1) new_capacity (kheap_of s1)) (\<lambda>(new_storage, h).
                    let s2 = s1\<lparr>kheap_of := h\<rparr>
                    in if new_storage = 0 then bindR (unlock_resource c self s2) (\<lambda>s3. Inr (False, s3))
                       else
                         (let s3 = upd_resource self (\<lambda>r. r\<lparr>storage := new_storage, capacity := new_capacity, st_size := sz,
                                                           st_blocks := div_roundup sz (st_block_size r)\<rparr>) s2
                          in bindR (unlock_resource c self s3) (\<lambda>s4. Inr (True, s4)))))))"

definition tmpfs_resource_read ::
  "cpu_ctx \<Rightarrow> memory \<Rightarrow> addr \<Rightarrow> addr \<Rightarrow> u64 \<Rightarrow> u64 \<Rightarrow> tmpfs_state \<Rightarrow> kstop + (u64 \<times> memory \<times> tmpfs_state)" where
  "tmpfs_resource_read c m self buf loc cnt s =
     bindR (lock_acquire c ''tmpfs_resource_read'' (rs_lock (resource_at s self))) (\<lambda>l.
       let s1 = upd_resource self (\<lambda>r. r\<lparr>rs_lock := l\<rparr>) s;
           r1 = resource_at s1 self;
           actual_count = (if loc + cnt > st_size r1 then cnt - ((loc + cnt) - st_size r1) else cnt);
           m1 = store_bytes m buf (load_bytes (mem (kheap_of s1)) (storage r1 + loc) (unat actual_count))
       in bindR (unlock_resource c self s1) (\<lambda>s2. Inr (actual_count, m1, s2)))"

text \<open>The part of the write after the lock is taken, and the part after the storage is large enough.\<close>

definition tmpfs_put :: "cpu_ctx \<Rightarrow> memory \<Rightarrow> addr \<Rightarrow> addr \<Rightarrow> u64 \<Rightarrow> u64 \<Rightarrow> tmpfs_state \<Rightarrow> kstop + (u64 \<times> tmpfs_state)" where
  "tmpfs_put c m self buf loc cnt s =
     (let r = resource_at s self;
          s1 = s\<lparr>kheap_of := heap_put (storage r + loc) (load_bytes m buf (unat cnt)) (kheap_of s)\<rparr>;
          s2 = (if loc + cnt > st_size r
                then upd_resource self (\<lambda>r. r\<lparr>st_size := loc + cnt, st_blocks := div_roundup (loc + cnt) (st_block_size r)\<rparr>) s1
                else s1)
      in bindR (unlock_resource c self s2) (\<lambda>s3. Inr (cnt, s3)))"

definition tmpfs_resource_write ::
  "cpu_ctx \<Rightarrow> memory \<Rightarrow> addr \<Rightarrow> addr \<Rightarrow> u64 \<Rightarrow> u64 \<Rightarrow> tmpfs_state \<Rightarrow> (kstop + (u64 \<times> tmpfs_state)) option" where
  "tmpfs_resource_write c m self buf loc cnt s =
     (case lock_acquire c ''tmpfs_resource_write'' (rs_lock (resource_at s self)) of
        Inl e \<Rightarrow> Some (Inl e)
      | Inr l \<Rightarrow>
          (let s1 = upd_resource self (\<lambda>r. r\<lparr>rs_lock := l\<rparr>) s; r1 = resource_at s1 self
           in if loc + cnt > capacity r1
              then (case grow_capacity (loc + cnt) (capacity r1) of
                      None \<Rightarrow> None
                    | Some new_capacity \<Rightarrow>
                        Some (bindR (realloc c (storage r1) new_capacity (kheap_of s1)) (\<lambda>(new_storage, h).
                          let s2 = s1\<lparr>kheap_of := h\<rparr>
                          in if new_storage = 0 then bindR (unlock_resource c self s2) (\<lambda>s3. Inr (cnt, s3))
                             else tmpfs_put c m self buf loc cnt
                                    (upd_resource self (\<lambda>r. r\<lparr>storage := new_storage, capacity := new_capacity\<rparr>) s2))))
              else Some (tmpfs_put c m self buf loc cnt s1)))"

definition tmpfs_resource_unref :: "cpu_ctx \<Rightarrow> addr \<Rightarrow> tmpfs_state \<Rightarrow> kstop + (bool \<times> tmpfs_state)" where
  "tmpfs_resource_unref c self s =
     (let s1 = upd_resource self (\<lambda>r. r\<lparr>rs_refcount := rs_refcount r - 1\<rparr>) s; r = resource_at s1 self
      in if rs_refcount r = 0 \<and> stat_is_reg (st_mode r)
         then bindR (free c (storage r) (kheap_of s1)) (\<lambda>h1. bindR (free c self h1) (\<lambda>h2. Inr (True, s1\<lparr>kheap_of := h2\<rparr>)))
         else Inr (True, s1))"

definition tmpfs_resource_link :: "addr \<Rightarrow> tmpfs_state \<Rightarrow> bool \<times> tmpfs_state" where
  "tmpfs_resource_link self s = (True, upd_resource self (\<lambda>r. r\<lparr>st_nlink := st_nlink r + 1\<rparr>) s)"

definition tmpfs_resource_unlink :: "addr \<Rightarrow> tmpfs_state \<Rightarrow> bool \<times> tmpfs_state" where
  "tmpfs_resource_unlink self s = (True, upd_resource self (\<lambda>r. r\<lparr>st_nlink := st_nlink r - 1\<rparr>) s)"

definition tmpfs_resource_mmap :: "cpu_ctx \<Rightarrow> addr \<Rightarrow> u64 \<Rightarrow> u32 \<Rightarrow> tmpfs_state \<Rightarrow> kstop + (addr \<times> tmpfs_state)" where
  "tmpfs_resource_mmap c self pg flags s =
     bindR (lock_acquire c ''tmpfs_resource_mmap'' (rs_lock (resource_at s self))) (\<lambda>l.
       let s1 = upd_resource self (\<lambda>r. r\<lparr>rs_lock := l\<rparr>) s; r = resource_at s1 self
       in bindR (if flags AND MMAP_MAP_SHARED \<noteq> 0 then Inr (storage r + pg * PAGE_SIZE - HIGHER_HALF, s1)
                 else bindR (pmm_alloc c 1 (kheap_of s1)) (\<lambda>(copy_page, h).
                   Inr (copy_page, s1\<lparr>kheap_of := h\<lparr>mem := snd (memcpy (mem h) (copy_page + HIGHER_HALF) (storage r + pg * PAGE_SIZE) PAGE_SIZE)\<rparr>\<rparr>)))
            (\<lambda>(rv, s2). bindR (unlock_resource c self s2) (\<lambda>s3. Inr (rv, s3))))"

section \<open>The lock of a resource\<close>

text \<open>
  A resource's lock is zeroed memory, not \<^verbatim>\<open>LOCK_INITIALIZER\<close>: its owner is processor 0 until a debug build has released it
  once.  It can be taken if it is free and the recursion check of a debug build does not mistake the caller for the owner.
\<close>

definition lock_ready :: "cpu_ctx \<Rightarrow> lock_t \<Rightarrow> bool" where
  "lock_ready c l \<longleftrightarrow> \<not> is_locked l \<and> \<not> (cottage_debug c \<and> get_current_cpu_safe c \<noteq> - 1 \<and> owner_cpu l = get_current_cpu_safe c)"

definition lock_taken :: "cpu_ctx \<Rightarrow> lock_t \<Rightarrow> bool" where
  "lock_taken c l \<longleftrightarrow> is_locked l \<and> (cottage_debug c \<longrightarrow> owner_cpu l = get_current_cpu_safe c)"

lemma lock_acquire_ready:
  assumes "lock_ready c l"
  shows "\<exists>l'. lock_acquire c caller l = Inr l' \<and> lock_taken c l'"
proof -
  have "lock_spin c r m (\<lambda>_ l. l) 0 l = Inr (lock_record_owner c r m (snd (lock_test_and_acquire c ''lock_acquire'' l)))" for r m
    using assms by (simp add: lock_spin_free lock_ready_def)
  then show ?thesis using assms
    by (auto simp: lock_acquire_def lock_acquire_env_def Let_def lock_ready_def lock_taken_def lock_record_owner_def lock_test_and_acquire_def)
qed

lemma lock_release_taken: "lock_taken c l \<Longrightarrow> \<exists>l'. lock_release c l = Inr l' \<and> lock_ready c l'"
  by (auto simp: lock_taken_def lock_release_def lock_ready_def Let_def)

interpretation zlock: mutex "lock_ready c" "lock_taken c" "lock_acquire c caller" "lock_release c" for c caller
  by unfold_locales (auto intro: lock_acquire_ready lock_release_taken)

section \<open>Files as byte lists\<close>

definition file_bytes :: "addr \<Rightarrow> tmpfs_state \<Rightarrow> u8 list" where
  "file_bytes self s = load_bytes (mem (kheap_of s)) (storage (resource_at s self)) (unat (st_size (resource_at s self)))"

text \<open>A regular file in a heap with the live blocks \<open>L\<close>, its storage being the block of \<open>m\<close> bytes.\<close>

definition file_data :: "addr \<Rightarrow> nat \<Rightarrow> (addr \<times> nat) set \<Rightarrow> tmpfs_state \<Rightarrow> bool" where
  "file_data self m L s \<longleftrightarrow>
     (let r = resource_at s self
      in heap_has (kheap_of s) L \<and> (storage r, m) \<in> L \<and> 0 < unat (capacity r) \<and> unat (capacity r) \<le> m \<and>
         unat (capacity r) \<le> heap_used (kheap_of s) (storage r) m \<and> unat (st_size r) \<le> unat (capacity r))"

definition file_ok :: "cpu_ctx \<Rightarrow> addr \<Rightarrow> nat \<Rightarrow> (addr \<times> nat) set \<Rightarrow> tmpfs_state \<Rightarrow> bool" where
  "file_ok c self m L s \<longleftrightarrow> file_data self m L s \<and> lock_ready c (rs_lock (resource_at s self))"

lemma grow_capacity_returns:
  assumes "0 < unat cap" and "unat need \<le> 2 ^ 62"
  shows "\<exists>n. grow_capacity need cap = Some n \<and> unat need \<le> unat n \<and> unat cap \<le> unat n \<and> (n = cap \<or> unat n < 2 * unat need)"
  using assms(1)
proof (induction "2 ^ 63 - unat cap" arbitrary: cap rule: less_induct)
  case less
  show ?case
  proof (cases "need > cap")
    case False
    then have "unat need \<le> unat cap" by (simp add: not_less word_le_nat_alt)
    then show ?thesis using False by (subst grow_capacity.simps) simp
  next
    case True
    then have lt: "unat cap < unat need" by (simp add: word_less_nat_alt)
    have dbl: "unat (cap * 2) = 2 * unat cap" using lt assms(2) by (simp add: unat_word_ariths)
    then have "\<exists>n. grow_capacity need (cap * 2) = Some n \<and> unat need \<le> unat n \<and> unat (cap * 2) \<le> unat n \<and> (n = cap * 2 \<or> unat n < 2 * unat need)"
      using less.prems lt assms(2) by (intro less.hyps) simp_all
    then show ?thesis using True lt dbl by (subst grow_capacity.simps) auto
  qed
qed

text \<open>A resource without storage, such as a symbolic link, has capacity 0: writing to it never returns.\<close>

lemma grow_capacity_stuck:
  assumes "0 < need"
  shows "grow_capacity need 0 = None"
proof (rule ccontr)
  assume "grow_capacity need 0 \<noteq> None"
  then obtain n where n: "grow_capacity need 0 = Some n" by blast
  have "0 = (0 :: u64) \<longrightarrow> need = 0"
    by (rule grow_capacity.raw_induct [where P = "\<lambda>need cap n. cap = 0 \<longrightarrow> need = 0", OF _ n]) (auto split: if_splits simp: not_less)
  then show False using assms by simp
qed

section \<open>Reading and writing, properties\<close>

lemma file_data_cong:
  assumes "kheap_of s' = kheap_of s" and "storage (resource_at s' self) = storage (resource_at s self)"
    and "capacity (resource_at s' self) = capacity (resource_at s self)" and "st_size (resource_at s' self) = st_size (resource_at s self)"
  shows "file_data self m L s' = file_data self m L s" and "file_bytes self s' = file_bytes self s"
  using assms by (simp_all add: file_data_def file_bytes_def Let_def)

lemma unlock_resource_runs:
  assumes "lock_taken c (rs_lock (resource_at s self))"
  shows "\<exists>l. lock_ready c l \<and> unlock_resource c self s = Inr (upd_resource self (\<lambda>r. r\<lparr>rs_lock := l\<rparr>) s)"
  using zlock.release_held [OF assms] by (auto simp: unlock_resource_def)

text \<open>A write inside a block, at or before the end of the part in use, seen as a byte list.\<close>

lemma put_splice:
  assumes "heap_has h L" and "(p, m) \<in> L" and "n \<le> m" and "off \<le> n" and "off + length data \<le> m"
  defines "bytes \<equiv> load_bytes (mem h) p n"
  shows "load_bytes (mem (heap_put (p + of_nat off) data h)) p (max n (off + length data)) = take off bytes @ data @ drop (off + length data) bytes"
proof -
  let ?h = "heap_put (p + of_nat off) data h" and ?k = "length data"
  note put = kheap.put_inside [OF assms(1,2,5)]
  define rest where "rest = n - (off + ?k)"
  have k: "max n (off + ?k) = off + (?k + rest)" by (simp add: rest_def)
  have "load_bytes (mem ?h) p (max n (off + ?k)) =
      load_bytes (mem ?h) p off @ load_bytes (mem ?h) (p + of_nat off) ?k @ load_bytes (mem ?h) (p + of_nat (off + ?k)) rest"
    unfolding k by (simp only: load_bytes_append) (simp add: add.assoc)
  moreover have "load_bytes (mem ?h) p off = take off bytes"
    using put(3) [of 0 off] assms(4,5) load_bytes_part [of "mem h" p n bytes 0 off] by (simp add: bytes_def)
  moreover have "load_bytes (mem ?h) (p + of_nat (off + ?k)) rest = drop (off + ?k) bytes"
  proof (cases "off + ?k \<le> n")
    case True
    then show ?thesis using put(3) [of "off + ?k" rest] assms(3) load_bytes_part [of "mem h" p n bytes "off + ?k" rest]
      by (simp add: bytes_def rest_def)
  qed (simp add: rest_def bytes_def load_bytes_def)
  ultimately show ?thesis using put(2) by simp
qed

lemma tmpfs_put_spec:
  fixes mm :: memory and buf :: addr
  assumes d: "file_data self m L s" and held: "lock_taken c (rs_lock (resource_at s self))"
    and loc: "unat loc \<le> unat (st_size (resource_at s self))" and fits: "unat loc + unat cnt \<le> unat (capacity (resource_at s self))"
  defines "data \<equiv> load_bytes mm buf (unat cnt)"
  shows "\<exists>s'. tmpfs_put c mm self buf loc cnt s = Inr (cnt, s') \<and> file_ok c self m L s' \<and>
    storage (resource_at s' self) = storage (resource_at s self) \<and>
    file_bytes self s' = take (unat loc) (file_bytes self s) @ data @ drop (unat loc + unat cnt) (file_bytes self s) \<and>
    (\<forall>(q, k)\<in>L - {(storage (resource_at s self), m)}. load_bytes (mem (kheap_of s')) q k = load_bytes (mem (kheap_of s)) q k)"
proof -
  let ?r = "resource_at s self" and ?h = "kheap_of s"
  let ?p = "storage ?r" and ?size = "unat (st_size ?r)"
  define h' where "h' = heap_put (?p + of_nat (unat loc)) data ?h"
  have dd: "heap_has ?h L" "(?p, m) \<in> L" "0 < unat (capacity ?r)" "unat (capacity ?r) \<le> m" "unat (capacity ?r) \<le> heap_used ?h ?p m" "?size \<le> unat (capacity ?r)"
    using d by (simp_all add: file_data_def Let_def)
  have ld: "length data = unat cnt" by (simp add: data_def)
  have fit: "unat loc + length data \<le> m" using fits dd(4) ld by simp
  have u: "unat (loc + cnt) = unat loc + unat cnt" using fits unat_u64_bound [of "capacity ?r"] by (simp add: unat_word_ariths)
  note put = kheap.put_inside [OF dd(1,2) fit, folded h'_def]
  have used: "heap_used h' ?p m = heap_used ?h ?p m" unfolding h'_def by (rule kresize.put_inside_used [OF dd(1,2,2) fit])
  define n where "n = max ?size (unat loc + unat cnt)"
  have bytes: "load_bytes (mem h') ?p n = take (unat loc) (file_bytes self s) @ data @ drop (unat loc + unat cnt) (file_bytes self s)"
    using put_splice [OF dd(1,2) _ loc fit] dd(4,6) ld by (simp add: file_bytes_def h'_def n_def)
  define s2 where "s2 = (if loc + cnt > st_size ?r
    then upd_resource self (\<lambda>r. r\<lparr>st_size := loc + cnt, st_blocks := div_roundup (loc + cnt) (st_block_size r)\<rparr>) (s\<lparr>kheap_of := h'\<rparr>) else s\<lparr>kheap_of := h'\<rparr>)"
  have s2: "kheap_of s2 = h'" "storage (resource_at s2 self) = ?p" "capacity (resource_at s2 self) = capacity ?r"
    "unat (st_size (resource_at s2 self)) = n" "rs_lock (resource_at s2 self) = rs_lock ?r"
    using u by (simp_all add: s2_def upd_resource_def n_def word_less_nat_alt)
  obtain l where l: "lock_ready c l" "unlock_resource c self s2 = Inr (upd_resource self (\<lambda>r. r\<lparr>rs_lock := l\<rparr>) s2)" (is "_ = Inr ?s3")
    using unlock_resource_runs [of c s2 self] held s2(5) by auto
  have "tmpfs_put c mm self buf loc cnt s = bindR (unlock_resource c self s2) (\<lambda>s3. Inr (cnt, s3))"
    unfolding tmpfs_put_def Let_def s2_def h'_def data_def by simp
  then have run: "tmpfs_put c mm self buf loc cnt s = Inr (cnt, ?s3)" using l(2) by simp
  have same: "kheap_of ?s3 = kheap_of s2" "storage (resource_at ?s3 self) = storage (resource_at s2 self)"
    "capacity (resource_at ?s3 self) = capacity (resource_at s2 self)" "st_size (resource_at ?s3 self) = st_size (resource_at s2 self)"
    "rs_lock (resource_at ?s3 self) = l" by (simp_all add: upd_resource_def)
  have "file_data self m L s2" using put(1) dd fits used by (simp add: file_data_def Let_def s2 n_def)
  then have "file_ok c self m L ?s3" using file_data_cong(1) [OF same(1-4)] same(5) l(1) by (simp add: file_ok_def)
  moreover have "file_bytes self ?s3 = load_bytes (mem h') ?p n" using file_data_cong(2) [OF same(1-4)] by (simp add: file_bytes_def s2)
  moreover have "load_bytes (mem h') q k = load_bytes (mem ?h) q k" if "(q, k) \<in> L" "(q, k) \<noteq> (?p, m)" for q k
    using put(4) [OF that, of k] by simp
  ultimately show ?thesis using run bytes s2(1,2) same(1,2) by (intro exI [of _ ?s3]) auto
qed

text \<open>What a write of \<open>data\<close> at \<open>loc\<close> makes of a file, and that it leaves all other blocks of the heap alone.\<close>

definition file_spliced ::
  "cpu_ctx \<Rightarrow> addr \<Rightarrow> nat \<Rightarrow> (addr \<times> nat) set \<Rightarrow> tmpfs_state \<Rightarrow> nat \<Rightarrow> u8 list \<Rightarrow> nat \<Rightarrow> (addr \<times> nat) set \<Rightarrow> tmpfs_state \<Rightarrow> bool" where
  "file_spliced c self m L s loc data m' L' s' \<longleftrightarrow>
     file_ok c self m' L' s' \<and> L' = insert (storage (resource_at s' self), m') (L - {(storage (resource_at s self), m)}) \<and>
     file_bytes self s' = take loc (file_bytes self s) @ data @ drop (loc + length data) (file_bytes self s) \<and>
     (\<forall>(q, k)\<in>L - {(storage (resource_at s self), m)}. load_bytes (mem (kheap_of s')) q k = load_bytes (mem (kheap_of s)) q k)"

lemma file_grow:
  assumes d: "file_data self m L s" and n: "unat (capacity (resource_at s self)) \<le> unat n" "unat n < 2 ^ 63"
    and r: "realloc c (storage (resource_at s self)) n (kheap_of s) = Inr (p', h)"
  defines "s' \<equiv> upd_resource self (\<lambda>r. r\<lparr>storage := p', capacity := n\<rparr>) (s\<lparr>kheap_of := h\<rparr>)"
  shows "p' \<noteq> 0" and "\<exists>m'. file_data self m' (insert (p', m') (L - {(storage (resource_at s self), m)})) s' \<and> file_bytes self s' = file_bytes self s \<and>
    (\<forall>(q, k)\<in>L - {(storage (resource_at s self), m)}. (q, k) \<noteq> (p', m') \<and> load_bytes (mem h) q k = load_bytes (mem (kheap_of s)) q k)"
proof -
  let ?r = "resource_at s self" and ?h = "kheap_of s"
  have dd: "heap_has ?h L" "(storage ?r, m) \<in> L" "0 < unat (capacity ?r)" "unat (capacity ?r) \<le> heap_used ?h (storage ?r) m" "unat (st_size ?r) \<le> unat (capacity ?r)"
    using d by (simp_all add: file_data_def Let_def)
  obtain m' where m': "unat n \<le> m'" "p' \<noteq> 0" "heap_has h (insert (p', m') (L - {(storage ?r, m)}))" "unat n \<le> heap_used h p' m'"
    "\<forall>(q, k)\<in>L - {(storage ?r, m)}. \<forall>x. in_range q k x \<longrightarrow> mem h x = mem ?h x"
    using kresize.resize_live [OF dd(1,2) n(2) r] by blast
  have bytes: "load_bytes (mem h) p' (unat (st_size ?r)) = load_bytes (mem ?h) (storage ?r) (unat (st_size ?r))"
    using dd(4,5) n(1) by (intro kresize.grow_keeps [OF dd(1,2) n(2) r]) simp_all
  have others: "(q, k) \<noteq> (p', m') \<and> load_bytes (mem h) q k = load_bytes (mem ?h) q k" if "(q, k) \<in> L - {(storage ?r, m)}" for q k
    using that m'(5) kresize.resize_fresh [OF dd(1,2) n(2) r] kheap.block_bytes_cong [of q k h ?h k] by blast
  show "p' \<noteq> 0" by (rule m'(2))
  show "\<exists>m'. file_data self m' (insert (p', m') (L - {(storage ?r, m)})) s' \<and> file_bytes self s' = file_bytes self s \<and>
    (\<forall>(q, k)\<in>L - {(storage ?r, m)}. (q, k) \<noteq> (p', m') \<and> load_bytes (mem h) q k = load_bytes (mem ?h) q k)"
    using m'(1,3,4) bytes others dd(3,5) n(1)
    by (intro exI [of _ m']) (auto simp: file_data_def file_bytes_def s'_def upd_resource_def Let_def)
qed

lemma tmpfs_write_spec:
  assumes ok: "file_ok c self m L s" and loc: "unat loc \<le> unat (st_size (resource_at s self))" and lim: "unat loc + unat cnt \<le> 2 ^ 62"
  shows "\<exists>r. tmpfs_resource_write c mm self buf loc cnt s = Some r \<and> (case r of
      Inl e \<Rightarrow> e = Panic ''Kernel OOM''
    | Inr (n, s') \<Rightarrow> n = cnt \<and> (\<exists>m' L'. file_spliced c self m L s (unat loc) (load_bytes mm buf (unat cnt)) m' L' s'))"
proof -
  let ?r = "resource_at s self" and ?data = "load_bytes mm buf (unat cnt)"
  have d: "file_data self m L s" and idle: "lock_ready c (rs_lock ?r)" using ok by (simp_all add: file_ok_def)
  obtain l where l: "lock_acquire c ''tmpfs_resource_write'' (rs_lock ?r) = Inr l" "lock_taken c l" using zlock.acquire_idle [OF idle] by blast
  define s1 where "s1 = upd_resource self (\<lambda>r. r\<lparr>rs_lock := l\<rparr>) s"
  have s1: "kheap_of s1 = kheap_of s" "storage (resource_at s1 self) = storage ?r" "capacity (resource_at s1 self) = capacity ?r"
    "st_size (resource_at s1 self) = st_size ?r" "rs_lock (resource_at s1 self) = l" by (simp_all add: s1_def upd_resource_def)
  note same = file_data_cong [OF s1(1-4)]
  have d1: "file_data self m L s1" using d same(1) by simp
  have u: "unat (loc + cnt) = unat loc + unat cnt" using lim by (simp add: unat_word_ariths)
  show ?thesis
  proof (cases "loc + cnt > capacity ?r")
    case False
    then have "unat loc + unat cnt \<le> unat (capacity (resource_at s1 self))" using u s1(3) by (simp add: not_less word_le_nat_alt)
    then obtain s' where p: "tmpfs_put c mm self buf loc cnt s1 = Inr (cnt, s')" "file_ok c self m L s'"
      "storage (resource_at s' self) = storage ?r"
      "file_bytes self s' = take (unat loc) (file_bytes self s) @ ?data @ drop (unat loc + unat cnt) (file_bytes self s)"
      "\<forall>(q, k)\<in>L - {(storage ?r, m)}. load_bytes (mem (kheap_of s')) q k = load_bytes (mem (kheap_of s)) q k"
      using tmpfs_put_spec [OF d1, of c loc cnt mm buf] l(2) loc s1 same(2) by auto
    have "(storage ?r, m) \<in> L" using d by (simp add: file_data_def Let_def)
    then have "file_spliced c self m L s (unat loc) ?data m L s'" using p(2-5) by (simp add: file_spliced_def insert_absorb)
    then show ?thesis using p(1) l(1) False s1(3) unfolding tmpfs_resource_write_def by (auto simp: Let_def s1_def [symmetric])
  next
    case True
    then have big: "unat (capacity ?r) < unat (loc + cnt)" by (simp add: word_less_nat_alt)
    have "0 < unat (capacity ?r)" using d by (simp add: file_data_def Let_def)
    then obtain n where n: "grow_capacity (loc + cnt) (capacity ?r) = Some n" "unat loc + unat cnt \<le> unat n" "unat (capacity ?r) \<le> unat n" "unat n < 2 ^ 63"
      using grow_capacity_returns [of "capacity ?r" "loc + cnt"] lim big by (auto simp: u)
    have run: "tmpfs_resource_write c mm self buf loc cnt s = Some (bindR (realloc c (storage ?r) n (kheap_of s)) (\<lambda>(new_storage, h).
        let s2 = s1\<lparr>kheap_of := h\<rparr>
        in if new_storage = 0 then bindR (unlock_resource c self s2) (\<lambda>s3. Inr (cnt, s3))
           else tmpfs_put c mm self buf loc cnt (upd_resource self (\<lambda>r. r\<lparr>storage := new_storage, capacity := n\<rparr>) s2)))"
      using True l(1) n(1) s1(1-3) unfolding tmpfs_resource_write_def by (simp add: Let_def s1_def [symmetric])
    show ?thesis
    proof (cases "realloc c (storage ?r) n (kheap_of s)")
      case (Inl e)
      then show ?thesis using kresize.resize_stops [OF _ _ n(4) Inl] d by (auto simp add: run file_data_def Let_def)
    next
      case (Inr pr)
      then obtain p' h where r: "realloc c (storage ?r) n (kheap_of s) = Inr (p', h)" by (cases pr) simp
      let ?s3 = "upd_resource self (\<lambda>r. r\<lparr>storage := p', capacity := n\<rparr>) (s1\<lparr>kheap_of := h\<rparr>)"
      have g: "p' \<noteq> 0" "\<exists>m'. file_data self m' (insert (p', m') (L - {(storage ?r, m)})) ?s3 \<and> file_bytes self ?s3 = file_bytes self s \<and>
          (\<forall>(q, k)\<in>L - {(storage ?r, m)}. (q, k) \<noteq> (p', m') \<and> load_bytes (mem h) q k = load_bytes (mem (kheap_of s)) q k)"
        using file_grow [OF d1, of n c p' h] n(3,4) r s1(1-3) same(2) by simp_all
      then obtain m' where m': "file_data self m' (insert (p', m') (L - {(storage ?r, m)})) ?s3" "file_bytes self ?s3 = file_bytes self s"
        "\<forall>(q, k)\<in>L - {(storage ?r, m)}. (q, k) \<noteq> (p', m') \<and> load_bytes (mem h) q k = load_bytes (mem (kheap_of s)) q k" by blast
      have s3: "rs_lock (resource_at ?s3 self) = l" "st_size (resource_at ?s3 self) = st_size ?r" "capacity (resource_at ?s3 self) = n"
        "storage (resource_at ?s3 self) = p'" "kheap_of ?s3 = h" using s1 by (simp_all add: upd_resource_def)
      obtain s' where p: "tmpfs_put c mm self buf loc cnt ?s3 = Inr (cnt, s')" "file_ok c self m' (insert (p', m') (L - {(storage ?r, m)})) s'"
        "storage (resource_at s' self) = p'"
        "file_bytes self s' = take (unat loc) (file_bytes self s) @ ?data @ drop (unat loc + unat cnt) (file_bytes self s)"
        "\<forall>(q, k)\<in>insert (p', m') (L - {(storage ?r, m)}) - {(p', m')}. load_bytes (mem (kheap_of s')) q k = load_bytes (mem h) q k"
        using tmpfs_put_spec [OF m'(1), of c loc cnt mm buf, unfolded s3 m'(2), OF l(2) loc n(2)] by blast
      have "load_bytes (mem (kheap_of s')) q k = load_bytes (mem (kheap_of s)) q k" if q: "(q, k) \<in> L - {(storage ?r, m)}" for q k
      proof -
        have a: "(q, k) \<noteq> (p', m')" "load_bytes (mem h) q k = load_bytes (mem (kheap_of s)) q k" using m'(3) q by blast+
        then have "(q, k) \<in> insert (p', m') (L - {(storage ?r, m)}) - {(p', m')}" using q by blast
        then have "load_bytes (mem (kheap_of s')) q k = load_bytes (mem h) q k" using p(5) by blast
        then show ?thesis using a(2) by simp
      qed
      then have "file_spliced c self m L s (unat loc) ?data m' (insert (p', m') (L - {(storage ?r, m)})) s'"
        unfolding file_spliced_def p(3) length_load_bytes using p(2,4) by blast
      then show ?thesis using p(1) g(1) by (auto simp: run r Let_def)
    qed
  qed
qed

lemma tmpfs_read_spec:
  assumes ok: "file_ok c self m L s" and loc: "unat loc \<le> unat (st_size (resource_at s self))" and lim: "unat loc + unat cnt < 2 ^ 64"
  defines "bytes \<equiv> take (unat cnt) (drop (unat loc) (file_bytes self s))"
  shows "\<exists>s'. tmpfs_resource_read c mm self buf loc cnt s = Inr (of_nat (length bytes), store_bytes mm buf bytes, s') \<and>
    file_ok c self m L s' \<and> file_bytes self s' = file_bytes self s \<and> kheap_of s' = kheap_of s"
proof -
  let ?r = "resource_at s self"
  let ?n = "if loc + cnt > st_size ?r then cnt - ((loc + cnt) - st_size ?r) else cnt"
  obtain l where l: "lock_acquire c ''tmpfs_resource_read'' (rs_lock ?r) = Inr l" "lock_taken c l"
    using zlock.acquire_idle [of c "rs_lock ?r"] ok unfolding file_ok_def by blast
  define s1 where "s1 = upd_resource self (\<lambda>r. r\<lparr>rs_lock := l\<rparr>) s"
  have s1: "kheap_of s1 = kheap_of s" "storage (resource_at s1 self) = storage ?r" "capacity (resource_at s1 self) = capacity ?r"
    "st_size (resource_at s1 self) = st_size ?r" "rs_lock (resource_at s1 self) = l" by (simp_all add: s1_def upd_resource_def)
  obtain l2 where l2: "lock_ready c l2" "unlock_resource c self s1 = Inr (upd_resource self (\<lambda>r. r\<lparr>rs_lock := l2\<rparr>) s1)" (is "_ = Inr ?s2")
    using unlock_resource_runs [of c s1 self] l(2) s1(5) by auto
  have u: "unat (loc + cnt) = unat loc + unat cnt" using lim by (simp add: unat_word_ariths)
  have n: "unat ?n = length bytes"
  proof (cases "loc + cnt > st_size ?r")
    case True
    then have "cnt - ((loc + cnt) - st_size ?r) = st_size ?r - loc" "unat (st_size ?r - loc) = unat (st_size ?r) - unat loc"
      using loc by (simp_all add: unat_sub word_le_nat_alt)
    then show ?thesis using True u by (simp add: bytes_def file_bytes_def word_less_nat_alt)
  next
    case False
    then show ?thesis using u by (simp add: bytes_def file_bytes_def word_less_nat_alt)
  qed
  have ld: "load_bytes (mem (kheap_of s)) (storage ?r + loc) (unat ?n) = bytes"
  proof -
    have "unat loc + length bytes \<le> unat (st_size ?r)" using loc by (simp add: bytes_def file_bytes_def)
    then have "load_bytes (mem (kheap_of s)) (storage ?r + loc) (length bytes) = take (length bytes) (drop (unat loc) (file_bytes self s))"
      using load_bytes_part [of "mem (kheap_of s)" "storage ?r" "unat (st_size ?r)" "file_bytes self s" "unat loc" "length bytes"]
      by (simp add: file_bytes_def)
    moreover have "take (length (take k xs)) xs = take k xs" for k and xs :: "u8 list" by (cases "length xs \<le> k") simp_all
    ultimately show ?thesis unfolding n by (simp only: bytes_def)
  qed
  have nw: "?n = of_nat (length bytes)" by (simp flip: n)
  have "tmpfs_resource_read c mm self buf loc cnt s = bindR (unlock_resource c self s1) (\<lambda>s2.
      Inr (?n, store_bytes mm buf (load_bytes (mem (kheap_of s)) (storage ?r + loc) (unat ?n)), s2))"
    using l(1) s1 unfolding tmpfs_resource_read_def by (simp add: Let_def s1_def [symmetric])
  then have "tmpfs_resource_read c mm self buf loc cnt s = Inr (of_nat (length bytes), store_bytes mm buf bytes, ?s2)"
    unfolding l2(2) ld unfolding nw by simp
  moreover have same: "kheap_of ?s2 = kheap_of s" "storage (resource_at ?s2 self) = storage ?r" "capacity (resource_at ?s2 self) = capacity ?r"
    "st_size (resource_at ?s2 self) = st_size ?r" "rs_lock (resource_at ?s2 self) = l2" using s1 by (simp_all add: upd_resource_def)
  ultimately show ?thesis using ok l2(1) file_data_cong [OF same(1-4)] by (intro exI [of _ ?s2]) (simp add: file_ok_def)
qed


section \<open>New files\<close>

lemma malloc_has:
  assumes "heap_has h L" and "unat n < 2 ^ 63" and "malloc c n h = Inr (p, h')"
  shows "\<exists>L'. L \<subseteq> L' \<and> heap_has h' L'"
proof -
  obtain m where "heap_has h' (insert (p, m) L)" using kheap.alloc_fresh [OF assms] by blast
  then show ?thesis by (intro exI [of _ "insert (p, m) L"]) blast
qed

lemma vfs_create_node_has:
  assumes "heap_has (kheap_of s) L" and "unat (sz_vfs_node sz) < 2 ^ 63" and "unat (sz_resource sz) < 2 ^ 63" and "length nm < 2 ^ 62"
    and "vfs_create_node c sz fs par nm dir s = Inr (node, s')"
  shows "\<exists>L'. L \<subseteq> L' \<and> heap_has (kheap_of s') L'"
proof -
  obtain node' h1 name h2 res h3 ch h4 where r: "malloc c (sz_vfs_node sz) (kheap_of s) = Inr (node', h1)"
    "malloc c (of_nat (length nm + 1)) h1 = Inr (name, h2)" "malloc c (sz_resource sz) h2 = Inr (res, h3)"
    "(if dir then malloc c (sz_vfs_node sz) h3 else Inr (0, h3)) = Inr (ch, h4)" "kheap_of s' = h4"
    using assms(5) unfolding vfs_create_node_def by (auto elim!: bindR_InrE)
  have n: "unat (of_nat (length nm + 1) :: u64) < 2 ^ 63" using assms(4) by (subst unat_of_nat_u64) simp_all
  obtain L1 where "L \<subseteq> L1" "heap_has h1 L1" using malloc_has [OF assms(1,2) r(1)] by blast
  moreover then obtain L2 where "L1 \<subseteq> L2" "heap_has h2 L2" using malloc_has [OF _ n r(2)] by blast
  moreover then obtain L3 where "L2 \<subseteq> L3" "heap_has h3 L3" using malloc_has [OF _ assms(3) r(3)] by blast
  moreover then obtain L4 where "L3 \<subseteq> L4" "heap_has h4 L4" using malloc_has [OF _ assms(2), of h3 L3 c ch h4] r(4) by (cases dir) auto
  ultimately show ?thesis using r(5) by (intro exI [of _ L4]) simp
qed

text \<open>A new regular file is empty and ready for use, on every processor of a release build and on all but processor 0 of a debug build.\<close>

lemma tmpfs_create_file:
  assumes "heap_has (kheap_of s) L" and "unat (sz_vfs_node sz) < 2 ^ 63" and "unat (sz_resource sz) < 2 ^ 63" and "unat (sz_tmpfs_resource sz) < 2 ^ 63"
    and "length nm < 2 ^ 62" and "stat_is_reg mode" and "tmpfs_create_node c sz self par nm mode s = Inr (node, s')"
    and "\<not> (cottage_debug c \<and> get_current_cpu_safe c = 0)"
  shows "\<exists>m L'. L \<subseteq> L' \<and> file_ok c (vn_resource (vnode_at s' node)) m L' s' \<and> file_bytes (vn_resource (vnode_at s' node)) s' = []"
proof -
  obtain node' s1 res h1 store h2 where r: "vfs_create_node c sz self par nm (stat_is_dir mode) s = Inr (node', s1)"
    "malloc c (sz_tmpfs_resource sz) (kheap_of s1) = Inr (res, h1)" "malloc c 4096 h1 = Inr (store, h2)" "kheap_of s' = h2"
    "vn_resource (vnode_at s' node) = res" "resource_at s' res = new_resource mode 0 store 4096 True self s1"
    using assms(6,7) unfolding tmpfs_create_node_def by (auto simp: Let_def take_inode_def elim!: bindR_InrE)
  obtain L1 where L1: "L \<subseteq> L1" "heap_has (kheap_of s1) L1" using vfs_create_node_has [OF assms(1-3,5) r(1)] by blast
  obtain L2 where L2: "L1 \<subseteq> L2" "heap_has h1 L2" using malloc_has [OF L1(2) assms(4) r(2)] by blast
  have n: "unat (4096 :: u64) < 2 ^ 63" by simp
  obtain m where m: "4096 \<le> m" "heap_has h2 (insert (store, m) L2)" using kheap.alloc_fresh [OF L2(2) n r(3)] by auto
  have "4096 \<le> heap_used h2 store m" using kresize.alloc_used [OF L2(2) n r(3) m(2) insertI1] m(1) by simp
  then have "file_ok c res m (insert (store, m) L2) s'"
    using m assms(8) by (auto simp: file_ok_def file_data_def lock_ready_def r(4,6) new_resource_def Let_def)
  moreover have "file_bytes res s' = []" by (simp add: file_bytes_def r(6) new_resource_def load_bytes_def)
  ultimately show ?thesis using L1(1) L2(1) r(5) by (intro exI [of _ m] exI [of _ "insert (store, m) L2"]) auto
qed

text \<open>On processor 0 of a debug build, with interrupts off, the first operation on a new file is taken for a recursive acquisition.\<close>

lemma new_file_panics_on_cpu0:
  assumes "cottage_debug c" and "get_current_cpu_safe c = 0" and "rs_lock (resource_at s self) = rs_lock (new_resource mode sz store cap mm fs s0)"
  shows "tmpfs_resource_read c m self buf loc cnt s = Inl (Panic ''Recursive lock acquisition (deadlock)'')"
    and "tmpfs_resource_write c m self buf loc cnt s = Some (Inl (Panic ''Recursive lock acquisition (deadlock)''))"
proof -
  have "lock_acquire c caller (rs_lock (resource_at s self)) = Inl (Panic ''Recursive lock acquisition (deadlock)'')" for caller
    using assms by (simp add: lock_acquire_def lock_acquire_env_def new_resource_def)
  then show "tmpfs_resource_read c m self buf loc cnt s = Inl (Panic ''Recursive lock acquisition (deadlock)'')"
    "tmpfs_resource_write c m self buf loc cnt s = Some (Inl (Panic ''Recursive lock acquisition (deadlock)''))"
    by (simp_all add: tmpfs_resource_read_def tmpfs_resource_write_def)
qed

section \<open>Modes\<close>

text \<open>The tests compare bits, not the type field: a socket passes as a directory and as a regular file, and a link as a regular file.\<close>

lemma stat_tests_overlap: "stat_is_dir 0xC000" "stat_is_reg 0xC000" "stat_is_dir 0x6000" "stat_is_reg (STAT_IFLNK OR 0x1FF)"
  by (simp_all add: stat_is_dir_def stat_is_reg_def)

section \<open>A concrete file\<close>

definition demo_fs :: "heap_state \<Rightarrow> addr \<Rightarrow> tmpfs_state" where
  "demo_fs h p =
     \<lparr>kheap_of = h,
      resource_at = (\<lambda>a. \<lparr>rs_lock = LOCK_INITIALIZER None, st_device = 0, st_inode = 1, st_mode = 0x81A4, st_nlink = 1, st_size = 5,
        accessed_time = \<lparr>tv_sec = 0, tv_nsec = 0\<rparr>, modified_time = \<lparr>tv_sec = 0, tv_nsec = 0\<rparr>, created_time = \<lparr>tv_sec = 0, tv_nsec = 0\<rparr>,
        st_block_size = 512, st_blocks = 1, rs_refcount = 1, can_mmap = True, storage = p, capacity = 100\<rparr>),
      vnode_at = (\<lambda>a. sock_node 0x6000), tmpfs_at = (\<lambda>a. \<lparr>fs_dev_id = 0, inode_counter = 2\<rparr>), dev_id_counter = 1,
      wall_clock = \<lparr>tv_sec = 0, tv_nsec = 0\<rparr>\<rparr>"


end
