(* ===== verification/Spec2Isabelle.thy ===== *)
theory Spec2Isabelle
  imports Lock MemBoot Pagemap Tables Semaphore Tmpfs
begin

text \<open>
  A verification development for the Cottage kernel, an x86\_64 kernel in C under \<^verbatim>\<open>src/kernel\<close>.
  File names below are relative to that directory.

  \<^bold>\<open>The program.\<close>  The boot loader calls \<^verbatim>\<open>src/main.c\<close>, which brings up the memory managers (\<^verbatim>\<open>src/mem\<close>), the segment and
  interrupt tables (\<^verbatim>\<open>src/gdt\<close>, \<^verbatim>\<open>src/interrupt\<close>), the timers, the scheduler (\<^verbatim>\<open>src/scheduler\<close>) and the network (\<^verbatim>\<open>src/net\<close>).  All
  parts share the spinlock of \<^verbatim>\<open>src/lock\<close>.  Physical frames come from a bitmap (\<^verbatim>\<open>pmm.c\<close>); the slab allocator carves
  frames into blocks (\<^verbatim>\<open>slaballoc.c\<close>); \<^verbatim>\<open>malloc.c\<close> chooses between slabs and runs of frames; page tables
  (\<^verbatim>\<open>vmm.c\<close>, \<^verbatim>\<open>pagemap.c\<close>) take their frames from the bitmap.  The timer interrupt of \<^verbatim>\<open>apic.c\<close> enters the scheduler through the stub
  of \<^verbatim>\<open>isr.S\<close>; semaphores put threads on and off its run queue.  The network thread waits on a semaphore for packets,
  hands them to ARP or IPv4, and UDP queues datagrams in heap blocks for the socket system calls of \<^verbatim>\<open>src/socket\<close>.

  \<^bold>\<open>How code is modelled.\<close>  Machine integers are words of their C width.  A routine returns in the type \<open>kstop + 'a\<close>: \<open>Inl\<close> is a
  kernel panic or an unhandled page fault, \<open>Inr\<close> the result with the new state.  The memory managers work on one byte-addressed
  memory, with the C structures laid out in it; records extend one another (\<open>pmm_state\<close>, \<open>slab_state\<close>, \<open>heap_state\<close>, \<open>vm_state\<close>) as
  the components do.  Devices answer reads as a function of the log of all earlier accesses (\<open>io_state\<close>, \<open>platform\<close>, \<open>sched_state\<close>).
  Threads, processors, sockets and descriptors, whose layout no claim depends on, are records in typed stores indexed by
  address.  Each routine is one function of the whole state, so it runs without interference; where interference is the point,
  the code is a step relation over single memory accesses (\<open>lock_step\<close>).  Log output is left out.

  \<^bold>\<open>The theories.\<close>

  \<^item> \<open>Prelude\<close>: machine integers, outcomes, little-endian codecs, byte memory with loads and stores, regions, lemmas on words.

  \<^item> \<open>Lock\<close>: \<^verbatim>\<open>src/lock/lock.c\<close> and the interrupt-safe macros of \<^verbatim>\<open>include/lock/lock.h\<close>, in both builds.  The locale \<open>mutex\<close> is the contract
    the other components use.  At the level of single accesses, no two of any number of processors are between
    acquire and release, and the debug checks fire for no correct client.

  \<^item> \<open>CString\<close>: \<^verbatim>\<open>src/stdlib/string.c\<close>, as loops over byte memory.

  \<^item> \<open>Pmm\<close>, \<open>PmmBoot\<close>: \<^verbatim>\<open>src/mem/align.c\<close> and \<^verbatim>\<open>src/mem/pmm.c\<close>.  Allocation is next-fit over the bitmap; freeing undoes it; the boot
    memory map is turned into a state with the invariant, in which exactly the usable frames outside the bitmap are free.

  \<^item> \<open>Slab\<close>, \<open>SlabSpec\<close>: \<^verbatim>\<open>src/mem/slaballoc.c\<close>.  The free lists threaded through memory refine a list of blocks per slab.

  \<^item> \<open>Malloc\<close>, \<open>MemBoot\<close>, \<open>HeapUse\<close>: \<^verbatim>\<open>src/mem/malloc.c\<close>.  A set of live, disjoint allocations, each with its contents, and what
    \<^verbatim>\<open>malloc\<close>, \<^verbatim>\<open>free\<close> and \<^verbatim>\<open>realloc\<close> do to it; the booted heap satisfies the invariant; the locale \<open>allocator\<close> is the contract for clients.

  \<^item> \<open>Pagemap\<close>: \<^verbatim>\<open>src/mem/vmm.c\<close> and \<^verbatim>\<open>src/mem/pagemap.c\<close>.  Four-level tables in memory refine a map from pages to entries.

  \<^item> \<open>Tables\<close>: the contracts of rings (\<open>bounded_fifo\<close>) and of tables with free slots (\<open>slot_table\<close>), which the run queue, the process
    table, the semaphore's wait queue, the datagram queue and the routing table instantiate.

  \<^item> \<open>Kio\<close>, \<open>Gdt\<close>, \<open>Interrupts\<close>, \<open>Apic\<close>: device access, \<^verbatim>\<open>src/gdt/gdt.c\<close>, \<^verbatim>\<open>src/interrupt/idt\<close>, \<^verbatim>\<open>src/interrupt/isr\<close>, \<^verbatim>\<open>src/interrupt/apic\<close>.  The descriptors
    decode to the intended segments and gates, the interrupt stub restores every register, and the timer is
    calibrated and programmed as meant.

  \<^item> \<open>Sched\<close>, \<open>SchedIsr\<close>, \<open>SchedDemo\<close>: \<^verbatim>\<open>src/scheduler/scheduler.c\<close> and \<^verbatim>\<open>src/proc/proc.c\<close>.  No thread runs on two processors, a switch saves and
    restores its context, and a thread that stays eligible runs within one round.

  \<^item> \<open>Semaphore\<close>: \<^verbatim>\<open>src/scheduler/semaphore.c\<close> refines a counter with a queue of waiters, woken first in, first out.

  \<^item> \<open>NetWire\<close>, \<open>NetRoute\<close>, \<open>NetArp\<close>, \<open>NetIp\<close>, \<open>Socket\<close>: the network stack from headers and checksums to the system calls.  The checksum is that
    of RFC 1071; a lookup takes the longest prefix; packets that wait for an address are sent, or dropped and freed,
    exactly once; echo requests are answered; datagrams are queued; and bytes that are sent are the bytes received.

  \<^item> \<open>HeapResize\<close>, \<open>Tmpfs\<close>: the contract of \<^verbatim>\<open>realloc\<close> for blocks that grow (the locale \<open>resizer\<close>), and the memory file system of
    \<^verbatim>\<open>src/fs/tmpfs.c\<close>, whose files, kept in growing heap blocks, refine byte lists.

  \<^item> \<open>Timer\<close>: \<^verbatim>\<open>src/time/timer.c\<close>, \<^verbatim>\<open>src/time/pit.c\<close> and \<^verbatim>\<open>src/scheduler/event.c\<close>.  The clocks count ticks exactly, and sleeping ends.

  \<^bold>\<open>Claims and findings.\<close>  The claims are numbered C1 to C40 at their theorems, which stand with the component they are about.  Lemmas named
  after a fault, such as \<open>port_zero_binds_twice\<close> or \<open>new_file_panics_on_cpu0\<close>, show where the code does not do what it means to.

  \<^bold>\<open>Bounds and loops.\<close>  Loops are recursive functions with termination proofs.  The loops that may not end (\<^verbatim>\<open>strlen\<close>, the
  calibration's wait, the wait of \<^verbatim>\<open>sleep\<close>, the doubling of a file's capacity and the scan of \<^verbatim>\<open>find_contiguous_pages\<close>) are
  partial functions with value \<open>None\<close> for not returning.  \<open>strlen_scan_c_string\<close>, \<open>lapic_wait_zero_returns\<close>, \<open>sleep_until_returns\<close>,
  \<open>grow_capacity_returns\<close> and \<open>find_contiguous_pages_useless\<close> state when they return.  No fuel is used: the spin of \<^verbatim>\<open>lock_acquire\<close> is
  bounded by the code's own threshold, and table sizes are those of the headers.  Sizes of requests are bounded in the statements
  by what the word arithmetic of the code needs, for example \<open>2 ^ 63\<close> for \<^verbatim>\<open>realloc\<close>.

  \<^bold>\<open>Parameters.\<close>  Arguments of the definitions stand for the boot loader's memory map, the answers of devices, the value of the
  random-number instruction, the sizes the compiler gives to structures, and the contents of uninitialised stack memory.  The
  physical addresses that \<^verbatim>\<open>src/acpi\<close> finds in the tables of the firmware are arguments as well.

  \<^bold>\<open>Not modelled.\<close>  The terminal emulator \<^verbatim>\<open>src/flanterm\<close> is third-party code, \<^verbatim>\<open>src/stress\<close> is a test driver, and \<^verbatim>\<open>src/fs/ext2.c\<close> is
  disabled by the preprocessor.  The console, terminal, serial line and panic screen only produce text.  \<^verbatim>\<open>src/laihost\<close> serves a library that
  is a submodule.  The rest could be modelled in the same style and is not: the log's ring buffer, formatted output, the PCI bus, the
  network card's descriptor rings, the table walks of \<^verbatim>\<open>src/acpi\<close>, user mappings (\<^verbatim>\<open>src/mem/mmap.c\<close>, and with it \<^verbatim>\<open>delete_pagemap\<close>), thread and
  process creation, processor start-up, path lookup and insertion in \<^verbatim>\<open>src/fs/fs.c\<close>, the device file system and its devices
  (\<^verbatim>\<open>src/streams\<close>, \<^verbatim>\<open>src/random\<close>), the program loader, and the dispatch of system calls.  From the second child of a directory on,
  \<^verbatim>\<open>vfs_add_child\<close> writes past the block it allocated, so a model of lookup by separate records would not be faithful.  The user
  programs and their C library run outside the kernel.
\<close>

end
